(* ===== verification/Tavern_Prelude.thy ===== *)
theory Tavern_Prelude
  imports Main "HOL-Library.Signed_Division"
begin

text \<open>
  Shared vocabulary of the development: Go's fixed-width integers as \<^typ>\<open>int\<close> with the
  wrap-around written out, byte strings, slices \<open>xs[i:j]\<close>, the sum type of fallible
  operations, and the list and arithmetic facts the component theories rely on.

  A Go \<^verbatim>\<open>int64\<close> or \<^verbatim>\<open>int\<close> (64 bits on the supported platforms) is an \<^typ>\<open>int\<close> in the range
  of \<open>i64\<close>, a \<^verbatim>\<open>uint64\<close> one in the range of \<open>u64\<close>, a \<^verbatim>\<open>uint32\<close> one in the range of \<open>u32\<close>.
  Arithmetic that can leave the range is wrapped by the function of that name, which is also
  the conversion \<^verbatim>\<open>int64(x)\<close>, \<^verbatim>\<open>uint64(x)\<close>, \<^verbatim>\<open>uint32(x)\<close> of the source.
\<close>

named_theorems go_int \<open>wrap-around arithmetic inside the range of its type\<close>
named_theorems slice_simps \<open>slices of byte strings\<close>

subsection \<open>Fixed-width integers\<close>

definition u32 :: "int \<Rightarrow> int" where
  "u32 x = x mod 4294967296"

definition u64 :: "int \<Rightarrow> int" where
  "u64 x = x mod 18446744073709551616"

definition i64 :: "int \<Rightarrow> int" where
  "i64 x = (x + 9223372036854775808) mod 18446744073709551616 - 9223372036854775808"

definition is_u32 :: "int \<Rightarrow> bool" where
  "is_u32 x \<longleftrightarrow> 0 \<le> x \<and> x < 4294967296"

definition is_u64 :: "int \<Rightarrow> bool" where
  "is_u64 x \<longleftrightarrow> 0 \<le> x \<and> x < 18446744073709551616"

definition is_i64 :: "int \<Rightarrow> bool" where
  "is_i64 x \<longleftrightarrow> - 9223372036854775808 \<le> x \<and> x < 9223372036854775808"

abbreviation max_i64 :: int where
  "max_i64 \<equiv> 9223372036854775807"

lemma u32_id [go_int]: "0 \<le> x \<Longrightarrow> x < 4294967296 \<Longrightarrow> u32 x = x"
  by (simp add: u32_def)

lemma u64_id [go_int]: "0 \<le> x \<Longrightarrow> x < 18446744073709551616 \<Longrightarrow> u64 x = x"
  by (simp add: u64_def)

lemma i64_id [go_int]: "- 9223372036854775808 \<le> x \<Longrightarrow> x < 9223372036854775808 \<Longrightarrow> i64 x = x"
  by (simp add: i64_def)

lemma u32_range [simp]: "0 \<le> u32 x" "u32 x < 4294967296"
  by (simp_all add: u32_def)

lemma u64_range [simp]: "0 \<le> u64 x" "u64 x < 18446744073709551616"
  by (simp_all add: u64_def)

lemma i64_range [simp]: "- 9223372036854775808 \<le> i64 x" "i64 x < 9223372036854775808"
  using pos_mod_bound [of 18446744073709551616 "x + 9223372036854775808"]
  by (simp_all add: i64_def)

lemma is_i64_i64 [simp]: "is_i64 (i64 x)"
  by (simp add: is_i64_def)

lemma is_u64_u64 [simp]: "is_u64 (u64 x)"
  by (simp add: is_u64_def)

lemma sdiv_nonneg_div: "0 \<le> a \<Longrightarrow> 0 \<le> b \<Longrightarrow> (a::int) sdiv b = a div b"
  by (cases "a = 0"; cases "b = 0") (simp_all add: signed_divide_int_def)

lemma smod_nonneg_mod: "0 \<le> a \<Longrightarrow> 0 \<le> b \<Longrightarrow> (a::int) smod b = a mod b"
  by (cases "a = 0") (simp_all add: signed_modulo_int_def signed_divide_int_def minus_div_mult_eq_mod sgn_if)

subsection \<open>Bytes and slices\<close>

type_synonym byte = char
type_synonym bytes = "char list"

text \<open>\<open>slice xs i n\<close> is \<open>n\<close> elements of \<open>xs\<close> from index \<open>i\<close> on.\<close>

definition slice :: "'a list \<Rightarrow> nat \<Rightarrow> nat \<Rightarrow> 'a list" where
  "slice xs i n = take n (drop i xs)"

lemma length_slice [slice_simps]: "i + n \<le> length xs \<Longrightarrow> length (slice xs i n) = n"
  by (simp add: slice_def)

lemma slice_0 [simp]: "slice xs i 0 = []"
  by (simp add: slice_def)

lemma slice_append_slice [slice_simps]: "slice xs i n @ slice xs (i + n) m = slice xs i (n + m)"
  by (simp add: slice_def take_add) (metis add.commute drop_drop)

lemma drop_slice [slice_simps]: "drop k (slice xs i n) = slice xs (i + k) (n - k)"
  by (simp add: slice_def drop_take add.commute)

lemma take_slice [slice_simps]: "take k (slice xs i n) = slice xs i (min k n)"
  by (simp add: slice_def min.commute)

lemma slice_all: "slice xs 0 (length xs) = xs"
  by (simp add: slice_def)

lemma slice_truncate: "length xs \<le> i + n \<Longrightarrow> slice xs i n = drop i xs"
  by (simp add: slice_def)

lemma i64_wrap_high:
  assumes "9223372036854775808 \<le> x" "x < 27670116110564327424"
  shows "i64 x = x - 18446744073709551616"
proof -
  have "(x + 9223372036854775808) mod 18446744073709551616 =
      (x + 9223372036854775808 - 18446744073709551616) mod 18446744073709551616"
    by (simp only: minus_mod_self2)
  also have "\<dots> = x + 9223372036854775808 - 18446744073709551616"
    using assms by (intro mod_pos_pos_trivial) auto
  finally show ?thesis by (simp add: i64_def)
qed

lemma i64_wrap_low:
  assumes "- 27670116110564327424 \<le> x" "x < - 9223372036854775808"
  shows "i64 x = x + 18446744073709551616"
proof -
  have "(x + 9223372036854775808) mod 18446744073709551616 =
      (x + 9223372036854775808 + 18446744073709551616) mod 18446744073709551616"
    by (simp only: mod_add_self2)
  also have "\<dots> = x + 9223372036854775808 + 18446744073709551616"
    using assms by (intro mod_pos_pos_trivial) auto
  finally show ?thesis by (simp add: i64_def)
qed

lemma take_append_drop_length: "take k bs @ drop (length (take k bs)) bs = bs"
  by (cases "k \<le> length bs") auto

end
