(* ===== verification/Go_Std.thy ===== *)
theory Go_Std
  imports Tavern_Prelude
begin

text \<open>
  The parts of Go's standard library the program calls, as the functions compute them:
  \<^verbatim>\<open>strings\<close> (HasPrefix, TrimPrefix, Index, IndexByte, Contains, Split, TrimSpace, ToLower, EqualFold),
  \<^verbatim>\<open>strconv\<close> (ParseInt, ParseUint, Atoi, FormatInt), \<^verbatim>\<open>fmt.Sscanf\<close> with \<^verbatim>\<open>%d\<close>,
  \<^verbatim>\<open>sort.Search\<close> and \<^verbatim>\<open>slices.SortFunc\<close>.  Strings are byte strings, as in Go.
\<close>

named_theorems go_str \<open>evaluation of the string functions\<close>

subsection \<open>Package strings\<close>

definition HasPrefix :: "string \<Rightarrow> string \<Rightarrow> bool" where
  "HasPrefix s p \<longleftrightarrow> take (length p) s = p"

definition HasSuffix :: "string \<Rightarrow> string \<Rightarrow> bool" where
  "HasSuffix s p \<longleftrightarrow> length p \<le> length s \<and> drop (length s - length p) s = p"

definition TrimPrefix :: "string \<Rightarrow> string \<Rightarrow> string" where
  "TrimPrefix s p = (if HasPrefix s p then drop (length p) s else s)"

text \<open>\<^verbatim>\<open>IndexByte\<close>: the first position of a byte, \<open>None\<close> for Go's \<open>-1\<close>.\<close>

fun IndexByte :: "string \<Rightarrow> char \<Rightarrow> nat option" where
  "IndexByte [] c = None"
| "IndexByte (x # xs) c = (if x = c then Some 0 else map_option Suc (IndexByte xs c))"

text \<open>\<^verbatim>\<open>Split(s, sep)\<close> for a separator of one byte: always at least one part.\<close>

fun Split :: "string \<Rightarrow> char \<Rightarrow> string list" where
  "Split [] c = [[]]"
| "Split (x # xs) c =
     (if x = c then [] # Split xs c
      else (case Split xs c of [] \<Rightarrow> [[x]] | p # ps \<Rightarrow> (x # p) # ps))"

fun Join :: "string list \<Rightarrow> string \<Rightarrow> string" where
  "Join [] sep = []"
| "Join [x] sep = x"
| "Join (x # xs) sep = x @ sep @ Join xs sep"

text \<open>
  \<^verbatim>\<open>TrimSpace\<close> removes leading and trailing white space as Unicode defines it, here as the
  UTF-8 encodings of the code points of \<^verbatim>\<open>unicode.IsSpace\<close>.
\<close>

definition ch :: "nat \<Rightarrow> char" where
  "ch n = char_of n"

definition space_seqs :: "string list" where
  "space_seqs = [[ch 9], [ch 10], [ch 11], [ch 12], [ch 13], [ch 32],
     [ch 194, ch 133], [ch 194, ch 160], [ch 225, ch 154, ch 128],
     [ch 226, ch 128, ch 128], [ch 226, ch 128, ch 129], [ch 226, ch 128, ch 130],
     [ch 226, ch 128, ch 131], [ch 226, ch 128, ch 132], [ch 226, ch 128, ch 133],
     [ch 226, ch 128, ch 134], [ch 226, ch 128, ch 135], [ch 226, ch 128, ch 136],
     [ch 226, ch 128, ch 137], [ch 226, ch 128, ch 138], [ch 226, ch 128, ch 168],
     [ch 226, ch 128, ch 169], [ch 226, ch 128, ch 175], [ch 226, ch 129, ch 159],
     [ch 227, ch 128, ch 128]]"

lemma space_seqs_nonempty: "p \<in> set space_seqs \<Longrightarrow> p \<noteq> []"
  by (auto simp: space_seqs_def)

definition space_prefix :: "string list \<Rightarrow> string \<Rightarrow> nat" where
  "space_prefix ps s = (case filter (HasPrefix s) ps of [] \<Rightarrow> 0 | p # _ \<Rightarrow> length p)"

lemma space_prefix_le: "space_prefix ps s \<le> length s"
proof (cases "filter (HasPrefix s) ps")
  case Nil
  then show ?thesis by (simp add: space_prefix_def)
next
  case (Cons p qs)
  then have "p \<in> set (filter (HasPrefix s) ps)" by simp
  then have "HasPrefix s p" by simp
  then have "length p \<le> length s"
    unfolding HasPrefix_def by (metis length_take min.cobounded1)
  with Cons show ?thesis by (simp add: space_prefix_def)
qed

function trim_left :: "string list \<Rightarrow> string \<Rightarrow> string" where
  "trim_left ps s =
     (let n = space_prefix ps s in if n = 0 then s else trim_left ps (drop n s))"
  by pat_completeness auto
termination
proof (relation "measure (\<lambda>(ps, s). length s)", goal_cases)
  case (2 ps s n)
  then have "0 < n" and "n \<le> length s" using space_prefix_le by auto
  then show ?case by simp
qed simp

declare trim_left.simps [simp del]

definition TrimSpace :: "string \<Rightarrow> string" where
  "TrimSpace s = rev (trim_left (map rev space_seqs) (rev (trim_left space_seqs s)))"

definition to_lower :: "char \<Rightarrow> char" where
  "to_lower c = (let n = of_char c in if 65 \<le> n \<and> n \<le> (90::nat) then char_of (n + 32) else c)"

definition to_upper :: "char \<Rightarrow> char" where
  "to_upper c = (let n = of_char c in if 97 \<le> n \<and> n \<le> (122::nat) then char_of (n - 32) else c)"

text \<open>\<^verbatim>\<open>ToLower\<close> on ASCII input, which is what HTTP field names and tokens are.\<close>

definition ToLower :: "string \<Rightarrow> string" where
  "ToLower s = map to_lower s"

definition EqualFold :: "string \<Rightarrow> string \<Rightarrow> bool" where
  "EqualFold s t \<longleftrightarrow> ToLower s = ToLower t"

subsection \<open>Package strconv\<close>

datatype num_error = ErrSyntax | ErrRange

definition digit_of :: "char \<Rightarrow> nat option" where
  "digit_of c = (let n = of_char c in if 48 \<le> n \<and> n \<le> (57::nat) then Some (n - 48) else None)"

text \<open>
  The loop of \<^verbatim>\<open>ParseUint\<close> in base 10 with 64 bits: it stops at the first byte that is no digit
  and at the first digit that takes the value past \<^verbatim>\<open>MaxUint64\<close>, whichever comes first.
\<close>

fun parse_digits :: "int \<Rightarrow> string \<Rightarrow> int \<times> num_error option" where
  "parse_digits n [] = (n, None)"
| "parse_digits n (c # cs) =
     (case digit_of c of
        None \<Rightarrow> (0, Some ErrSyntax)
      | Some d \<Rightarrow>
          (let n1 = n * 10 + int d in
           if 18446744073709551616 \<le> n1 then (18446744073709551615, Some ErrRange)
           else parse_digits n1 cs))"

definition ParseUint :: "string \<Rightarrow> int \<times> num_error option" where
  "ParseUint s = (if s = [] then (0, Some ErrSyntax) else parse_digits 0 s)"

definition ParseInt :: "string \<Rightarrow> int \<times> num_error option" where
  "ParseInt s =
     (if s = [] then (0, Some ErrSyntax) else
      (let neg = (hd s = CHR ''-'');
           s' = (if hd s = CHR ''+'' \<or> hd s = CHR ''-'' then tl s else s);
           (un, err) = ParseUint s'
       in if err = Some ErrSyntax then (0, err)
          else if \<not> neg \<and> 9223372036854775808 \<le> un then (9223372036854775807, Some ErrRange)
          else if neg \<and> 9223372036854775808 < un then (- 9223372036854775808, Some ErrRange)
          else if neg then (- un, None) else (un, None)))"

text \<open>\<^verbatim>\<open>Atoi\<close> is \<^verbatim>\<open>ParseInt(s, 10, 0)\<close> with a 64-bit \<^verbatim>\<open>int\<close>.\<close>

definition Atoi :: "string \<Rightarrow> int \<times> num_error option" where
  "Atoi s = ParseInt s"

fun nat_digits :: "nat \<Rightarrow> string" where
  "nat_digits n = (if n < 10 then [char_of (48 + n)] else nat_digits (n div 10) @ [char_of (48 + n mod 10)])"

declare nat_digits.simps [simp del]

text \<open>\<^verbatim>\<open>FormatInt(i, 10)\<close>, \<^verbatim>\<open>Itoa\<close>, and the verb \<^verbatim>\<open>%d\<close> of \<^verbatim>\<open>fmt.Sprintf\<close>.\<close>

definition FormatInt :: "int \<Rightarrow> string" where
  "FormatInt i = (if i < 0 then CHR ''-'' # nat_digits (nat (- i)) else nat_digits (nat i))"

subsection \<open>fmt.Sscanf with the single verb %d\<close>

text \<open>
  Leading white space is skipped; a line feed there is an error.  Then the longest run of
  digits (with an optional sign for a signed target) is read, and what follows is left alone.
\<close>

definition take_digits :: "string \<Rightarrow> string" where
  "take_digits s = takeWhile (\<lambda>c. digit_of c \<noteq> None) s"

function skip_scan_space :: "string \<Rightarrow> string option" where
  "skip_scan_space s =
     (let n = space_prefix space_seqs s in
      if n = 0 then Some s
      else if hd s = ch 10 then None else skip_scan_space (drop n s))"
  by pat_completeness auto
termination
proof (relation "measure length", goal_cases)
  case (2 s n)
  then have "0 < n" and "n \<le> length s" using space_prefix_le by auto
  then show ?case by simp
qed simp

declare skip_scan_space.simps [simp del]

definition Sscanf_int :: "string \<Rightarrow> int option" where
  "Sscanf_int s =
     (case skip_scan_space s of None \<Rightarrow> None
      | Some t \<Rightarrow>
          (let sgn = (if t \<noteq> [] \<and> (hd t = CHR ''+'' \<or> hd t = CHR ''-'') then [hd t] else []);
               ds = take_digits (drop (length sgn) t)
           in if ds = [] then None
              else (case ParseInt (sgn @ ds) of (v, None) \<Rightarrow> Some v | (v, Some e) \<Rightarrow> None)))"

definition Sscanf_uint :: "string \<Rightarrow> int option" where
  "Sscanf_uint s =
     (case skip_scan_space s of None \<Rightarrow> None
      | Some t \<Rightarrow>
          (let ds = take_digits t
           in if ds = [] then None
              else (case ParseUint ds of (v, None) \<Rightarrow> Some v | (v, Some e) \<Rightarrow> None)))"

subsection \<open>Packages sort and slices\<close>

text \<open>
  \<^verbatim>\<open>sort.Search(n, f)\<close>: the binary search over \<open>[0, n)\<close>, with the midpoint \<open>h\<close> and the
  invariant that \<open>f\<close> fails below \<open>i\<close> and holds from \<open>j\<close> on, if \<open>f\<close> is monotone.
\<close>

function search_loop :: "(nat \<Rightarrow> bool) \<Rightarrow> nat \<Rightarrow> nat \<Rightarrow> nat" where
  "search_loop f i j =
     (if i < j then
        (let h = (i + j) div 2 in if \<not> f h then search_loop f (h + 1) j else search_loop f i h)
      else i)"
  by pat_completeness auto
termination
  by (relation "measure (\<lambda>(f, i, j). j - i)") auto

declare search_loop.simps [simp del]

definition sort_Search :: "nat \<Rightarrow> (nat \<Rightarrow> bool) \<Rightarrow> nat" where
  "sort_Search n f = search_loop f 0 n"

text \<open>
  \<^verbatim>\<open>slices.SortFunc\<close> on up to twelve elements is this insertion sort: an element moves left
  while the comparison with its left neighbour is negative.  On longer slices it is a
  pattern-defeating quicksort, which agrees with it whenever the comparison is a strict weak
  order without ties, and also leaves a slice alone on which no comparison is negative.
\<close>

fun sift :: "('a \<Rightarrow> 'a \<Rightarrow> int) \<Rightarrow> 'a \<Rightarrow> 'a list \<Rightarrow> 'a list" where
  "sift cmp x [] = [x]"
| "sift cmp x (y # ys) = (if cmp x y < 0 then y # sift cmp x ys else x # y # ys)"

definition SortFunc :: "('a \<Rightarrow> 'a \<Rightarrow> int) \<Rightarrow> 'a list \<Rightarrow> 'a list" where
  "SortFunc cmp xs = rev (fold (sift cmp) xs [])"

subsection \<open>Facts about the string functions\<close>

text \<open>A printing character other than the space: it neither starts nor ends white space.\<close>

definition plain :: "char \<Rightarrow> bool" where
  "plain c \<longleftrightarrow> 33 \<le> (of_char c :: nat) \<and> (of_char c :: nat) \<le> 126"

lemma HasPrefix_append [simp]: "HasPrefix (p @ s) p"
  by (simp add: HasPrefix_def)

lemma HasPrefix_Cons [simp]: "HasPrefix (x # s) (y # p) \<longleftrightarrow> x = y \<and> HasPrefix s p"
  by (simp add: HasPrefix_def)

lemma HasPrefix_Nil [simp]: "HasPrefix s []" "HasPrefix [] p \<longleftrightarrow> p = []"
  by (auto simp: HasPrefix_def)

lemma TrimPrefix_append [simp]: "TrimPrefix (p @ s) p = s"
  by (simp add: TrimPrefix_def)

lemma IndexByte_None [simp]: "IndexByte s c = None \<longleftrightarrow> c \<notin> set s"
  by (induction s) auto

lemma IndexByte_append: "c \<notin> set a \<Longrightarrow> IndexByte (a @ c # r) c = Some (length a)"
  by (induction a) auto

lemma IndexByte_Some: "IndexByte s c = Some i \<Longrightarrow> i < length s \<and> s ! i = c \<and> c \<notin> set (take i s)"
  by (induction s arbitrary: i) (auto split: if_splits)

lemma Split_nonempty [simp]: "Split s c \<noteq> []"
  by (induction s) (auto split: list.splits)

lemma Split_none: "c \<notin> set s \<Longrightarrow> Split s c = [s]"
  by (induction s) auto

lemma Split_append: "c \<notin> set a \<Longrightarrow> Split (a @ c # r) c = a # Split r c"
  by (induction a) auto

lemma Split_length: "length (Split s c) = Suc (count_list s c)"
  by (induction s) (auto split: list.splits)

lemma Split_parts: "p \<in> set (Split s c) \<Longrightarrow> c \<notin> set p"
  by (induction s arbitrary: p) (auto split: list.splits if_splits)

lemma Split_Join:
  "ks \<noteq> [] \<Longrightarrow> \<forall>k\<in>set ks. c \<notin> set k \<Longrightarrow> Split (Join ks [c]) c = ks"
  by (induction ks rule: induct_list012) (auto simp: Split_none Split_append)

lemma space_prefix_plain:
  assumes "s \<noteq> []" "plain (hd s)" "\<forall>p\<in>set ps. p \<noteq> [] \<and> \<not> plain (hd p)"
  shows "space_prefix ps s = 0"
proof -
  have "\<not> HasPrefix s p" if "p \<in> set ps" for p
  proof -
    have "p \<noteq> []" "\<not> plain (hd p)" using that assms(3) by auto
    with assms(1,2) show ?thesis by (cases s; cases p) auto
  qed
  then have "filter (HasPrefix s) ps = []" by (simp add: filter_empty_conv)
  then show ?thesis by (simp add: space_prefix_def)
qed

lemma space_seqs_not_plain:
  "\<forall>p\<in>set space_seqs. p \<noteq> [] \<and> \<not> plain (hd p)"
  "\<forall>p\<in>set (map rev space_seqs). p \<noteq> [] \<and> \<not> plain (hd p)"
  by (simp_all add: space_seqs_def plain_def ch_def)

lemma trim_left_plain:
  assumes "s = [] \<or> plain (hd s)" "\<forall>p\<in>set ps. p \<noteq> [] \<and> \<not> plain (hd p)"
  shows "trim_left ps s = s"
proof (cases "s = []")
  case True
  have "filter (HasPrefix []) ps = []"
    using assms(2) by (auto simp: filter_empty_conv)
  then show ?thesis using True by (simp add: trim_left.simps space_prefix_def)
next
  case False
  then show ?thesis using assms space_prefix_plain [of s ps] by (simp add: trim_left.simps)
qed

lemma TrimSpace_plain:
  assumes "s = [] \<or> plain (hd s) \<and> plain (last s)"
  shows "TrimSpace s = s"
proof -
  have "trim_left space_seqs s = s"
    using assms space_seqs_not_plain(1) by (intro trim_left_plain) auto
  moreover have "trim_left (map rev space_seqs) (rev s) = rev s"
    using assms space_seqs_not_plain(2) by (intro trim_left_plain) (auto simp: hd_rev)
  ultimately show ?thesis by (simp add: TrimSpace_def)
qed

subsection \<open>Printing and reading numbers\<close>

lemma digit_of_char [simp]: "n < 10 \<Longrightarrow> digit_of (char_of (48 + n)) = Some n"
  by (simp add: digit_of_def of_char_of)

lemma digit_plain: "digit_of c = Some d \<Longrightarrow> plain c \<and> d < 10"
  by (auto simp: digit_of_def plain_def Let_def split: if_splits)

lemma digit_of_signs [simp]:
  "digit_of CHR ''-'' = None" "digit_of CHR ''+'' = None" "digit_of CHR '','' = None"
  "digit_of CHR ''/'' = None" "digit_of CHR '' '' = None" "digit_of CHR ''='' = None"
  "digit_of CHR ''*'' = None"
  by (simp_all add: digit_of_def)

lemma parse_digits_append:
  assumes "parse_digits n xs = (m, None)"
  shows "parse_digits n (xs @ ys) = parse_digits m ys"
  using assms by (induction n xs rule: parse_digits.induct) (auto simp: Let_def split: option.splits if_splits)

lemma nat_digits_nonempty [simp]: "nat_digits n \<noteq> []"
  by (subst nat_digits.simps) simp

lemma nat_digits_digits: "c \<in> set (nat_digits n) \<Longrightarrow> digit_of c \<noteq> None"
proof (induction n rule: nat_digits.induct)
  case (1 n)
  then show ?case
    by (subst (asm) nat_digits.simps) (auto split: if_splits)
qed

lemma parse_nat_digits:
  "n < 18446744073709551616 \<Longrightarrow> parse_digits 0 (nat_digits n) = (int n, None)"
proof (induction n rule: nat_digits.induct)
  case (1 n)
  show ?case
  proof (cases "n < 10")
    case True
    then show ?thesis by (subst nat_digits.simps) (simp add: Let_def)
  next
    case False
    then have "parse_digits 0 (nat_digits (n div 10)) = (int (n div 10), None)"
      using 1 by simp
    moreover have "nat_digits n = nat_digits (n div 10) @ [char_of (48 + n mod 10)]"
      using False by (subst nat_digits.simps) simp
    moreover have "int (n div 10) * 10 + int (n mod 10) = int n"
      by (metis of_nat_add of_nat_mult of_nat_numeral div_mult_mod_eq)
    ultimately show ?thesis
      using 1(2) by (simp add: parse_digits_append Let_def)
  qed
qed

lemma ParseUint_nat_digits:
  "n < 18446744073709551616 \<Longrightarrow> ParseUint (nat_digits n) = (int n, None)"
  by (simp add: ParseUint_def parse_nat_digits)

lemma hd_nat_digits: "digit_of (hd (nat_digits n)) \<noteq> None"
  using nat_digits_digits [of "hd (nat_digits n)" n] by simp

lemma nat_digits_not_sign: "hd (nat_digits n) \<noteq> CHR ''-''" "hd (nat_digits n) \<noteq> CHR ''+''"
  using hd_nat_digits [of n] by auto

lemma ParseInt_FormatInt:
  assumes "is_i64 i"
  shows "ParseInt (FormatInt i) = (i, None)"
  using assms nat_digits_not_sign
  by (auto simp: ParseInt_def FormatInt_def ParseUint_nat_digits is_i64_def)

lemma FormatInt_nonempty [simp]: "FormatInt i \<noteq> []"
  by (simp add: FormatInt_def)

lemma FormatInt_nonneg_digits: "0 \<le> i \<Longrightarrow> c \<in> set (FormatInt i) \<Longrightarrow> digit_of c \<noteq> None"
  using nat_digits_digits by (auto simp: FormatInt_def)

lemma FormatInt_nonneg_notin:
  assumes "0 \<le> i" "digit_of c = None"
  shows "c \<notin> set (FormatInt i)"
  using FormatInt_nonneg_digits [OF assms(1)] assms(2) by fastforce

lemma FormatInt_plain: "0 \<le> i \<Longrightarrow> plain (hd (FormatInt i)) \<and> plain (last (FormatInt i))"
  using FormatInt_nonneg_digits [of i "hd (FormatInt i)"]
    FormatInt_nonneg_digits [of i "last (FormatInt i)"] digit_plain by fastforce

lemma ParseInt_Nil [simp]: "ParseInt [] = (0, Some ErrSyntax)"
  by (simp add: ParseInt_def)

lemma parse_digits_range:
  assumes "parse_digits n s = (v, e)" "0 \<le> n" "n < 18446744073709551616"
  shows "0 \<le> v \<and> v < 18446744073709551616"
  using assms
  by (induction n s rule: parse_digits.induct) (auto simp: Let_def split: option.splits if_splits)

lemma ParseUint_range: "ParseUint s = (v, e) \<Longrightarrow> is_u64 v"
  using parse_digits_range [of 0 s v e] by (auto simp: ParseUint_def is_u64_def split: if_splits)

lemma ParseInt_range: "ParseInt s = (v, e) \<Longrightarrow> is_i64 v"
  using ParseUint_range [of s] ParseUint_range [of "tl s"]
  by (auto simp: ParseInt_def is_i64_def is_u64_def Let_def split: if_splits prod.splits)

lemma takeWhile_prefix:
  assumes "list_all P xs" "ys = [] \<or> \<not> P (hd ys)"
  shows "takeWhile P (xs @ ys) = xs"
  using assms by (induction xs) (cases ys; auto)+

lemma skip_scan_space_plain: "s \<noteq> [] \<Longrightarrow> plain (hd s) \<Longrightarrow> skip_scan_space s = Some s"
  using space_prefix_plain [OF _ _ space_seqs_not_plain(1)] by (simp add: skip_scan_space.simps)

lemma take_digits_FormatInt:
  assumes "0 \<le> i" "r = [] \<or> digit_of (hd r) = None"
  shows "take_digits (FormatInt i @ r) = FormatInt i"
  unfolding take_digits_def using assms FormatInt_nonneg_digits [OF assms(1)]
  by (intro takeWhile_prefix) (auto simp: list_all_iff)

lemma ParseUint_FormatInt: "is_u64 i \<Longrightarrow> ParseUint (FormatInt i) = (i, None)"
  by (auto simp: FormatInt_def is_u64_def ParseUint_nat_digits)

lemma Sscanf_uint_FormatInt: "is_u64 i \<Longrightarrow> Sscanf_uint (FormatInt i) = Some i"
  using take_digits_FormatInt [of i "[]"] FormatInt_plain [of i]
  by (simp add: Sscanf_uint_def skip_scan_space_plain ParseUint_FormatInt is_u64_def)

lemma Sscanf_int_FormatInt:
  assumes "0 \<le> i" "is_i64 i"
  shows "Sscanf_int (FormatInt i) = Some i"
proof -
  have "digit_of (hd (FormatInt i)) \<noteq> None"
    using FormatInt_nonneg_digits [OF assms(1), of "hd (FormatInt i)"] by simp
  then have "hd (FormatInt i) \<noteq> CHR ''+''" "hd (FormatInt i) \<noteq> CHR ''-''" by auto
  then show ?thesis
    using take_digits_FormatInt [of i "[]"] FormatInt_plain [of i] assms
    by (simp add: Sscanf_int_def skip_scan_space_plain ParseInt_FormatInt)
qed

subsection \<open>Searching and sorting\<close>

lemma search_loop_step:
  "i < j \<Longrightarrow> search_loop f i j =
     (if f ((i + j) div 2) then search_loop f i ((i + j) div 2) else search_loop f ((i + j) div 2 + 1) j)"
  "\<not> i < j \<Longrightarrow> search_loop f i j = i"
  by (simp_all add: search_loop.simps [of f i j])

lemma search_loop_bounds: "i \<le> j \<Longrightarrow> i \<le> search_loop f i j \<and> search_loop f i j \<le> j"
proof (induction f i j rule: search_loop.induct)
  case (1 f i j)
  define h where "h = (i + j) div 2"
  show ?case
  proof (cases "i < j")
    case True
    then have h: "i \<le> h" "h < j" by (auto simp: h_def)
    show ?thesis
    proof (cases "f h")
      case f: True
      with True have "search_loop f i j = search_loop f i h"
        unfolding h_def by (subst search_loop_step(1)) simp_all
      moreover have "i \<le> search_loop f i h \<and> search_loop f i h \<le> h"
        using 1(2) [OF True h_def] f h by blast
      ultimately show ?thesis using h by linarith
    next
      case f: False
      with True have "search_loop f i j = search_loop f (h + 1) j"
        unfolding h_def by (subst search_loop_step(1)) simp_all
      moreover have "h + 1 \<le> search_loop f (h + 1) j \<and> search_loop f (h + 1) j \<le> j"
        using 1(1) [OF True h_def] f h by simp
      ultimately show ?thesis using h by linarith
    qed
  next
    case False
    with 1(3) show ?thesis by (simp add: search_loop_step(2))
  qed
qed

text \<open>Whatever \<open>f\<close> is, an answer inside the range satisfies it, and one above zero fails just below.\<close>

lemma search_loop_boundary:
  "(j < n \<longrightarrow> f j) \<Longrightarrow> (0 < i \<longrightarrow> \<not> f (i - 1)) \<Longrightarrow> i \<le> j \<Longrightarrow>
   (search_loop f i j < n \<longrightarrow> f (search_loop f i j)) \<and>
   (0 < search_loop f i j \<longrightarrow> \<not> f (search_loop f i j - 1))"
proof (induction f i j rule: search_loop.induct)
  case (1 f i j)
  define h where "h = (i + j) div 2"
  show ?case
  proof (cases "i < j")
    case True
    then have h: "i \<le> h" "h + 1 \<le> j" by (auto simp: h_def)
    show ?thesis
    proof (cases "f h")
      case f: True
      with True have "search_loop f i j = search_loop f i h"
        unfolding h_def by (subst search_loop_step(1)) simp_all
      then show ?thesis using 1(2) [OF True h_def] 1(4) f h(1) by auto
    next
      case f: False
      with True have "search_loop f i j = search_loop f (h + 1) j"
        unfolding h_def by (subst search_loop_step(1)) simp_all
      then show ?thesis using 1(1) [OF True h_def] 1(3) f h(2) by auto
    qed
  next
    case False
    with 1(3-5) show ?thesis by (simp add: search_loop_step(2))
  qed
qed

lemma sort_Search_le: "sort_Search n f \<le> n"
  using search_loop_bounds [of 0 n f] by (simp add: sort_Search_def)

lemma sort_Search_hit: "sort_Search n f < n \<Longrightarrow> f (sort_Search n f)"
  using search_loop_boundary [where i = 0 and j = n and n = n and f = f] by (simp add: sort_Search_def)

lemma sort_Search_below: "0 < sort_Search n f \<Longrightarrow> \<not> f (sort_Search n f - 1)"
  using search_loop_boundary [where i = 0 and j = n and n = n and f = f] by (simp add: sort_Search_def)

lemma sort_Search_least:
  assumes mono: "\<And>i j. i \<le> j \<Longrightarrow> j < n \<Longrightarrow> f i \<Longrightarrow> f j" and "i < sort_Search n f"
  shows "\<not> f i"
proof
  assume "f i"
  have "i \<le> sort_Search n f - 1" "sort_Search n f - 1 < n"
    using assms(2) sort_Search_le [of n f] by auto
  then have "f (sort_Search n f - 1)" using \<open>f i\<close> by (rule mono)
  with sort_Search_below [of n f] assms(2) show False by simp
qed

lemma sift_never_negative: "\<forall>y. \<not> cmp x y < 0 \<Longrightarrow> sift cmp x ys = x # ys"
  by (cases ys) auto

lemma SortFunc_never_negative:
  assumes "\<And>x y. \<not> cmp x y < 0"
  shows "SortFunc cmp xs = xs"
proof -
  have "fold (sift cmp) xs acc = rev xs @ acc" for acc
    using assms by (induction xs arbitrary: acc) (simp_all add: sift_never_negative)
  then show ?thesis by (simp add: SortFunc_def)
qed

lemma set_sift [simp]: "set (sift cmp x ys) = insert x (set ys)"
  by (induction ys) auto

lemma set_SortFunc [simp]: "set (SortFunc cmp xs) = set xs"
proof -
  have "set (fold (sift cmp) xs acc) = set xs \<union> set acc" for acc
    by (induction xs arbitrary: acc) auto
  then show ?thesis by (simp add: SortFunc_def)
qed

end
