(* ===== verification/Http_Header.thy ===== *)
theory Http_Header
  imports Go_Std "HOL-Library.AList"
begin

text \<open>
  Header fields: \<^verbatim>\<open>net/http.Header\<close> as an association list with the operations the program uses,
  and the helpers of \<^verbatim>\<open>pkg/x/http/header.go\<close> and \<^verbatim>\<open>pkg/x/http/request.go\<close>.  Go's map iteration
  order is the order of the list; the functional theorems show where it does not matter.
\<close>

named_theorems hdr \<open>lookup after each header operation\<close>

type_synonym header = "(string \<times> string list) list"

subsection \<open>net/http.Header\<close>

text \<open>
  \<^verbatim>\<open>textproto.CanonicalMIMEHeaderKey\<close>: a name with a byte that is no token character is left
  alone; otherwise the first letter and every letter after a hyphen become upper case and the
  others lower case.
\<close>

definition token_byte :: "char \<Rightarrow> bool" where
  "token_byte c = (let n = (of_char c :: nat) in
     48 \<le> n \<and> n \<le> 57 \<or> 65 \<le> n \<and> n \<le> 90 \<or> 97 \<le> n \<and> n \<le> 122 \<or>
     n \<in> {33, 35, 36, 37, 38, 39, 42, 43, 45, 46, 94, 95, 96, 124, 126})"

fun canon_go :: "bool \<Rightarrow> string \<Rightarrow> string" where
  "canon_go upper [] = []"
| "canon_go upper (c # cs) = (if upper then to_upper c else to_lower c) # canon_go (c = CHR ''-'') cs"

definition CanonicalMIMEHeaderKey :: "string \<Rightarrow> string" where
  "CanonicalMIMEHeaderKey s = (if list_all token_byte s then canon_go True s else s)"

definition header_values :: "header \<Rightarrow> string \<Rightarrow> string list" where
  "header_values h k = (case map_of h k of None \<Rightarrow> [] | Some vs \<Rightarrow> vs)"

definition Values :: "header \<Rightarrow> string \<Rightarrow> string list" where
  "Values h k = header_values h (CanonicalMIMEHeaderKey k)"

definition Get :: "header \<Rightarrow> string \<Rightarrow> string" where
  "Get h k = (case Values h k of [] \<Rightarrow> [] | v # _ \<Rightarrow> v)"

definition SetH :: "header \<Rightarrow> string \<Rightarrow> string \<Rightarrow> header" where
  "SetH h k v = AList.update (CanonicalMIMEHeaderKey k) [v] h"

definition AddH :: "header \<Rightarrow> string \<Rightarrow> string \<Rightarrow> header" where
  "AddH h k v = AList.update (CanonicalMIMEHeaderKey k) (Values h k @ [v]) h"

definition Del :: "header \<Rightarrow> string \<Rightarrow> header" where
  "Del h k = AList.delete (CanonicalMIMEHeaderKey k) h"

subsection \<open>header.go\<close>

definition copy_field :: "header \<Rightarrow> string \<times> string list \<Rightarrow> header" where
  "copy_field dst kv = (case kv of (k, vv) \<Rightarrow>
     fold (\<lambda>v d. AddH d k v) vv (AList.update k [] dst))"

definition CopyHeader :: "header \<Rightarrow> header \<Rightarrow> header" where
  "CopyHeader dst src = fold (\<lambda>kv d. copy_field d kv) src dst"

definition CopyHeadersWithout :: "header \<Rightarrow> header \<Rightarrow> string list \<Rightarrow> header" where
  "CopyHeadersWithout dst src excludeKeys =
     (let excludeMap = set (map CanonicalMIMEHeaderKey excludeKeys) in
      fold (\<lambda>kv d. if CanonicalMIMEHeaderKey (fst kv) \<in> excludeMap then d else copy_field d kv) src dst)"

definition TrailerPrefix :: string where
  "TrailerPrefix = ''Trailer:''"

definition CopyTrailer :: "header \<Rightarrow> header \<Rightarrow> header" where
  "CopyTrailer dst src = fold (\<lambda>(k, v) d. AList.update (TrailerPrefix @ k) v d) src dst"

definition hopHeaders :: "string list" where
  "hopHeaders = [''Connection'', ''Proxy-Connection'', ''Keep-Alive'', ''Proxy-Authenticate'',
     ''Proxy-Authorization'', ''Te'', ''Trailer'', ''Transfer-Encoding'', ''Upgrade'']"

text \<open>\<^verbatim>\<open>textproto.TrimString\<close> trims the four ASCII blanks only.\<close>

definition ascii_space :: "char \<Rightarrow> bool" where
  "ascii_space c \<longleftrightarrow> c \<in> {ch 32, ch 9, ch 10, ch 13}"

definition TrimString :: "string \<Rightarrow> string" where
  "TrimString s = rev (dropWhile ascii_space (rev (dropWhile ascii_space s)))"

definition connection_tokens :: "header \<Rightarrow> string list" where
  "connection_tokens h =
     filter (\<lambda>s. s \<noteq> []) (concat (map (\<lambda>f. map TrimString (Split f CHR '',''))
       (header_values h ''Connection'')))"

definition RemoveHopByHopHeaders :: "header \<Rightarrow> header" where
  "RemoveHopByHopHeaders h =
     fold (\<lambda>f d. Del d f) hopHeaders (fold (\<lambda>sf d. Del d sf) (connection_tokens h) h)"

definition IsChunked :: "header \<Rightarrow> bool" where
  "IsChunked h \<longleftrightarrow> Get h ''Transfer-Encoding'' = ''chunked'' \<or> Get h ''Content-Length'' = []"

subsection \<open>request.go\<close>

definition ClientIP :: "string \<Rightarrow> header \<Rightarrow> string" where
  "ClientIP remoteAddr h =
     (let addr = Get h ''Client-Ip'';
          addr = (if addr = [] then Get h ''X-Real-IP'' else addr);
          addr = (if addr = [] then Get h ''X-Forwarded-For'' else addr)
      in if addr = [] then remoteAddr else addr)"

definition Scheme :: "bool \<Rightarrow> header \<Rightarrow> string" where
  "Scheme tls h =
     (if tls then ''https''
      else if Get h ''X-Forwarded-Proto'' \<noteq> [] then Get h ''X-Forwarded-Proto''
      else if Get h ''X-Forwarded-Protocol'' \<noteq> [] then Get h ''X-Forwarded-Protocol''
      else if Get h ''X-Url-Scheme'' \<noteq> [] then Get h ''X-Url-Scheme''
      else if Get h ''X-Forwarded-Ssl'' = ''on'' then ''https''
      else ''http'')"

subsection \<open>Lookup after each operation\<close>

lemma map_of_SetH [hdr]: "map_of (SetH h k v) = (map_of h)(CanonicalMIMEHeaderKey k \<mapsto> [v])"
  by (simp add: SetH_def update_conv')

lemma map_of_AddH [hdr]:
  "map_of (AddH h k v) = (map_of h)(CanonicalMIMEHeaderKey k \<mapsto> Values h k @ [v])"
  by (simp add: AddH_def update_conv')

lemma map_of_Del [hdr]: "map_of (Del h k) = (map_of h)(CanonicalMIMEHeaderKey k := None)"
  by (simp add: Del_def delete_conv')

lemma Values_SetH [hdr]:
  "Values (SetH h k v) k' =
     (if CanonicalMIMEHeaderKey k' = CanonicalMIMEHeaderKey k then [v] else Values h k')"
  by (simp add: Values_def header_values_def hdr)

lemma Get_SetH [hdr]:
  "Get (SetH h k v) k' =
     (if CanonicalMIMEHeaderKey k' = CanonicalMIMEHeaderKey k then v else Get h k')"
  by (simp add: Get_def hdr)

lemma Get_Del [hdr]:
  "Get (Del h k) k' =
     (if CanonicalMIMEHeaderKey k' = CanonicalMIMEHeaderKey k then [] else Get h k')"
  by (simp add: Get_def Values_def header_values_def hdr)

lemma Get_Nil [hdr]: "Get [] k = []"
  by (simp add: Get_def Values_def header_values_def)

lemma map_of_fold_Del:
  "map_of (fold (\<lambda>f d. Del d f) ks h) k =
     (if k \<in> CanonicalMIMEHeaderKey ` set ks then None else map_of h k)"
  by (induction ks arbitrary: h) (auto simp: hdr)

text \<open>A header whose names are canonical and listed once, as the HTTP server and client build it.\<close>

definition canonical_header :: "header \<Rightarrow> bool" where
  "canonical_header h \<longleftrightarrow>
     distinct (map fst h) \<and> list_all (\<lambda>(k, vs). CanonicalMIMEHeaderKey k = k) h"

lemma fold_AddH:
  assumes "CanonicalMIMEHeaderKey k = k"
  shows "map_of (fold (\<lambda>v d. AddH d k v) vv d) =
    (if vv = [] then map_of d else (map_of d)(k \<mapsto> header_values d k @ vv))"
proof (induction vv arbitrary: d)
  case (Cons v vv)
  have "header_values (AddH d k v) k = header_values d k @ [v]"
    by (simp add: header_values_def map_of_AddH Values_def assms)
  then show ?case
    by (auto simp: Cons map_of_AddH assms Values_def fun_eq_iff)
qed simp

lemma map_of_copy_field:
  assumes "CanonicalMIMEHeaderKey k = k"
  shows "map_of (copy_field d (k, vv)) = (map_of d)(k \<mapsto> vv)"
  using fold_AddH [OF assms, of vv "AList.update k [] d"]
  by (auto simp: copy_field_def update_conv' header_values_def)

lemma map_of_CopyHeader:
  assumes "canonical_header src"
  shows "map_of (CopyHeader dst src) = map_of dst ++ map_of src"
  using assms
proof (induction src arbitrary: dst)
  case (Cons kv src)
  obtain k vv where kv: "kv = (k, vv)" by (cases kv)
  have k: "CanonicalMIMEHeaderKey k = k" "k \<notin> fst ` set src" "canonical_header src"
    using Cons.prems kv by (auto simp: canonical_header_def)
  have "map_of (CopyHeader dst (kv # src)) = map_of (copy_field dst kv) ++ map_of src"
    using Cons.IH [OF k(3), of "copy_field dst kv"] by (simp add: CopyHeader_def)
  also have "\<dots> = map_of dst ++ map_of (kv # src)"
  proof -
    have "map_of src k = None" using k(2) by (metis map_of_eq_None_iff)
    then show ?thesis
      by (auto simp: kv map_of_copy_field [OF k(1)] map_add_def fun_eq_iff split: option.splits)
  qed
  finally show ?case .
qed (simp add: CopyHeader_def)

subsection \<open>Properties\<close>


text \<open>\<^verbatim>\<open>CopyHeadersWithout\<close> on canonical source fields overrides the destination with every
  source field that is not excluded, whatever spelling the exclusion list uses, and keeps the
  destination's own value of the excluded ones.\<close>

theorem CopyHeadersWithout_lookup:
  assumes "canonical_header src"
  shows "map_of (CopyHeadersWithout dst src ex) k =
    (if k \<in> CanonicalMIMEHeaderKey ` set ex then map_of dst k
     else case map_of src k of None \<Rightarrow> map_of dst k | Some vs \<Rightarrow> Some vs)"
proof -
  let ?keep = "filter (\<lambda>kv. CanonicalMIMEHeaderKey (fst kv) \<notin> CanonicalMIMEHeaderKey ` set ex) src"
  have fold: "CopyHeadersWithout dst src ex = CopyHeader dst ?keep"
    unfolding CopyHeadersWithout_def CopyHeader_def Let_def
    by (induction src arbitrary: dst) auto
  have keep: "canonical_header ?keep"
    using assms by (auto simp: canonical_header_def list_all_iff distinct_map_filter)
  have "map_of ?keep k = (if k \<in> CanonicalMIMEHeaderKey ` set ex then None else map_of src k)"
    using assms by (induction src) (auto simp: canonical_header_def)
  then show ?thesis
    by (auto simp: fold map_of_CopyHeader [OF keep] map_add_def split: option.splits)
qed

theorem CopyHeadersWithout_lookup_witness:
  "map_of (CopyHeadersWithout [(''Etag'', [''a''])]
      [(''Content-Length'', [''9'']), (''Etag'', [''b''])] [''content-length'']) ''Etag'' = Some [''b'']"
proof -
  have "canonical_header [(''Content-Length'', [''9'']), (''Etag'', [''b''])]" by code_simp
  moreover have "''Etag'' \<notin> CanonicalMIMEHeaderKey ` set [''content-length'']" by code_simp
  ultimately show ?thesis
    by (subst CopyHeadersWithout_lookup) simp_all
qed

end
