(* ===== verification/Range_Parse.thy ===== *)
theory Range_Parse
  imports Http_Header
begin

text \<open>
  \<^verbatim>\<open>pkg/x/http/range.go\<close>: the \<^verbatim>\<open>Range\<close> and \<^verbatim>\<open>Content-Range\<close> headers.  \<open>None\<close> is a run-time panic
  (an index out of range); the sum type holds the errors of the package.  Sizes are
  \<^verbatim>\<open>uint64\<close>, positions \<^verbatim>\<open>int64\<close> with wrap-around.
\<close>

datatype range_err =
    ErrContentRangeInvalidFormat | ErrContentRangeInvalidStartValue
  | ErrContentRangeInvalidEndValue | ErrContentRangeInvalidTotalValue
  | ErrRangeHeaderNotFound | ErrRangeHeaderInvalidFormat

record http_range =
  Start :: int
  End :: int

abbreviation mk_range :: "int \<Rightarrow> int \<Rightarrow> http_range" where
  "mk_range s e \<equiv> \<lparr>Start = s, End = e\<rparr>"

record content_range =
  cr_Start :: int
  cr_Length :: int
  cr_ObjSize :: int

definition Range_Length :: "http_range \<Rightarrow> int" where
  "Range_Length r = i64 (End r - Start r + 1)"

definition sprintf_range :: "int \<Rightarrow> int \<Rightarrow> int \<Rightarrow> string" where
  "sprintf_range a b t = ''bytes '' @ FormatInt a @ ''-'' @ FormatInt b @ ''/'' @ FormatInt t"

definition Range_ContentRange :: "http_range \<Rightarrow> int \<Rightarrow> string" where
  "Range_ContentRange r sz =
     (if End r \<le> 0 \<and> 0 < Start r then sprintf_range (Start r) (u64 (sz - 1)) sz
      else (let e = (if i64 sz \<le> End r then i64 (i64 sz - 1) else End r)
            in sprintf_range (Start r) e sz))"

definition RangeLength :: "http_range \<Rightarrow> int \<Rightarrow> int" where
  "RangeLength r totalSize =
     (if End r \<le> 0 \<and> 0 < Start r then i64 (totalSize - Start r)
      else i64 (End r - Start r + 1))"

definition Range_MimeHeader :: "http_range \<Rightarrow> string \<Rightarrow> int \<Rightarrow> header" where
  "Range_MimeHeader r contentType sz =
     [(''Content-Range'', [Range_ContentRange r sz]), (''Content-Type'', [contentType])]"

definition Range_String :: "http_range \<Rightarrow> string" where
  "Range_String r =
     (if End r \<le> 0 \<and> 0 < Start r then ''bytes='' @ FormatInt (Start r) @ ''-''
      else ''bytes='' @ FormatInt (Start r) @ ''-'' @ FormatInt (End r))"

definition BuildHeaderRange :: "int \<Rightarrow> int \<Rightarrow> int \<Rightarrow> string" where
  "BuildHeaderRange s e totalSize = sprintf_range s e totalSize"

definition ContentRange_String :: "content_range \<Rightarrow> string" where
  "ContentRange_String cr =
     (if cr_Start cr = 0 \<and> cr_Length cr = 0 then ''bytes */'' @ FormatInt (cr_ObjSize cr)
      else sprintf_range (cr_Start cr) (cr_Length cr) (cr_ObjSize cr))"

subsection \<open>Parsing a Range header against an object size\<close>

text \<open>
  One part of the list.  The outer option is a panic, the inner one the loop's \<^verbatim>\<open>continue\<close>.  The
  branch for fewer than two fields indexes a field that does not exist.
\<close>

definition parse_part :: "int \<Rightarrow> string \<Rightarrow> http_range option option" where
  "parse_part size64 part0 =
     (let part = TrimSpace part0 in
      if CHR ''-'' \<notin> set part then Some None
      else
        (let r = Split part CHR ''-'' in
         if length r < 2 then
           (if HasPrefix part ''-'' then None
            else if HasSuffix part ''-'' then
              (case ParseInt (hd r) of
                 (s, Some _) \<Rightarrow> Some None
               | (s, None) \<Rightarrow> Some (Some (mk_range s (i64 (size64 - 1)))))
            else Some None)
         else
           (let (s, startErr) = ParseInt (r ! 0); (e, endErr) = ParseInt (r ! 1) in
            if startErr \<noteq> None \<and> endErr \<noteq> None then Some None
            else
              (let (s, e) = (if startErr \<noteq> None then (i64 (size64 - e), i64 (size64 - 1))
                             else if endErr \<noteq> None then (s, i64 (size64 - 1)) else (s, e));
                   e = (if size64 \<le> e then i64 (size64 - 1) else e)
               in if e < s \<or> s < 0 then Some None else Some (Some (mk_range s e))))))"

fun parse_parts :: "int \<Rightarrow> string list \<Rightarrow> http_range list option" where
  "parse_parts size64 [] = Some []"
| "parse_parts size64 (p # ps) =
     (case parse_part size64 p of
        None \<Rightarrow> None
      | Some r \<Rightarrow> map_option (\<lambda>rs. (case r of None \<Rightarrow> rs | Some x \<Rightarrow> x # rs)) (parse_parts size64 ps))"

definition Parse :: "string \<Rightarrow> int \<Rightarrow> (range_err + http_range list) option" where
  "Parse header sz =
     (if header = [] then Some (Inl ErrRangeHeaderNotFound)
      else if \<not> HasPrefix header ''bytes='' then Some (Inl ErrRangeHeaderInvalidFormat)
      else (case IndexByte header CHR ''='' of
              None \<Rightarrow> Some (Inl ErrRangeHeaderInvalidFormat)
            | Some index \<Rightarrow>
                (case parse_parts (i64 sz) (Split (drop (index + 1) header) CHR '','') of
                   None \<Rightarrow> None
                 | Some ranges \<Rightarrow>
                     if length ranges = 0 then Some (Inl ErrRangeHeaderInvalidFormat)
                     else Some (Inr ranges))))"

definition SingleParse :: "string \<Rightarrow> int \<Rightarrow> (range_err + http_range) option" where
  "SingleParse header sz =
     (case Parse header sz of
        None \<Rightarrow> None
      | Some (Inl err) \<Rightarrow>
          if err = ErrRangeHeaderNotFound then
            (if sz = 0 then Some (Inr (mk_range 0 0))
             else Some (Inr (mk_range 0 (i64 (i64 sz - 1)))))
          else Some (Inl ErrRangeHeaderInvalidFormat)
      | Some (Inr (r # _)) \<Rightarrow> Some (Inr r)
      | Some (Inr []) \<Rightarrow> Some (Inl ErrRangeHeaderInvalidFormat))"

subsection \<open>Parsing a Content-Range header\<close>

definition ParseContentRange :: "header \<Rightarrow> content_range \<times> range_err option" where
  "ParseContentRange h =
     (let cr = \<lparr>cr_Start = 0, cr_Length = 0, cr_ObjSize = 0\<rparr>;
          contentRange = Get h ''Content-Range'';
          content_length = (\<lambda>cr. case ParseUint (Get h ''Content-Length'') of
             (cl, None) \<Rightarrow> (cr\<lparr>cr_ObjSize := cl\<rparr>, None)
           | (cl, Some _) \<Rightarrow> (cr, Some ErrContentRangeInvalidTotalValue))
      in
      if contentRange = [] then content_length cr
      else
        (case Split contentRange CHR '' '' of
           [_, p1] \<Rightarrow>
             (case Split p1 CHR ''/'' of
                [rp0, rp1] \<Rightarrow>
                  (case Split rp0 CHR ''-'' of
                     [v0, v1] \<Rightarrow>
                       (case Sscanf_int v0 of
                          None \<Rightarrow> (cr, Some ErrContentRangeInvalidStartValue)
                        | Some s \<Rightarrow>
                            (let cr = cr\<lparr>cr_Start := s\<rparr> in
                             case Sscanf_int v1 of
                               None \<Rightarrow> (cr, Some ErrContentRangeInvalidEndValue)
                             | Some e \<Rightarrow>
                                 (let cr = cr\<lparr>cr_Length := e\<rparr> in
                                  case Sscanf_uint rp1 of
                                    None \<Rightarrow> content_length cr
                                  | Some t \<Rightarrow> (cr\<lparr>cr_ObjSize := t\<rparr>, None))))
                   | _ \<Rightarrow> (cr, Some ErrContentRangeInvalidFormat))
              | _ \<Rightarrow> (cr, Some ErrContentRangeInvalidFormat))
         | _ \<Rightarrow> (cr, Some ErrContentRangeInvalidFormat)))"

subsection \<open>Parsing a Range header without a size\<close>

definition multi_part :: "string \<Rightarrow> http_range option" where
  "multi_part part0 =
     (let part = TrimSpace part0 in
      if CHR ''-'' \<notin> set part then None
      else
        (let r = Split part CHR ''-'' in
         if length r < 2 \<and> (HasPrefix part ''-'' \<or> HasSuffix part ''-'') then None
         else
           (let (s, startErr) = ParseInt (r ! 0); (e, endErr) = ParseInt (r ! 1) in
            if startErr \<noteq> None \<and> endErr \<noteq> None then None
            else if e < s \<or> s < 0 then None
            else Some (mk_range s e))))"

definition UnsatisfiableMultiRange :: "string \<Rightarrow> range_err + http_range list" where
  "UnsatisfiableMultiRange header =
     (if header = [] then Inl ErrRangeHeaderNotFound
      else if \<not> HasPrefix header ''bytes='' then Inl ErrRangeHeaderInvalidFormat
      else (case IndexByte header CHR ''='' of
              None \<Rightarrow> Inl ErrRangeHeaderInvalidFormat
            | Some index \<Rightarrow> Inr (List.map_filter multi_part (Split (drop (index + 1) header) CHR '',''))))"

subsection \<open>Facts\<close>

lemma Split_dash_length: "c \<in> set s \<Longrightarrow> \<not> length (Split s c) < 2"
  using count_list_0_iff [of s c] by (simp add: Split_length)

text \<open>The branch for fewer than two fields is never taken, so a part never panics.\<close>

lemma parse_part_live:
  "parse_part size64 p0 = Some
     (let p = TrimSpace p0; r = Split p CHR ''-'';
          (s, startErr) = ParseInt (r ! 0); (e, endErr) = ParseInt (r ! 1);
          (s, e) = (if startErr \<noteq> None then (i64 (size64 - e), i64 (size64 - 1))
                    else if endErr \<noteq> None then (s, i64 (size64 - 1)) else (s, e));
          e = (if size64 \<le> e then i64 (size64 - 1) else e)
      in if CHR ''-'' \<notin> set p \<or> startErr \<noteq> None \<and> endErr \<noteq> None \<or> e < s \<or> s < 0 then None
         else Some (mk_range s e))"
proof (cases "CHR ''-'' \<in> set (TrimSpace p0)")
  case True
  then have "\<not> length (Split (TrimSpace p0) CHR ''-'') < 2" by (rule Split_dash_length)
  with True show ?thesis by (simp only: parse_part_def Let_def) (simp split: prod.splits)
qed (simp add: parse_part_def Let_def split: prod.splits)

lemma parse_part_total: "\<exists>r. parse_part size64 p = Some r"
  by (subst parse_part_live) blast

lemma parse_parts_total: "\<exists>rs. parse_parts size64 ps = Some rs"
proof (induction ps)
  case (Cons p ps)
  then show ?case using parse_part_total [of size64 p] by fastforce
qed simp

lemma parse_part_sound:
  assumes "parse_part (i64 sz) p = Some (Some r)" "is_u64 sz"
  shows "0 \<le> Start r \<and> Start r \<le> End r \<and> End r < sz"
proof -
  have r: "0 \<le> Start r" "Start r \<le> End r" "End r = i64 (i64 sz - 1) \<or> End r < i64 sz"
    using assms(1) by (auto simp: parse_part_live Let_def split: if_splits prod.splits)
  show ?thesis
  proof (cases "sz < 9223372036854775808")
    case True
    then have "i64 sz = sz" "i64 (sz - 1) = sz - 1"
      using assms(2) by (auto simp: is_u64_def intro!: i64_id)
    then show ?thesis using r by auto
  next
    case False
    then have "i64 sz = sz - 18446744073709551616"
      using assms(2) by (intro i64_wrap_high) (auto simp: is_u64_def)
    then show ?thesis
      using r i64_range [of "i64 sz - 1"] False by linarith
  qed
qed

lemma parse_parts_sound:
  assumes "parse_parts (i64 sz) ps = Some rs" "is_u64 sz" "r \<in> set rs"
  shows "0 \<le> Start r \<and> Start r \<le> End r \<and> End r < sz"
  using assms
proof (induction ps arbitrary: rs)
  case (Cons p ps)
  then show ?case using parse_part_sound [of sz p] by (auto split: option.splits)
qed simp

subsection \<open>The meaning of a list of ranges\<close>

datatype range_spec = FromTo int int | From int | Suffix int

fun render_spec :: "range_spec \<Rightarrow> string" where
  "render_spec (FromTo a b) = FormatInt a @ ''-'' @ FormatInt b"
| "render_spec (From a) = FormatInt a @ ''-''"
| "render_spec (Suffix n) = ''-'' @ FormatInt n"

fun good_spec :: "range_spec \<Rightarrow> bool" where
  "good_spec (FromTo a b) \<longleftrightarrow> 0 \<le> a \<and> a \<le> max_i64 \<and> 0 \<le> b \<and> b \<le> max_i64"
| "good_spec (From a) \<longleftrightarrow> 0 \<le> a \<and> a \<le> max_i64"
| "good_spec (Suffix n) \<longleftrightarrow> 0 \<le> n \<and> n \<le> max_i64"

text \<open>The bytes a range asks for of an object of a given size, \<open>None\<close> where the parser drops it.\<close>

fun resolve_spec :: "int \<Rightarrow> range_spec \<Rightarrow> http_range option" where
  "resolve_spec sz (FromTo a b) =
     (if a \<le> min b (sz - 1) then Some (mk_range a (min b (sz - 1))) else None)"
| "resolve_spec sz (From a) = (if a < sz then Some (mk_range a (sz - 1)) else None)"
| "resolve_spec sz (Suffix n) = (if 0 < n \<and> n \<le> sz then Some (mk_range (sz - n) (sz - 1)) else None)"

lemma dash_facts [simp]: "plain CHR ''-''"
  by (simp add: plain_def)

lemma render_spec_plain:
  "good_spec sp \<Longrightarrow> render_spec sp \<noteq> [] \<and> plain (hd (render_spec sp)) \<and> plain (last (render_spec sp))"
  using FormatInt_plain by (cases sp) auto

lemma render_spec_chars:
  "good_spec sp \<Longrightarrow> digit_of c = None \<Longrightarrow> c \<noteq> CHR ''-'' \<Longrightarrow> c \<notin> set (render_spec sp)"
  using FormatInt_nonneg_notin by (cases sp) auto

lemma Split_render_spec:
  "good_spec (FromTo a b) \<Longrightarrow> Split (render_spec (FromTo a b)) CHR ''-'' = [FormatInt a, FormatInt b]"
  "good_spec (From a) \<Longrightarrow> Split (render_spec (From a)) CHR ''-'' = [FormatInt a, []]"
  "good_spec (Suffix n) \<Longrightarrow> Split (render_spec (Suffix n)) CHR ''-'' = [[], FormatInt n]"
  using Split_append [of "CHR ''-''" "FormatInt a"]
  by (auto simp: Split_none FormatInt_nonneg_notin)

lemma ParseInt_good: "0 \<le> i \<Longrightarrow> i \<le> max_i64 \<Longrightarrow> ParseInt (FormatInt i) = (i, None)"
  by (rule ParseInt_FormatInt) (simp add: is_i64_def)

lemma Split_two_mem: "Split p c = [a, b] \<Longrightarrow> c \<in> set p"
  using Split_none [of c p] by auto

lemma parse_part_fields:
  assumes "TrimSpace p = p" "Split p CHR ''-'' = [a, b]"
    and "ParseInt a = (s, se)" "ParseInt b = (e, ee)"
  shows "parse_part size64 p = Some
     (let (s, e) = (if se \<noteq> None then (i64 (size64 - e), i64 (size64 - 1))
                    else if ee \<noteq> None then (s, i64 (size64 - 1)) else (s, e));
          e = (if size64 \<le> e then i64 (size64 - 1) else e)
      in if se \<noteq> None \<and> ee \<noteq> None \<or> e < s \<or> s < 0 then None else Some (mk_range s e))"
  using assms Split_two_mem [OF assms(2)] by (simp add: parse_part_live Let_def)

lemma render_spec_trim: "good_spec sp \<Longrightarrow> TrimSpace (render_spec sp) = render_spec sp"
  using render_spec_plain [of sp] by (intro TrimSpace_plain) auto

lemma parse_part_render:
  assumes "good_spec sp" "0 \<le> sz" "sz \<le> max_i64"
  shows "parse_part (i64 sz) (render_spec sp) = Some (resolve_spec sz sp)"
proof -
  have sz: "i64 sz = sz" "i64 (sz - 1) = sz - 1" using assms(2,3) by (auto intro!: i64_id)
  have sub: "0 \<le> n \<Longrightarrow> n \<le> max_i64 \<Longrightarrow> i64 (sz - n) = sz - n" for n
    using assms(2,3) by (auto intro!: i64_id)
  note fields = parse_part_fields [OF render_spec_trim [OF assms(1)]]
  show ?thesis
  proof (cases sp)
    case (FromTo a b)
    then have ab: "good_spec (FromTo a b)" using assms(1) by simp
    from ab have "ParseInt (FormatInt a) = (a, None)" "ParseInt (FormatInt b) = (b, None)"
      by (simp_all add: ParseInt_good)
    from fields [unfolded FromTo, OF Split_render_spec(1) [OF ab] this] show ?thesis
      using ab sz by (simp add: FromTo min_def del: render_spec.simps)
  next
    case (From a)
    then have ab: "good_spec (From a)" using assms(1) by simp
    from ab have "ParseInt (FormatInt a) = (a, None)" by (simp add: ParseInt_good)
    from fields [unfolded From, OF Split_render_spec(2) [OF ab] this ParseInt_Nil] show ?thesis
      using ab sz by (simp add: From del: render_spec.simps)
  next
    case (Suffix n)
    then have ab: "good_spec (Suffix n)" using assms(1) by simp
    from ab have "ParseInt (FormatInt n) = (n, None)" by (simp add: ParseInt_good)
    from fields [unfolded Suffix, OF Split_render_spec(3) [OF ab] ParseInt_Nil this] show ?thesis
      using ab sz sub [of n] by (simp add: Suffix del: render_spec.simps)
  qed
qed

lemma parse_parts_render:
  assumes "list_all good_spec sps" "0 \<le> sz" "sz \<le> max_i64"
  shows "parse_parts (i64 sz) (map render_spec sps) = Some (List.map_filter (resolve_spec sz) sps)"
  using assms(1)
  by (induction sps) (auto simp: parse_part_render [OF _ assms(2,3)] List.map_filter_def split: option.splits)

lemma drop_bytes: "IndexByte (''bytes='' @ s) CHR ''='' = Some 5" "drop 6 (''bytes='' @ s) = s"
  by simp_all

subsection \<open>Properties\<close>

text \<open>C5: for every header value and every \<^verbatim>\<open>uint64\<close> size, \<^verbatim>\<open>Parse\<close> does not panic, and every range of a
  successful result is a non-empty range inside the object, also where the conversion of the
  size to \<^verbatim>\<open>int64\<close> wraps.\<close>

theorem Parse_sound:
  assumes "is_u64 sz"
  shows "\<exists>res. Parse hdr sz = Some res \<and>
    (\<forall>rs. res = Inr rs \<longrightarrow> rs \<noteq> [] \<and>
       (\<forall>r\<in>set rs. 0 \<le> Start r \<and> Start r \<le> End r \<and> End r < sz))"
proof -
  have tot: "parse_parts (i64 sz) (Split t CHR '','') \<noteq> None" for t
    using parse_parts_total [of "i64 sz" "Split t CHR '',''"] by auto
  have "Parse hdr sz \<noteq> None"
    by (simp add: Parse_def tot split: option.splits)
  moreover have "rs \<noteq> [] \<and> (\<forall>r\<in>set rs. 0 \<le> Start r \<and> Start r \<le> End r \<and> End r < sz)"
    if "Parse hdr sz = Some (Inr rs)" for rs
    using that parse_parts_sound [OF _ assms] by (auto simp: Parse_def split: option.splits if_splits)
  ultimately show ?thesis by auto
qed

theorem Parse_sound_witness:
  "\<exists>res. Parse ''bytes=5-99,-3,7-'' 20 = Some res \<and>
    (\<forall>rs. res = Inr rs \<longrightarrow> rs \<noteq> [] \<and>
       (\<forall>r\<in>set rs. 0 \<le> Start r \<and> Start r \<le> End r \<and> End r < 20))"
  by (rule Parse_sound) (simp add: is_u64_def)

text \<open>C6: what \<^verbatim>\<open>Parse\<close> computes on a list of ranges: each \<^verbatim>\<open>a-b\<close> is cut to the object, \<^verbatim>\<open>a-\<close> runs to its
  end, \<^verbatim>\<open>-n\<close> is its last \<open>n\<close> bytes, an unsatisfiable one is dropped, the order is kept, and it is an
  error when none remains.\<close>

theorem Parse_specs:
  assumes "list_all good_spec sps" "sps \<noteq> []" "0 \<le> sz" "sz \<le> max_i64"
  shows "Parse (''bytes='' @ Join (map render_spec sps) '','') sz =
    Some (let rs = List.map_filter (resolve_spec sz) sps in
          if rs = [] then Inl ErrRangeHeaderInvalidFormat else Inr rs)"
proof -
  have "Split (Join (map render_spec sps) '','') CHR '','' = map render_spec sps"
    using assms(1,2) render_spec_chars by (intro Split_Join) (auto simp: list_all_iff)
  then show ?thesis
    using parse_parts_render [OF assms(1,3,4)] by (simp add: Parse_def Let_def)
qed

theorem Parse_specs_witness:
  "Parse ''bytes=0-4,30-40,-5'' 20 = Some (Inr [mk_range 0 4, mk_range 15 19])"
proof -
  let ?sps = "[FromTo 0 4, FromTo 30 40, Suffix 5]"
  have "''bytes='' @ Join (map render_spec ?sps) '','' = ''bytes=0-4,30-40,-5''" by code_simp
  moreover have "List.map_filter (resolve_spec 20) ?sps = [mk_range 0 4, mk_range 15 19]" by code_simp
  ultimately show ?thesis using Parse_specs [of ?sps 20] by (simp add: Let_def)
qed

lemma Sscanf_good: "0 \<le> i \<Longrightarrow> i \<le> max_i64 \<Longrightarrow> Sscanf_int (FormatInt i) = Some i"
  by (rule Sscanf_int_FormatInt) (auto simp: is_i64_def)

lemma canonical_content_names [simp]:
  "CanonicalMIMEHeaderKey ''Content-Range'' = ''Content-Range''"
  "CanonicalMIMEHeaderKey ''Content-Length'' = ''Content-Length''"
  by code_simp+

lemma ParseContentRange_fields:
  assumes "Get h ''Content-Range'' = v" "v \<noteq> []" "Split v CHR '' '' = [u, p1]"
    and "Split p1 CHR ''/'' = [rp0, rp1]" "Split rp0 CHR ''-'' = [v0, v1]"
    and "Sscanf_int v0 = Some s" "Sscanf_int v1 = Some e" "Sscanf_uint rp1 = Some t"
  shows "ParseContentRange h = (\<lparr>cr_Start = s, cr_Length = e, cr_ObjSize = t\<rparr>, None)"
  using assms by (simp add: ParseContentRange_def)

text \<open>\<^verbatim>\<open>ParseContentRange\<close> reads back the header \<^verbatim>\<open>BuildHeaderRange\<close> writes.  The second position
  goes into the field called \<^verbatim>\<open>Length\<close>, although it is the last byte position.\<close>

theorem ParseContentRange_BuildHeaderRange:
  assumes "0 \<le> s" "s \<le> max_i64" "0 \<le> e" "e \<le> max_i64" "is_u64 t"
  shows "ParseContentRange (SetH h ''Content-Range'' (BuildHeaderRange s e t)) =
    (\<lparr>cr_Start = s, cr_Length = e, cr_ObjSize = t\<rparr>, None)"
proof -
  let ?v = "BuildHeaderRange s e t" and ?p = "FormatInt s @ ''-'' @ FormatInt e"
  have t: "0 \<le> t" using assms(5) by (simp add: is_u64_def)
  note no = FormatInt_nonneg_notin [OF assms(1)] FormatInt_nonneg_notin [OF assms(3)]
    FormatInt_nonneg_notin [OF t]
  have sp: "Split ?v CHR '' '' = [''bytes'', ?p @ ''/'' @ FormatInt t]"
    using Split_append [of "CHR '' ''" "''bytes''" "?p @ ''/'' @ FormatInt t"]
    by (simp add: BuildHeaderRange_def sprintf_range_def Split_none no)
  have sl: "Split (?p @ ''/'' @ FormatInt t) CHR ''/'' = [?p, FormatInt t]"
    using Split_append [of "CHR ''/''" ?p "FormatInt t"] by (simp add: Split_none no)
  have da: "Split ?p CHR ''-'' = [FormatInt s, FormatInt e]"
    using Split_append [of "CHR ''-''" "FormatInt s" "FormatInt e"] by (simp add: Split_none no)
  have ne: "?v \<noteq> []" by (simp add: BuildHeaderRange_def sprintf_range_def)
  show ?thesis
    by (rule ParseContentRange_fields [OF _ ne sp sl da])
      (use assms in \<open>simp_all add: Get_SetH Sscanf_good Sscanf_uint_FormatInt\<close>)
qed

theorem ParseContentRange_BuildHeaderRange_witness:
  "ParseContentRange (SetH [] ''Content-Range'' (BuildHeaderRange 200 1000 67589)) =
    (\<lparr>cr_Start = 200, cr_Length = 1000, cr_ObjSize = 67589\<rparr>, None)"
  by (rule ParseContentRange_BuildHeaderRange) (simp_all add: is_u64_def)

text \<open>the parser without an object size reads a suffix range \<^verbatim>\<open>-n\<close> as the range from byte 0 to
  byte \<open>n\<close>, not as the last \<open>n\<close> bytes.\<close>

theorem UnsatisfiableMultiRange_suffix:
  assumes "0 \<le> n" "n \<le> max_i64"
  shows "UnsatisfiableMultiRange (''bytes='' @ render_spec (Suffix n)) = Inr [mk_range 0 n]"
proof -
  let ?p = "render_spec (Suffix n)"
  have good: "good_spec (Suffix n)" using assms by simp
  note fields = Split_render_spec(3) [OF good] and trim = render_spec_trim [OF good]
  have "Split ?p CHR '','' = [?p]"
    using render_spec_chars [OF good] by (intro Split_none) auto
  moreover have "multi_part ?p = Some (mk_range 0 n)"
    using assms Split_two_mem [OF fields]
    by (simp add: multi_part_def trim fields ParseInt_good del: render_spec.simps)
  ultimately show ?thesis
    by (simp add: UnsatisfiableMultiRange_def List.map_filter_def del: render_spec.simps)
qed

theorem UnsatisfiableMultiRange_suffix_witness:
  "UnsatisfiableMultiRange ''bytes=-500'' = Inr [mk_range 0 500]"
proof -
  have "''bytes='' @ render_spec (Suffix 500) = ''bytes=-500''" by code_simp
  then show ?thesis using UnsatisfiableMultiRange_suffix [of 500] by simp
qed

end
