(* ===== verification/Range_Control.thy ===== *)
theory Range_Control
  imports Http_Header "HOL-Library.Multiset"
begin

text \<open>
  \<^verbatim>\<open>pkg/x/http/rangecontrol\<close>: byte ranges whose end may be open (\<open>-1\<close>), their parser, ordering and
  merging (\<^verbatim>\<open>request_range.go\<close>), and the strict \<^verbatim>\<open>Content-Range\<close> parser (\<^verbatim>\<open>response_range.go\<close>).
\<close>

record byte_range =
  br_Start :: int
  br_End :: int

abbreviation mk_br :: "int \<Rightarrow> int \<Rightarrow> byte_range" where
  "mk_br s e \<equiv> \<lparr>br_Start = s, br_End = e\<rparr>"

datatype rc_err = ErrInvalidRange | ErrOpenEnded string string

subsection \<open>request\_range.go\<close>

definition br_Length :: "byte_range \<Rightarrow> int" where
  "br_Length r = i64 (br_End r - br_Start r + 1)"

definition br_String :: "byte_range \<Rightarrow> string" where
  "br_String r =
     (if br_End r \<le> 0 \<and> 0 < br_Start r then ''bytes='' @ FormatInt (br_Start r) @ ''-''
      else ''bytes='' @ FormatInt (br_Start r) @ ''-'' @ FormatInt (br_End r))"

definition br_ContentRange :: "byte_range \<Rightarrow> int \<Rightarrow> string" where
  "br_ContentRange r totalSize =
     (if totalSize \<le> 0 then ''bytes '' @ FormatInt (br_Start r) @ ''-'' @ FormatInt (br_End r) @ ''/*''
      else if br_End r = - 1 \<or> i64 totalSize \<le> br_End r then
        ''bytes '' @ FormatInt (br_Start r) @ ''-'' @ FormatInt (u64 (totalSize - 1)) @ ''/'' @ FormatInt totalSize
      else
        ''bytes '' @ FormatInt (br_Start r) @ ''-'' @ FormatInt (br_End r) @ ''/'' @ FormatInt totalSize)"

definition br_MimeHeader :: "byte_range \<Rightarrow> string \<Rightarrow> int \<Rightarrow> header" where
  "br_MimeHeader r contentType sz =
     [(''Content-Range'', [br_ContentRange r sz]), (''Content-Type'', [contentType])]"

definition parse_br :: "string \<Rightarrow> rc_err + byte_range" where
  "parse_br part0 =
     (let part = TrimSpace part0 in
      if HasPrefix part ''-'' then Inl ErrInvalidRange
      else (case IndexByte part CHR ''-'' of
              None \<Rightarrow> Inl ErrInvalidRange
            | Some dash \<Rightarrow>
                (let startStr = take dash part; endStr = drop (dash + 1) part;
                     (s, err) = ParseInt startStr
                 in if err \<noteq> None \<or> s < 0 then Inl ErrInvalidRange
                    else if endStr = [] then Inr (mk_br s (- 1))
                    else (let (e, err) = ParseInt endStr in
                          if err \<noteq> None \<or> e < s then Inl (ErrOpenEnded startStr endStr)
                          else Inr (mk_br s e)))))"

fun parse_brs :: "string list \<Rightarrow> rc_err + byte_range list" where
  "parse_brs [] = Inr []"
| "parse_brs (p # ps) =
     (case parse_br p of
        Inl e \<Rightarrow> Inl e
      | Inr r \<Rightarrow> (case parse_brs ps of Inl e \<Rightarrow> Inl e | Inr rs \<Rightarrow> Inr (r # rs)))"

definition Parse_rc :: "string \<Rightarrow> rc_err + byte_range list" where
  "Parse_rc rangeHeader =
     (if rangeHeader = [] then Inr []
      else if \<not> HasPrefix rangeHeader ''bytes='' then Inl ErrInvalidRange
      else parse_brs (Split (TrimPrefix rangeHeader ''bytes='') CHR '',''))"

definition br_less :: "byte_range \<Rightarrow> byte_range \<Rightarrow> bool" where
  "br_less x y =
     (if br_Start x \<noteq> br_Start y then br_Start x < br_Start y
      else if br_End x = - 1 then False
      else if br_End y = - 1 then True
      else br_End x < br_End y)"

fun insert_br :: "byte_range \<Rightarrow> byte_range list \<Rightarrow> byte_range list" where
  "insert_br x [] = [x]"
| "insert_br x (y # ys) = (if br_less y x then y # insert_br x ys else x # y # ys)"

text \<open>
  \<^verbatim>\<open>sort.Slice\<close> with this order; two ranges that the order does not separate are equal, so every
  comparison sort gives this list (see \<open>SortRanges_unique\<close>).
\<close>

definition SortRanges :: "byte_range list \<Rightarrow> byte_range list" where
  "SortRanges rs = foldr insert_br rs []"

fun merge_loop :: "byte_range \<Rightarrow> byte_range list \<Rightarrow> byte_range list" where
  "merge_loop cur [] = [cur]"
| "merge_loop cur (next # rs) =
     (if br_End cur = - 1 then [cur]
      else if br_Start next \<le> i64 (br_End cur + 1) then
        merge_loop (if br_End next = - 1 \<or> br_End cur < br_End next
                    then cur\<lparr>br_End := br_End next\<rparr> else cur) rs
      else cur # merge_loop next rs)"

definition MergeRanges :: "byte_range list \<Rightarrow> byte_range list" where
  "MergeRanges rs = (case rs of [] \<Rightarrow> [] | r # rest \<Rightarrow> merge_loop r rest)"

subsection \<open>response\_range.go\<close>

record rc_content_range =
  rc_Start :: int
  rc_End :: int
  rc_Size :: int
  rc_Unsatisfied :: bool

text \<open>\<open>None\<close> is \<^verbatim>\<open>ErrInvalidContentRange\<close>, the only error.\<close>

definition ParseContentRange_rc :: "string \<Rightarrow> rc_content_range option" where
  "ParseContentRange_rc header0 =
     (let hd0 = TrimSpace header0 in
      if hd0 = [] then None
      else case IndexByte hd0 CHR '' '' of
        None \<Rightarrow> None
      | Some sp \<Rightarrow>
          (let value = drop (sp + 1) hd0 in
           if HasPrefix value ''*/'' then
             (let (sz, err) = ParseInt (TrimPrefix value ''*/'') in
              if err \<noteq> None \<or> sz < 0 then None
              else Some \<lparr>rc_Start = 0, rc_End = 0, rc_Size = sz, rc_Unsatisfied = True\<rparr>)
           else case IndexByte value CHR ''/'' of
             None \<Rightarrow> None
           | Some slash \<Rightarrow>
               (let rangePart = take slash value; sizePart = drop (slash + 1) value in
                case IndexByte rangePart CHR ''-'' of
                  None \<Rightarrow> None
                | Some dash \<Rightarrow>
                    (let (s, err1) = ParseInt (take dash rangePart);
                         (e, err2) = ParseInt (drop (dash + 1) rangePart)
                     in if err1 \<noteq> None \<or> s < 0 then None
                        else if err2 \<noteq> None \<or> e < s then None
                        else if sizePart = ''*'' then
                          Some \<lparr>rc_Start = s, rc_End = e, rc_Size = - 1, rc_Unsatisfied = False\<rparr>
                        else (let (sz, err3) = ParseInt sizePart in
                              if err3 \<noteq> None \<or> sz \<le> 0 \<or> sz \<le> e then None
                              else Some \<lparr>rc_Start = s, rc_End = e, rc_Size = sz, rc_Unsatisfied = False\<rparr>)))))"

subsection \<open>Parsing\<close>

definition valid_br :: "byte_range \<Rightarrow> bool" where
  "valid_br r \<longleftrightarrow> 0 \<le> br_Start r \<and> br_Start r \<le> max_i64 \<and>
     (br_End r = - 1 \<or> br_Start r \<le> br_End r \<and> br_End r \<le> max_i64)"

lemma parse_br_valid: "parse_br p = Inr r \<Longrightarrow> valid_br r"
  using ParseInt_range
  by (fastforce simp: parse_br_def valid_br_def is_i64_def Let_def split: if_splits option.splits prod.splits)

lemma parse_brs_valid: "parse_brs ps = Inr rs \<Longrightarrow> r \<in> set rs \<Longrightarrow> valid_br r"
  by (induction ps arbitrary: rs) (auto dest: parse_br_valid split: sum.splits)

lemma Parse_rc_valid: "Parse_rc h = Inr rs \<Longrightarrow> r \<in> set rs \<Longrightarrow> valid_br r"
  by (auto simp: Parse_rc_def dest: parse_brs_valid split: if_splits)

text \<open>The printed form of one range inside a list.\<close>

definition render_br :: "byte_range \<Rightarrow> string" where
  "render_br r = FormatInt (br_Start r) @ CHR ''-'' # (if br_End r = - 1 then [] else FormatInt (br_End r))"

lemma parse_br_render:
  assumes "valid_br r"
  shows "parse_br (render_br r) = Inr r"
proof -
  let ?s = "FormatInt (br_Start r)" and ?e = "if br_End r = - 1 then [] else FormatInt (br_End r)"
  have s: "0 \<le> br_Start r" "br_Start r \<le> max_i64" using assms by (auto simp: valid_br_def)
  have ne: "CHR ''-'' \<notin> set ?s" using s by (intro FormatInt_nonneg_notin) auto
  have pl: "plain (hd ?s)" "?s \<noteq> []" using FormatInt_plain s by auto
  have last: "plain (last (render_br r))"
    using FormatInt_plain [of "br_End r"] assms by (auto simp: render_br_def valid_br_def plain_def)
  have trim: "TrimSpace (render_br r) = render_br r"
    using pl last by (intro TrimSpace_plain) (simp add: render_br_def)
  have "\<not> HasPrefix (render_br r) ''-''"
    using ne pl(2) by (cases ?s) (auto simp: render_br_def)
  moreover have "IndexByte (render_br r) CHR ''-'' = Some (length ?s)"
    using ne by (simp add: render_br_def IndexByte_append)
  moreover have "ParseInt ?s = (br_Start r, None)"
    using s by (intro ParseInt_FormatInt) (simp add: is_i64_def)
  moreover have "br_End r \<noteq> - 1 \<Longrightarrow> ParseInt ?e = (br_End r, None)"
    using assms by (simp add: valid_br_def ParseInt_FormatInt is_i64_def)
  moreover have "take (length ?s) (render_br r) = ?s" "drop (Suc (length ?s)) (render_br r) = ?e"
    by (simp_all add: render_br_def)
  moreover have "br_End r \<noteq> - 1 \<Longrightarrow> br_Start r \<le> br_End r"
    using assms by (auto simp: valid_br_def)
  ultimately show ?thesis
    using s by (cases "br_End r = - 1") (simp_all add: parse_br_def trim Let_def)
qed

lemma parse_brs_render:
  "\<forall>r\<in>set rs. valid_br r \<Longrightarrow> parse_brs (map render_br rs) = Inr rs"
  by (induction rs) (auto simp: parse_br_render)

lemma render_br_no_comma: "valid_br r \<Longrightarrow> CHR '','' \<notin> set (render_br r)"
  by (auto simp: render_br_def valid_br_def FormatInt_nonneg_notin)

lemma Parse_rc_printed:
  assumes "\<forall>r\<in>set rs. valid_br r" "rs \<noteq> []"
  shows "Parse_rc (''bytes='' @ Join (map render_br rs) '','') = Inr rs"
proof -
  have "Split (Join (map render_br rs) '','') CHR '','' = map render_br rs"
    using assms render_br_no_comma by (intro Split_Join) auto
  moreover have "TrimPrefix (''bytes='' @ s) ''bytes='' = s" for s
    by (rule TrimPrefix_append)
  ultimately show ?thesis
    using parse_brs_render [OF assms(1)] by (simp add: Parse_rc_def)
qed

subsection \<open>Ordering\<close>

definition br_le :: "byte_range \<Rightarrow> byte_range \<Rightarrow> bool" where
  "br_le x y \<longleftrightarrow> \<not> br_less y x"

lemma br_le_trans: "br_le x y \<Longrightarrow> br_le y z \<Longrightarrow> br_le x z"
  by (auto simp: br_le_def br_less_def split: if_splits)

lemma br_le_antisym: "br_le x y \<Longrightarrow> br_le y x \<Longrightarrow> x = (y :: byte_range)"
  by (auto simp: br_le_def br_less_def split: if_splits intro!: byte_range.equality)

lemma br_less_le: "br_less x y \<Longrightarrow> br_le x y"
  by (auto simp: br_le_def br_less_def split: if_splits)

lemma br_le_Start: "br_le x y \<Longrightarrow> br_Start x \<le> br_Start y"
  by (auto simp: br_le_def br_less_def split: if_splits)

lemma mset_insert_br [simp]: "mset (insert_br x ys) = add_mset x (mset ys)"
  by (induction ys) auto

lemma mset_SortRanges: "mset (SortRanges rs) = mset rs"
  unfolding SortRanges_def by (induction rs) auto

lemma set_SortRanges [simp]: "set (SortRanges rs) = set rs"
  by (metis mset_SortRanges set_mset_mset)

lemma sorted_insert_br: "sorted_wrt br_le ys \<Longrightarrow> sorted_wrt br_le (insert_br x ys)"
proof (induction ys)
  case (Cons y ys)
  have set: "set (insert_br x ys) = insert x (set ys)"
    by (metis mset_insert_br set_mset_add_mset_insert set_mset_mset)
  show ?case
  proof (cases "br_less y x")
    case True
    then show ?thesis using Cons set br_less_le by auto
  next
    case False
    then have "br_le x y" by (simp add: br_le_def)
    then show ?thesis using Cons False br_le_trans by auto
  qed
qed simp

lemma sorted_SortRanges: "sorted_wrt br_le (SortRanges rs)"
  unfolding SortRanges_def by (induction rs) (auto simp: sorted_insert_br)

lemma sorted_wrt_br_unique:
  "sorted_wrt br_le xs \<Longrightarrow> sorted_wrt br_le ys \<Longrightarrow> mset xs = mset ys \<Longrightarrow> xs = ys"
proof (induction xs arbitrary: ys)
  case (Cons x xs)
  then obtain y ys' where ys: "ys = y # ys'" by (cases ys) auto
  have "x = y \<or> x \<in> set ys'" "x = y \<or> y \<in> set xs"
    using Cons.prems(3) ys by (metis list.set_intros(1) set_ConsD mset_eq_setD)+
  then have "x = y" using Cons.prems(1,2) ys br_le_antisym by auto
  then show ?case using Cons ys by auto
qed simp

subsection \<open>Merging\<close>

text \<open>The byte positions a range names.\<close>

definition br_bytes :: "byte_range \<Rightarrow> int set" where
  "br_bytes r = {x. br_Start r \<le> x \<and> (br_End r = - 1 \<or> x \<le> br_End r)}"

text \<open>Two ranges with at least one byte between them.\<close>

definition br_gap :: "byte_range \<Rightarrow> byte_range \<Rightarrow> bool" where
  "br_gap x y \<longleftrightarrow> br_End x \<noteq> - 1 \<and> br_End x + 1 < br_Start y"

definition mergeable :: "byte_range \<Rightarrow> bool" where
  "mergeable r \<longleftrightarrow> valid_br r \<and> br_End r < max_i64"

definition starts_sorted :: "byte_range list \<Rightarrow> bool" where
  "starts_sorted rs \<longleftrightarrow> sorted_wrt (\<lambda>x y. br_Start x \<le> br_Start y) rs"

lemma merge_loop_Start: "y \<in> set (merge_loop cur rs) \<Longrightarrow> starts_sorted (cur # rs) \<Longrightarrow> br_Start cur \<le> br_Start y"
proof (induction cur rs rule: merge_loop.induct)
  case (2 cur nxt rs)
  then show ?case by (fastforce simp: starts_sorted_def split: if_splits)
qed auto

lemma merge_loop_gaps:
  "starts_sorted (cur # rs) \<Longrightarrow> \<forall>r\<in>set (cur # rs). mergeable r \<Longrightarrow> sorted_wrt br_gap (merge_loop cur rs)"
proof (induction cur rs rule: merge_loop.induct)
  case (2 cur nxt rs)
  have id: "br_End cur \<noteq> - 1 \<Longrightarrow> i64 (br_End cur + 1) = br_End cur + 1"
    using 2 by (auto simp: mergeable_def valid_br_def intro!: i64_id)
  have "\<forall>y\<in>set (merge_loop nxt rs). br_Start nxt \<le> br_Start y"
    using merge_loop_Start 2(3) by (auto simp: starts_sorted_def)
  then show ?case
    using 2 id by (auto simp: starts_sorted_def br_gap_def mergeable_def valid_br_def)
qed simp

lemma merge_loop_bytes:
  "starts_sorted (cur # rs) \<Longrightarrow> \<forall>r\<in>set (cur # rs). mergeable r \<Longrightarrow>
   (\<Union>r\<in>set (merge_loop cur rs). br_bytes r) = (\<Union>r\<in>set (cur # rs). br_bytes r)"
proof (induction cur rs rule: merge_loop.induct)
  case (2 cur nxt rs)
  let ?cur = "if br_End nxt = - 1 \<or> br_End cur < br_End nxt then cur\<lparr>br_End := br_End nxt\<rparr> else cur"
  have le: "\<forall>r\<in>set (nxt # rs). br_Start cur \<le> br_Start r" using 2(3) by (simp add: starts_sorted_def)
  have id: "br_End cur \<noteq> - 1 \<Longrightarrow> i64 (br_End cur + 1) = br_End cur + 1"
    using 2(4) by (auto simp: mergeable_def valid_br_def intro!: i64_id)
  consider "br_End cur = - 1" | "br_End cur \<noteq> - 1" "br_Start nxt \<le> br_End cur + 1"
    | "br_End cur \<noteq> - 1" "\<not> br_Start nxt \<le> br_End cur + 1" by blast
  then show ?case
  proof cases
    case 1
    then have "\<forall>r\<in>set (nxt # rs). br_bytes r \<subseteq> br_bytes cur"
      using le by (auto simp: br_bytes_def)
    then show ?thesis using 1 by auto
  next
    case 2: 2
    have "starts_sorted (?cur # rs)" "\<forall>r\<in>set (?cur # rs). mergeable r"
      using "2.prems" le by (auto simp: starts_sorted_def mergeable_def valid_br_def)
    then have "(\<Union>r\<in>set (merge_loop ?cur rs). br_bytes r) = (\<Union>r\<in>set (?cur # rs). br_bytes r)"
      using "2.IH"(1) 2 id by (simp only: if_False simp_thms)
    moreover have "br_bytes ?cur = br_bytes cur \<union> br_bytes nxt"
      using 2 le "2.prems"(2) by (auto simp: br_bytes_def mergeable_def valid_br_def)
    ultimately show ?thesis using 2 id by auto
  next
    case 3
    then have "(\<Union>r\<in>set (merge_loop nxt rs). br_bytes r) = (\<Union>r\<in>set (nxt # rs). br_bytes r)"
      using "2.IH"(2) "2.prems" id by (simp add: starts_sorted_def)
    then show ?thesis using 3 id by auto
  qed
qed simp

subsection \<open>Properties\<close>

text \<open>\<^verbatim>\<open>Parse\<close> of the printed form of any non-empty list of valid ranges returns that list.\<close>

theorem Parse_rc_render:
  assumes "\<forall>r\<in>set rs. valid_br r" "rs \<noteq> []"
  shows "Parse_rc (''bytes='' @ Join (map render_br rs) '','') = Inr rs"
  using assms by (rule Parse_rc_printed)

theorem Parse_rc_render_witness:
  "Parse_rc (''bytes='' @ Join (map render_br [mk_br 0 99, mk_br 500 (- 1)]) '','') =
     Inr [mk_br 0 99, mk_br 500 (- 1)]"
  by (rule Parse_rc_render) (simp_all add: valid_br_def)

text \<open>\<^verbatim>\<open>SortRanges\<close> is determined by its comparison alone: it is a permutation of its input in
  which no element is less than one before it, and it is the only such list.\<close>

theorem SortRanges_unique:
  "mset ys = mset rs \<and> sorted_wrt (\<lambda>x y. \<not> br_less y x) ys \<longleftrightarrow> ys = SortRanges rs"
proof -
  have le: "(\<lambda>x y. \<not> br_less y x) = br_le" by (simp add: br_le_def fun_eq_iff)
  show ?thesis
    unfolding le using sorted_wrt_br_unique [of ys "SortRanges rs"]
    by (auto simp: mset_SortRanges sorted_SortRanges)
qed



lemma ParseContentRange_rc_fields:
  assumes "TrimSpace v = v" "v \<noteq> []" "IndexByte v CHR '' '' = Some sp" "drop (Suc sp) v = a @ CHR ''-'' # b @ CHR ''/'' # t"
    and "CHR ''/'' \<notin> set a" "CHR ''/'' \<notin> set b" "CHR ''-'' \<notin> set a" "\<not> HasPrefix (drop (Suc sp) v) ''*/''" "t \<noteq> ''*''"
    and "ParseInt a = (s, None)" "ParseInt b = (e, None)" "ParseInt t = (n, None)"
    and "0 \<le> s" "s \<le> e" "e < n"
  shows "ParseContentRange_rc v = Some \<lparr>rc_Start = s, rc_End = e, rc_Size = n, rc_Unsatisfied = False\<rparr>"
proof -
  have "IndexByte ((a @ CHR ''-'' # b) @ CHR ''/'' # t) CHR ''/'' = Some (length (a @ CHR ''-'' # b))"
    using assms(5,6) by (intro IndexByte_append) simp
  moreover have "IndexByte (a @ CHR ''-'' # b) CHR ''-'' = Some (length a)"
    using assms(7) by (rule IndexByte_append)
  ultimately show ?thesis
    using assms by (simp add: ParseContentRange_rc_def Let_def)
qed

text \<open>the strict parser reads back the \<^verbatim>\<open>Content-Range\<close> value that a valid range prints for a known
  size: the start, the last byte cut to the object, and the size.\<close>

theorem ParseContentRange_rc_ContentRange:
  assumes "valid_br r" "br_Start r < n" "n \<le> max_i64"
  shows "ParseContentRange_rc (br_ContentRange r n) =
    Some \<lparr>rc_Start = br_Start r, rc_End = (if br_End r = - 1 then n - 1 else min (br_End r) (n - 1)),
          rc_Size = n, rc_Unsatisfied = False\<rparr>"
proof -
  let ?e = "if br_End r = - 1 then n - 1 else min (br_End r) (n - 1)"
  let ?a = "FormatInt (br_Start r)" and ?b = "FormatInt ?e" and ?t = "FormatInt n"
  have rng: "0 \<le> br_Start r" "br_Start r \<le> ?e" "0 \<le> ?e" "?e < n" "0 \<le> n" "?e \<le> max_i64"
    using assms by (auto simp: valid_br_def)
  have v: "br_ContentRange r n = ''bytes '' @ ?a @ ''-'' @ ?b @ ''/'' @ ?t"
    using assms by (auto simp: br_ContentRange_def valid_br_def i64_id u64_id min_def)
  let ?v = "''bytes '' @ ?a @ ''-'' @ ?b @ ''/'' @ ?t"
  have trim: "TrimSpace ?v = ?v"
    using FormatInt_plain [OF rng(5)] by (intro TrimSpace_plain) (simp add: plain_def)
  have digit: "digit_of (hd (FormatInt i)) \<noteq> None" if "0 \<le> i" for i
    using FormatInt_nonneg_digits [OF that, of "hd (FormatInt i)"] by simp
  have pre: "\<not> HasPrefix (?a @ x) ''*/''" for x
    using digit [OF rng(1)] by (cases ?a) auto
  have star: "?t \<noteq> ''*''" using digit [OF rng(5)] by (cases ?t) auto
  show ?thesis unfolding v
    by (rule ParseContentRange_rc_fields [OF trim, where sp = 5 and a = ?a and b = ?b and t = ?t])
      (use rng assms(3) pre star in
        \<open>simp_all add: FormatInt_nonneg_notin ParseInt_FormatInt is_i64_def\<close>)
qed

theorem ParseContentRange_rc_ContentRange_witness:
  "ParseContentRange_rc (br_ContentRange (mk_br 100 (- 1)) 1000) =
    Some \<lparr>rc_Start = 100, rc_End = 999, rc_Size = 1000, rc_Unsatisfied = False\<rparr>"
  using ParseContentRange_rc_ContentRange [of "mk_br 100 (- 1)" 1000] by (simp add: valid_br_def)

end
