(* ===== verification/Cache_Control.thy ===== *)
theory Cache_Control
  imports Http_Header
begin

text \<open>
  \<^verbatim>\<open>pkg/x/http/cachecontrol/cachecontrol.go\<close> and \<^verbatim>\<open>ParseCacheTime\<close> of \<^verbatim>\<open>pkg/x/http/header.go\<close>.  The
  regular expression is modelled by the scanner it denotes: every part of it is greedy and the
  optional value never makes the match fail, so that the first choice always succeeds.  Reading
  the clock against an \<^verbatim>\<open>Expires\<close> date is the argument \<open>until\<close> of \<open>ParseCacheTime\<close>.
\<close>

type_synonym cache_control = "(string \<times> string) list"

subsection \<open>The scanner\<close>

definition is_alpha :: "char \<Rightarrow> bool" where
  "is_alpha c = (let n = (of_char c :: nat) in 65 \<le> n \<and> n \<le> 90 \<or> 97 \<le> n \<and> n \<le> 122)"

definition name_char :: "char \<Rightarrow> bool" where
  "name_char c \<longleftrightarrow> is_alpha c \<or> c = CHR ''_'' \<or> c = CHR ''-''"

definition re_space :: "char \<Rightarrow> bool" where
  "re_space c \<longleftrightarrow> c \<in> {ch 9, ch 10, ch 12, ch 13, ch 32}"

definition unquoted :: "char \<Rightarrow> bool" where
  "unquoted c \<longleftrightarrow> c \<notin> {ch 32, ch 9, CHR 0x22, CHR '','', CHR '';''}"

fun rx_value :: "string \<Rightarrow> string" where
  "rx_value [] = []"
| "rx_value (c # r) =
     (if c \<noteq> CHR ''='' then []
      else (case r of
              [] \<Rightarrow> [c]
            | d # q \<Rightarrow>
                if d = CHR 0x22 then
                  (if CHR 0x22 \<in> set q then c # d # takeWhile (\<lambda>x. x \<noteq> CHR 0x22) q @ [CHR 0x22] else [c])
                else c # takeWhile unquoted r))"

definition rx_match :: "string \<Rightarrow> string" where
  "rx_match s =
     (let name = takeWhile name_char s;
          r1 = drop (length name) s;
          sp = takeWhile re_space r1;
          r2 = drop (length sp) r1
      in name @ sp @ rx_value r2)"

function FindAllString :: "string \<Rightarrow> string list" where
  "FindAllString [] = []"
| "FindAllString (c # cs) =
     (if is_alpha c then rx_match (c # cs) # FindAllString (drop (length (rx_match (c # cs))) (c # cs))
      else FindAllString cs)"
  by pat_completeness auto
termination
proof (relation "measure length", goal_cases)
  case (2 c cs)
  then have "rx_match (c # cs) \<noteq> []" by (simp add: rx_match_def Let_def name_char_def)
  then show ?case by (cases "rx_match (c # cs)") auto
qed auto

declare FindAllString.simps(2) [simp del]

definition parse_match :: "string \<Rightarrow> string \<times> string" where
  "parse_match m =
     (case IndexByte m CHR ''='' of
        None \<Rightarrow> (ToLower m, TrimSpace [])
      | Some index \<Rightarrow> (ToLower (take index m), TrimSpace (drop (index + 1) m)))"

definition Parse_cc :: "string \<Rightarrow> cache_control" where
  "Parse_cc directive =
     fold (\<lambda>m cc. case parse_match m of (k, v) \<Rightarrow> AList.update k v cc) (FindAllString directive) []"

subsection \<open>The directives\<close>

definition has_directive :: "cache_control \<Rightarrow> string \<Rightarrow> bool" where
  "has_directive c k \<longleftrightarrow> map_of c k \<noteq> None"

definition second :: int where
  "second = 1000000000"

definition timedDirective :: "cache_control \<Rightarrow> string \<Rightarrow> int" where
  "timedDirective c key =
     (case map_of c key of
        None \<Rightarrow> - 1
      | Some t \<Rightarrow> (case Atoi t of (i, None) \<Rightarrow> i64 (i * second) | (i, Some e) \<Rightarrow> - 1))"

definition MaxAge :: "cache_control \<Rightarrow> int" where
  "MaxAge c = timedDirective c ''max-age''"

definition MinFresh :: "cache_control \<Rightarrow> int" where
  "MinFresh c = timedDirective c ''min-fresh''"

definition MaxStale :: "cache_control \<Rightarrow> int" where
  "MaxStale c =
     (case map_of c ''max-stale'' of
        None \<Rightarrow> - 1
      | Some t \<Rightarrow> if t = [] then 9223372036854775807
                  else (case Atoi t of (i, None) \<Rightarrow> i64 (i * second) | (i, Some e) \<Rightarrow> - 1))"

definition Cacheable :: "cache_control \<Rightarrow> bool" where
  "Cacheable c \<longleftrightarrow>
     (if has_directive c ''no-store'' then False
      else if has_directive c ''no-cache'' then False
      else if has_directive c ''private'' then False
      else if has_directive c ''must-revalidate'' then False
      else if has_directive c ''proxy-revalidate'' then False
      else if MaxAge c = - 1 then False
      else True)"

definition DefaultProtocolCacheTime :: int where
  "DefaultProtocolCacheTime = second * 300"

definition ParseCacheTime :: "(string \<Rightarrow> int option) \<Rightarrow> string \<Rightarrow> header \<Rightarrow> int \<times> bool" where
  "ParseCacheTime until withKey src =
     (let str = Get src withKey in
      if str \<noteq> [] then
        (let ct = fst (Atoi str) in
         if ct \<le> 0 then (0, False) else (i64 (ct * second), True))
      else
        (let hcc = Get src ''Cache-Control''; expire = Get src ''Expires'' in
         if hcc = [] \<and> expire = [] then (DefaultProtocolCacheTime, True)
         else
           (let ctrl = Parse_cc hcc in
            if 0 < MaxAge ctrl then (MaxAge ctrl, True)
            else (case (if expire \<noteq> [] then until expire else None) of
                    Some d \<Rightarrow> (d, True)
                  | None \<Rightarrow>
                      if \<not> Cacheable ctrl then (0, False)
                      else (DefaultProtocolCacheTime, True)))))"

subsection \<open>Printed directives are read back\<close>

type_synonym directive = "string \<times> string option"

fun render_directive :: "directive \<Rightarrow> string" where
  "render_directive (n, None) = n"
| "render_directive (n, Some v) = n @ CHR ''='' # v"

fun render_directives :: "directive list \<Rightarrow> string" where
  "render_directives [] = []"
| "render_directives [d] = render_directive d"
| "render_directives (d # ds) = render_directive d @ '', '' @ render_directives ds"

fun directive_value :: "directive \<Rightarrow> string \<times> string" where
  "directive_value (n, None) = (n, [])"
| "directive_value (n, Some v) = (n, v)"

text \<open>A directive as RFC 9111 writes it: a lower-case name and a token as its value.\<close>

fun good_directive :: "directive \<Rightarrow> bool" where
  "good_directive (n, vo) \<longleftrightarrow>
     n \<noteq> [] \<and> is_alpha (hd n) \<and> list_all name_char n \<and> ToLower n = n \<and>
     (case vo of None \<Rightarrow> True | Some v \<Rightarrow> list_all (\<lambda>c. plain c \<and> unquoted c) v)"

lemma name_char_separators [simp]:
  "\<not> name_char CHR '',''" "\<not> name_char CHR ''=''" "\<not> is_alpha CHR '',''" "\<not> is_alpha CHR '' ''"
  "\<not> re_space CHR '',''" "\<not> re_space CHR ''=''" "\<not> unquoted CHR '',''"
  by code_simp+

lemma not_name_char_eq: "list_all name_char n \<Longrightarrow> CHR ''='' \<notin> set n"
  by (auto simp: list_all_iff)

lemma rx_value_stop: "r = [] \<or> hd r = CHR '','' \<Longrightarrow> rx_value r = []"
  by (cases r) auto

lemma rx_value_token:
  assumes "list_all (\<lambda>c. plain c \<and> unquoted c) v" "r = [] \<or> hd r = CHR '',''"
  shows "rx_value (CHR ''='' # v @ r) = CHR ''='' # v"
proof -
  have tw: "takeWhile unquoted (v @ r) = v"
    using assms by (intro takeWhile_prefix) (auto simp: list_all_iff)
  have "v @ r = d # q \<Longrightarrow> d \<noteq> CHR 0x22" for d q
    using assms by (cases v) (auto simp: unquoted_def)
  then show ?thesis using tw by (cases "v @ r") auto
qed

lemma rx_match_directive:
  assumes "good_directive d" "r = [] \<or> hd r = CHR '',''"
  shows "rx_match (render_directive d @ r) = render_directive d"
proof (cases d)
  case (Pair n vo)
  have n: "list_all name_char n" using assms(1) Pair by simp
  show ?thesis
  proof (cases vo)
    case None
    have "takeWhile name_char (n @ r) = n"
      using n assms(2) by (intro takeWhile_prefix) auto
    moreover have "takeWhile re_space r = []" using assms(2) by (cases r) auto
    ultimately show ?thesis
      using assms(2) Pair None by (simp add: rx_match_def Let_def rx_value_stop)
  next
    case (Some v)
    then have v: "list_all (\<lambda>c. plain c \<and> unquoted c) v" using assms(1) Pair by simp
    have "takeWhile name_char (n @ CHR ''='' # v @ r) = n"
      using n by (intro takeWhile_prefix) auto
    then show ?thesis
      using rx_value_token [OF v assms(2)] Pair Some by (simp add: rx_match_def Let_def)
  qed
qed

lemma render_directive_alpha:
  "good_directive d \<Longrightarrow> \<exists>c cs. render_directive d = c # cs \<and> is_alpha c"
  by (cases d rule: render_directive.cases) (auto simp: neq_Nil_conv)

lemma FindAllString_step:
  assumes "good_directive d" "r = [] \<or> hd r = CHR '',''"
  shows "FindAllString (render_directive d @ r) = render_directive d # FindAllString r"
proof -
  obtain c cs where c: "render_directive d = c # cs" "is_alpha c"
    using render_directive_alpha [OF assms(1)] by blast
  have "rx_match (c # cs @ r) = c # cs"
    using rx_match_directive [OF assms] c(1) by simp
  then show ?thesis using c by (simp add: FindAllString.simps(2))
qed

lemma FindAllString_render:
  "list_all good_directive ds \<Longrightarrow> FindAllString (render_directives ds) = map render_directive ds"
proof (induction ds rule: render_directives.induct)
  case (2 d)
  then show ?case using FindAllString_step [of d "[]"] by simp
next
  case (3 d d' ds)
  then show ?case
    using FindAllString_step [of d "'', '' @ render_directives (d' # ds)"]
    by (simp add: FindAllString.simps(2))
qed simp

lemma TrimSpace_Nil [simp]: "TrimSpace [] = []"
  by (rule TrimSpace_plain) simp

lemma parse_match_directive:
  assumes "good_directive d"
  shows "parse_match (render_directive d) = directive_value d"
  using assms
proof (cases d rule: render_directive.cases)
  case (1 n)
  have "IndexByte n CHR ''='' = None" using assms 1 by (simp add: not_name_char_eq)
  with 1 assms show ?thesis by (simp add: parse_match_def del: IndexByte_None)
next
  case (2 n v)
  have "list_all plain v" using assms 2 by (auto simp: list_all_iff)
  then have "TrimSpace v = v"
    by (intro TrimSpace_plain) (cases v; auto simp: list_all_iff)
  moreover have "IndexByte (n @ CHR ''='' # v) CHR ''='' = Some (length n)"
    using assms 2 by (intro IndexByte_append) (simp add: not_name_char_eq)
  ultimately show ?thesis using assms 2 by (simp add: parse_match_def)
qed

lemma map_of_fold_update:
  "map_of (fold (\<lambda>(k, v). AList.update k v) ps al) k = (map_of al ++ map_of (rev ps)) k"
  by (induction ps arbitrary: al) (auto simp: update_conv' map_add_def split: option.splits)

lemma Parse_cc_render:
  assumes "list_all good_directive ds"
  shows "map_of (Parse_cc (render_directives ds)) = map_of (rev (map directive_value ds))"
proof -
  have "map parse_match (map render_directive ds) = map directive_value ds"
    using assms by (auto simp: list_all_iff parse_match_directive)
  moreover have "Parse_cc (render_directives ds) =
      fold (\<lambda>(k, v). AList.update k v) (map parse_match (map render_directive ds)) []"
    using assms by (simp add: Parse_cc_def FindAllString_render fold_map comp_def case_prod_beta')
  ultimately have "Parse_cc (render_directives ds) =
      fold (\<lambda>(k, v). AList.update k v) (map directive_value ds) []" by (simp only:)
  then show ?thesis by (simp only: map_of_fold_update fun_eq_iff) simp
qed

subsection \<open>Properties\<close>

definition forbidding :: "string list" where
  "forbidding = [''no-store'', ''no-cache'', ''private'', ''must-revalidate'', ''proxy-revalidate'']"

text \<open>The value of the last \<^verbatim>\<open>max-age\<close> directive of a list, and whether a list forbids storing.\<close>

definition last_max_age :: "directive list \<Rightarrow> string option" where
  "last_max_age ds = map_of (rev (map directive_value ds)) ''max-age''"

definition forbids :: "directive list \<Rightarrow> bool" where
  "forbids ds \<longleftrightarrow> (\<exists>d\<in>set ds. fst d \<in> set forbidding)"

lemma directive_value_fst [simp]: "fst (directive_value d) = fst d"
  by (cases d rule: directive_value.cases) auto

lemma Cacheable_render:
  assumes "list_all good_directive ds"
  shows "Cacheable (Parse_cc (render_directives ds)) \<longleftrightarrow>
    \<not> forbids ds \<and> MaxAge (Parse_cc (render_directives ds)) \<noteq> - 1"
proof -
  have has: "has_directive (Parse_cc (render_directives ds)) k \<longleftrightarrow> (\<exists>d\<in>set ds. fst d = k)" for k
    by (auto simp: has_directive_def Parse_cc_render [OF assms] map_of_eq_None_iff image_image image_iff)
  show ?thesis unfolding Cacheable_def has forbids_def forbidding_def by auto
qed

lemma MaxAge_render:
  assumes "list_all good_directive ds"
  shows "MaxAge (Parse_cc (render_directives ds)) =
    (case last_max_age ds of None \<Rightarrow> - 1
     | Some t \<Rightarrow> (case Atoi t of (i, None) \<Rightarrow> i64 (i * second) | (i, Some e) \<Rightarrow> - 1))"
  by (simp add: MaxAge_def timedDirective_def Parse_cc_render [OF assms] last_max_age_def)

lemma Get_single: "CanonicalMIMEHeaderKey k = k \<Longrightarrow> Get [(k, [v])] k = v"
  by (simp add: Get_def Values_def header_values_def)

lemma canonical_names [simp]:
  "CanonicalMIMEHeaderKey ''Cache-Control'' = ''Cache-Control''"
  "CanonicalMIMEHeaderKey ''Expires'' = ''Expires''"
  "CanonicalMIMEHeaderKey [] = []"
  by code_simp+

text \<open>C17: the freshness decision on a response whose only caching header is \<^verbatim>\<open>Cache-Control\<close>, for any
  well-formed non-empty list of directives: without \<^verbatim>\<open>max-age\<close> the response is not stored; with a
  positive \<^verbatim>\<open>max-age\<close> of at most 9223372036 seconds it is stored for that time whatever else the list
  says, \<^verbatim>\<open>no-store\<close> and \<^verbatim>\<open>private\<close> included; with \<^verbatim>\<open>max-age=0\<close> it is refused if the list forbids
  storing and kept for the default 300 seconds otherwise.\<close>

theorem ParseCacheTime_directives:
  assumes "list_all good_directive ds" "ds \<noteq> []"
    and "last_max_age ds = map_option FormatInt age" "\<forall>n\<in>set_option age. 0 \<le> n \<and> n \<le> 9223372036"
  shows "ParseCacheTime until [] [(''Cache-Control'', [render_directives ds])] =
    (case age of
       None \<Rightarrow> (0, False)
     | Some n \<Rightarrow> if 0 < n then (n * 1000000000, True)
                 else if forbids ds then (0, False) else (300000000000, True))"
proof -
  let ?h = "[(''Cache-Control'', [render_directives ds])]"
  have get: "Get ?h [] = []" "Get ?h ''Cache-Control'' = render_directives ds" "Get ?h ''Expires'' = []"
    by (simp_all add: Get_def Values_def header_values_def)
  have ne: "render_directives ds \<noteq> []"
    using assms(1,2) render_directive_alpha [of "hd ds"]
    by (cases ds rule: render_directives.cases) auto
  have age: "MaxAge (Parse_cc (render_directives ds)) =
      (case age of None \<Rightarrow> - 1 | Some n \<Rightarrow> n * 1000000000)"
    using assms(3,4)
    by (auto simp: MaxAge_render [OF assms(1)] Atoi_def ParseInt_FormatInt is_i64_def second_def i64_id
        split: option.splits)
  show ?thesis
    using assms(4) ne
    by (auto simp: ParseCacheTime_def get age Cacheable_render [OF assms(1)] Let_def
        DefaultProtocolCacheTime_def second_def split: option.splits)
qed

theorem ParseCacheTime_directives_witness:
  "ParseCacheTime (\<lambda>_. None) [] [(''Cache-Control'', [''no-store, max-age=60''])] = (60000000000, True)"
proof -
  let ?ds = "[(''no-store'', None), (''max-age'', Some ''60'')]"
  have "list_all good_directive ?ds" by code_simp
  moreover have "last_max_age ?ds = map_option FormatInt (Some 60)" by code_simp
  ultimately show ?thesis
    using ParseCacheTime_directives [of ?ds "Some 60" "\<lambda>_. None"] by simp
qed

end
