(* ===== verification/Vary_Control.thy ===== *)
theory Vary_Control
  imports Http_Header "HOL-Library.Char_ord" "HOL-Library.List_Lexorder" "HOL-Library.Multiset"
begin

text \<open>
  \<^verbatim>\<open>pkg/x/http/varycontrol/vary.go\<close>: the canonical list of header names of a \<^verbatim>\<open>Vary\<close> field and the
  string that identifies one variant of a resource.  \<^verbatim>\<open>sort.Strings\<close> is HOL's \<open>sort\<close> under the
  bytewise lexicographic order.
\<close>

type_synonym vary_key = "string list"

definition Key_String :: "vary_key \<Rightarrow> string" where
  "Key_String k = Join k '',''"

definition canonical :: "string \<Rightarrow> string list" where
  "canonical val =
     (let s = TrimSpace val in
      if s = [] \<or> s = '','' then []
      else filter (\<lambda>key. key \<noteq> []) (map TrimSpace (Split s CHR '','')))"

definition Append :: "vary_key \<Rightarrow> string \<Rightarrow> vary_key" where
  "Append k val =
     (let keys = canonical val in
      if 0 < length keys then (if val \<in> set k then k else k @ keys) else k)"

definition splitTrimSpace :: "string \<Rightarrow> string list" where
  "splitTrimSpace s = (if s = [] then [] else map TrimSpace (Split s CHR '',''))"

definition sortValue :: "string \<Rightarrow> string" where
  "sortValue val =
     (let val = TrimSpace val in
      if val = [] then [] else Join (sort (splitTrimSpace val)) '','')"

definition sortValues :: "string list \<Rightarrow> string" where
  "sortValues vals =
     (if length vals = 1 then sortValue (hd vals)
      else Join (sort (map sortValue vals)) '','')"

text \<open>The buffer of \<^verbatim>\<open>VaryData\<close>: a separator goes before every entry but the first one written.\<close>

definition write_entry :: "(string \<Rightarrow> string) \<Rightarrow> string \<Rightarrow> string \<Rightarrow> string" where
  "write_entry kv key buf =
     (if 0 < length buf then buf @ ''&'' else buf) @ key @ ''='' @ kv key"

definition VaryData :: "vary_key \<Rightarrow> header \<Rightarrow> string" where
  "VaryData k h =
     (if length k \<le> 0 then []
      else (let kv = (\<lambda>key. sortValues (Values h key));
                keys = sort (remdups k)
            in fold (write_entry kv) keys []))"

definition Key_Compare :: "vary_key \<Rightarrow> vary_key \<Rightarrow> bool" where
  "Key_Compare k k2 \<longleftrightarrow>
     (if length k \<noteq> length k2 then False else list_all (\<lambda>i. k ! i = k2 ! i) [0..<length k])"

definition Clean :: "string list \<Rightarrow> vary_key" where
  "Clean values = remdups_adj (sort (concat (map canonical values)))"

subsection \<open>Trimming is idempotent\<close>

lemma space_prefix_0:
  assumes "[] \<notin> set ps"
  shows "space_prefix ps s = 0 \<longleftrightarrow> (\<forall>p\<in>set ps. \<not> HasPrefix s p)"
proof (cases "filter (HasPrefix s) ps")
  case Nil
  then show ?thesis by (simp add: space_prefix_def filter_empty_conv)
next
  case (Cons p qs)
  then have "p \<in> set (filter (HasPrefix s) ps)" by simp
  then have "HasPrefix s p" "p \<in> set ps" by auto
  then show ?thesis using Cons assms by (auto simp: space_prefix_def)
qed

lemma trim_left_fix: "space_prefix ps (trim_left ps s) = 0"
proof (induction ps s rule: trim_left.induct)
  case (1 ps s)
  show ?case
  proof (cases "space_prefix ps s = 0")
    case True
    then show ?thesis by (simp add: trim_left.simps [of ps s])
  next
    case False
    then show ?thesis using 1 by (simp add: trim_left.simps [of ps s])
  qed
qed

lemma trim_left_suffix: "\<exists>n. trim_left ps s = drop n s"
proof (induction ps s rule: trim_left.induct)
  case (1 ps s)
  show ?case
  proof (cases "space_prefix ps s = 0")
    case True
    then have "trim_left ps s = drop 0 s" by (simp add: trim_left.simps [of ps s])
    then show ?thesis by blast
  next
    case False
    then obtain n where "trim_left ps (drop (space_prefix ps s) s) = drop n (drop (space_prefix ps s) s)"
      using 1 by auto
    then have "trim_left ps s = drop (n + space_prefix ps s) s"
      using False by (simp add: trim_left.simps [of ps s])
    then show ?thesis by blast
  qed
qed

lemma trim_left_id: "space_prefix ps s = 0 \<Longrightarrow> trim_left ps s = s"
  by (simp add: trim_left.simps)

definition trimmed :: "string \<Rightarrow> bool" where
  "trimmed s \<longleftrightarrow>
     (\<forall>p\<in>set space_seqs. \<not> HasPrefix s p) \<and> (\<forall>p\<in>set space_seqs. \<not> HasPrefix (rev s) (rev p))"

lemma space_seqs_no_Nil: "[] \<notin> set space_seqs" "[] \<notin> set (map rev space_seqs)"
  using space_seqs_nonempty by auto

lemma HasPrefix_take: "HasPrefix (take n s) p \<Longrightarrow> HasPrefix s p"
  unfolding HasPrefix_def by (metis append_take_drop_id append_eq_conv_conj take_take min.absorb_iff1 length_take min.cobounded1 take_all_iff)

lemma trimmed_TrimSpace: "trimmed (TrimSpace s)"
proof -
  let ?t = "trim_left space_seqs s" and ?r = "map rev space_seqs"
  have t: "\<forall>p\<in>set space_seqs. \<not> HasPrefix ?t p"
    using trim_left_fix [of space_seqs s] space_prefix_0 [OF space_seqs_no_Nil(1)] by blast
  obtain n where n: "trim_left ?r (rev ?t) = drop n (rev ?t)"
    using trim_left_suffix by blast
  have "TrimSpace s = take (length ?t - n) ?t"
    by (simp add: TrimSpace_def n drop_rev)
  then have "\<forall>p\<in>set space_seqs. \<not> HasPrefix (TrimSpace s) p"
    using t HasPrefix_take by metis
  moreover have "\<forall>p\<in>set ?r. \<not> HasPrefix (rev (TrimSpace s)) p"
    using trim_left_fix [of ?r "rev ?t"] space_prefix_0 [OF space_seqs_no_Nil(2)]
    by (simp add: TrimSpace_def)
  ultimately show ?thesis by (simp add: trimmed_def)
qed

lemma TrimSpace_trimmed: "trimmed s \<Longrightarrow> TrimSpace s = s"
  using space_prefix_0 [OF space_seqs_no_Nil(1), of s] space_prefix_0 [OF space_seqs_no_Nil(2), of "rev s"]
  by (simp add: TrimSpace_def trim_left_id trimmed_def)

subsection \<open>The canonical key list\<close>

definition good_key :: "string \<Rightarrow> bool" where
  "good_key key \<longleftrightarrow> key \<noteq> [] \<and> trimmed key \<and> CHR '','' \<notin> set key"

lemma set_trim_left: "set (trim_left ps s) \<subseteq> set s"
  using trim_left_suffix [of ps s] set_drop_subset by metis

lemma set_TrimSpace: "set (TrimSpace s) \<subseteq> set s"
  using set_trim_left [of "map rev space_seqs" "rev (trim_left space_seqs s)"] set_trim_left [of space_seqs s]
  by (auto simp: TrimSpace_def)

lemma canonical_good: "key \<in> set (canonical v) \<Longrightarrow> good_key key"
  using Split_parts [of _ "TrimSpace v" "CHR '',''"] set_TrimSpace trimmed_TrimSpace
  by (fastforce simp: canonical_def good_key_def Let_def split: if_splits)

lemma set_Clean: "set (Clean vs) = (\<Union>v\<in>set vs. set (canonical v))"
  by (simp add: Clean_def)

lemma distinct_remdups_adj_sorted: "sorted xs \<Longrightarrow> distinct (remdups_adj xs)"
  by (induction xs rule: remdups_adj.induct) (auto simp: order.antisym)

lemma sorted_remdups_adj_list: "sorted xs \<Longrightarrow> sorted (remdups_adj xs)"
  by (induction xs rule: remdups_adj.induct) auto

lemma sorted_distinct_Clean: "sorted (Clean vs)" "distinct (Clean vs)"
  by (simp_all add: Clean_def distinct_remdups_adj_sorted sorted_remdups_adj_list)

lemma HasPrefix_before_comma:
  assumes "HasPrefix (a @ c # r) p" "c \<notin> set p"
  shows "HasPrefix a p"
proof (cases "length p \<le> length a")
  case True
  then show ?thesis using assms(1) by (simp add: HasPrefix_def)
next
  case False
  then obtain n where "length p = length a + Suc n"
    by (metis add_Suc_right less_imp_Suc_add not_le_imp_less)
  then have "c \<in> set (take (length p) (a @ c # r))" by simp
  moreover have "take (length p) (a @ c # r) = p" using assms(1) by (simp only: HasPrefix_def)
  ultimately show ?thesis using assms(2) by (simp only:)
qed

lemma space_seqs_no_comma: "p \<in> set space_seqs \<Longrightarrow> CHR '','' \<notin> set p"
proof -
  have "list_all (\<lambda>p. CHR '','' \<notin> set p) space_seqs" by code_simp
  then show "p \<in> set space_seqs \<Longrightarrow> CHR '','' \<notin> set p" by (auto simp: list_all_iff)
qed

lemma trimmed_left_append:
  assumes "\<forall>p\<in>set space_seqs. \<not> HasPrefix a p"
  shows "\<forall>p\<in>set space_seqs. \<not> HasPrefix (a @ CHR '','' # r) p"
  using assms HasPrefix_before_comma space_seqs_no_comma by blast

lemma trimmed_right_append:
  assumes "\<forall>p\<in>set space_seqs. \<not> HasPrefix (rev z) (rev p)"
  shows "\<forall>p\<in>set space_seqs. \<not> HasPrefix (rev (x @ CHR '','' # z)) (rev p)"
  using assms HasPrefix_before_comma [of "rev z" "CHR '',''" "rev x"] space_seqs_no_comma by fastforce

lemma trimmed_Join:
  "ks \<noteq> [] \<Longrightarrow> \<forall>k\<in>set ks. trimmed k \<Longrightarrow> trimmed (Join ks '','')"
proof (induction ks rule: induct_list012)
  case (3 x y zs)
  then have "trimmed (Join (y # zs) '','')" "trimmed x" by auto
  then show ?case
    using trimmed_left_append [of x] trimmed_right_append [of "Join (y # zs) '',''" x]
    by (simp add: trimmed_def)
qed auto

lemma canonical_Join:
  assumes "\<forall>k\<in>set ks. good_key k"
  shows "canonical (Join ks '','') = ks"
proof (cases ks)
  case Nil
  then show ?thesis by (simp add: canonical_def TrimSpace_plain)
next
  case (Cons k ks')
  have trim: "TrimSpace (Join ks '','') = Join ks '',''"
    using assms Cons by (intro TrimSpace_trimmed trimmed_Join) (auto simp: good_key_def)
  have hd: "Join ks '','' \<noteq> [] \<and> Join ks '','' \<noteq> '',''"
    using assms Cons by (cases k; cases ks') (auto simp: good_key_def)
  have "map TrimSpace ks = ks" "filter (\<lambda>key. key \<noteq> []) ks = ks"
    using assms by (auto simp: good_key_def TrimSpace_trimmed map_idI filter_id_conv)
  moreover have "Split (Join ks '','') CHR '','' = ks"
    using assms Cons by (intro Split_Join) (auto simp: good_key_def)
  ultimately show ?thesis using trim hd by (simp add: canonical_def)
qed

lemma sort_remdups_adj_id: "sorted xs \<Longrightarrow> distinct xs \<Longrightarrow> remdups_adj (sort xs) = xs"
  by (simp add: sorted_sort_id remdups_adj_distinct)

subsection \<open>Properties\<close>

text \<open>the key list of a \<^verbatim>\<open>Vary\<close> field survives being printed and parsed again: cleaning the
  string of a cleaned key gives the same key.\<close>

theorem Clean_Key_String: "Clean [Key_String (Clean vs)] = Clean vs"
proof -
  have "canonical (Join (Clean vs) '','') = Clean vs"
    using canonical_good by (intro canonical_Join) (auto simp: set_Clean)
  then show ?thesis
    by (simp add: Key_String_def Clean_def [of "[_]"] sort_remdups_adj_id sorted_distinct_Clean)
qed

lemma sort_mset_eq: "mset xs = mset ys \<Longrightarrow> sort xs = sort (ys :: string list)"
  by (metis properties_for_sort mset_sort sorted_sort)

lemma sortValues_Join: "sortValues vals = Join (sort (map sortValue vals)) '',''"
  by (cases vals rule: remdups_adj.cases) (auto simp: sortValues_def)

text \<open>C18: the variant string does not depend on the order of the key list, on repeated keys, or on
  the order of a field's values: it is a function of the set of keys and, per key, of the
  multiset of normalised values.\<close>

theorem VaryData_order_independent:
  assumes "set k = set k'"
    and "\<forall>key\<in>set k. mset (map sortValue (Values h key)) = mset (map sortValue (Values h' key))"
  shows "VaryData k h = VaryData k' h'"
proof -
  have keys: "sort (remdups k) = sort (remdups k')"
    using assms(1) by (intro sort_mset_eq) (metis set_eq_iff_mset_remdups_eq)
  have "sortValues (Values h key) = sortValues (Values h' key)" if "key \<in> set k" for key
    using assms(2) that by (simp only: sortValues_Join) (metis sort_mset_eq)
  then have "fold (write_entry (\<lambda>key. sortValues (Values h key))) (sort (remdups k)) [] =
      fold (write_entry (\<lambda>key. sortValues (Values h' key))) (sort (remdups k)) []"
    by (intro fold_cong) (auto simp: write_entry_def fun_eq_iff)
  then show ?thesis using assms(1) keys by (auto simp: VaryData_def Let_def)
qed

lemma sortValue_token:
  assumes "list_all plain v" "CHR '','' \<notin> set v"
  shows "sortValue v = v"
proof -
  have "TrimSpace v = v"
    using assms(1) by (intro TrimSpace_plain) (cases v; auto simp: list_all_iff)
  then show ?thesis using assms(2) by (simp add: sortValue_def splitTrimSpace_def Split_none)
qed

lemma sort_two_keys: "sort (remdups [''A'', ''B'']) = [''A'', ''B'']"
  by (simp add: less_eq_char_def)

theorem VaryData_order_independent_witness:
  "VaryData [''B'', ''A''] [(''A'', [''x'', ''y'']), (''B'', [''1''])] =
   VaryData [''A'', ''B'', ''A''] [(''B'', [''1'']), (''A'', [''y'', ''x''])]"
proof (rule VaryData_order_independent)
  have "CanonicalMIMEHeaderKey ''A'' = ''A''" "CanonicalMIMEHeaderKey ''B'' = ''B''" by code_simp+
  then show "\<forall>key\<in>set [''B'', ''A''].
      mset (map sortValue (Values [(''A'', [''x'', ''y'']), (''B'', [''1''])] key)) =
      mset (map sortValue (Values [(''B'', [''1'']), (''A'', [''y'', ''x''])] key))"
    by (simp add: Values_def header_values_def)
qed auto


end
