(* ===== verification/Io_Readers.thy ===== *)
theory Io_Readers
  imports Tavern_Prelude
begin

text \<open>
  \<^verbatim>\<open>io.Reader\<close> values and the readers of \<^verbatim>\<open>pkg/iobuf\<close>: \<^verbatim>\<open>limit_reader.go\<close>, \<^verbatim>\<open>skip_reader.go\<close>,
  \<^verbatim>\<open>range_reader.go\<close>, \<^verbatim>\<open>part_reader.go\<close> and \<^verbatim>\<open>closer_reader.go\<close>.

  An interface value is a coinductive object: \<open>rd_read r k\<close> is what a \<^verbatim>\<open>Read\<close> with a buffer of \<open>k\<close>
  bytes returns (the bytes, the error, the object afterwards; \<open>None\<close> if the call never returns),
  \<open>rd_close\<close> the error of \<^verbatim>\<open>Close\<close>, \<open>rd_seek\<close> the effect of \<^verbatim>\<open>Seek(n, io.SeekCurrent)\<close> where the value
  is an \<^verbatim>\<open>io.Seeker\<close> and the call succeeds.
\<close>

named_theorems rd \<open>the methods of the readers\<close>

datatype go_err = EOF | ErrUnexpectedEOF | ErrShortWrite | ErrOther nat

type_synonym 's read_result = "(bytes \<times> go_err option \<times> 's) option"

codatatype rdr = Rdr
  (rd_read: "nat \<Rightarrow> (bytes \<times> go_err option \<times> rdr) option")
  (rd_close: "go_err option")
  (rd_seek: "int \<Rightarrow> rdr option")

text \<open>A struct with methods, as an interface value.\<close>

primcorec as_reader ::
  "('s \<Rightarrow> nat \<Rightarrow> 's read_result) \<Rightarrow> ('s \<Rightarrow> go_err option) \<Rightarrow> ('s \<Rightarrow> int \<Rightarrow> 's option) \<Rightarrow> 's \<Rightarrow> rdr" where
  "rd_read (as_reader step cls seek s) =
     (\<lambda>k. map_option (map_prod id (map_prod id (as_reader step cls seek))) (step s k))"
| "rd_close (as_reader step cls seek s) = cls s"
| "rd_seek (as_reader step cls seek s) = (\<lambda>n. map_option (as_reader step cls seek) (seek s n))"

abbreviation no_seek :: "'s \<Rightarrow> int \<Rightarrow> 's option" where
  "no_seek \<equiv> \<lambda>s n. None"

subsection \<open>What a reader delivers\<close>

text \<open>
  \<open>delivers r bs e\<close>: whatever positive buffer sizes the caller uses, \<open>r\<close> hands out exactly \<open>bs\<close>,
  possibly with finitely many empty reads, then the error \<open>e\<close>, possibly together with the last
  bytes; it never blocks for ever, and closing it succeeds.  After that it has \<open>ended\<close>: every
  further read returns no bytes and some error.
\<close>

coinductive ended :: "rdr \<Rightarrow> bool" where
  endedI: "rd_close r = None \<Longrightarrow>
    (\<And>k. 0 < k \<Longrightarrow> \<exists>err r'. rd_read r k = Some ([], Some err, r') \<and> ended r') \<Longrightarrow> ended r"

inductive_cases endedE: "ended r"

lemma ended_close: "ended r \<Longrightarrow> rd_close r = None"
  by (auto elim: endedE)

lemma ended_read:
  assumes "ended r" "0 < k"
  obtains err r' where "rd_read r k = Some ([], Some err, r')" "ended r'"
  using assms by (elim endedE) blast

inductive delivering :: "go_err \<Rightarrow> rdr \<Rightarrow> bytes \<Rightarrow> bool" for e where
  deliversI: "rd_close r = None \<Longrightarrow>
    (\<And>k. 0 < k \<Longrightarrow>
       (\<exists>xs r' bs'. rd_read r k = Some (xs, None, r') \<and> length xs \<le> k \<and> bs = xs @ bs' \<and> delivering e r' bs') \<or>
       (\<exists>r'. rd_read r k = Some (bs, Some e, r') \<and> length bs \<le> k \<and> ended r')) \<Longrightarrow>
    delivering e r bs"

abbreviation delivers :: "rdr \<Rightarrow> bytes \<Rightarrow> go_err \<Rightarrow> bool" where
  "delivers r bs e \<equiv> delivering e r bs"

inductive_cases deliversE: "delivers r bs e"

lemma delivers_close: "delivers r bs e \<Longrightarrow> rd_close r = None"
  by (auto elim: deliversE)

lemma delivers_read:
  assumes "delivers r bs e" "0 < k"
  obtains (more) xs r' bs' where "rd_read r k = Some (xs, None, r')" "length xs \<le> k"
      "bs = xs @ bs'" "delivers r' bs' e"
  | (last) r' where "rd_read r k = Some (bs, Some e, r')" "length bs \<le> k" "ended r'"
  using assms by (elim deliversE) blast

lemma delivers_induct [consumes 1, case_names step]:
  assumes "delivers r bs e"
    and step: "\<And>r bs. delivers r bs e \<Longrightarrow>
      (\<And>k. 0 < k \<Longrightarrow>
        (\<exists>xs r' bs'. rd_read r k = Some (xs, None, r') \<and> length xs \<le> k \<and> bs = xs @ bs' \<and>
           delivers r' bs' e \<and> P r' bs') \<or>
        (\<exists>r'. rd_read r k = Some (bs, Some e, r') \<and> length bs \<le> k \<and> ended r')) \<Longrightarrow> P r bs"
  shows "P r bs"
  using assms(1)
proof (induction rule: delivering.induct)
  case (deliversI r bs)
  show ?case
  proof (rule step)
    show "delivers r bs e"
      by (rule delivering.deliversI [OF deliversI(1)]) (use deliversI(2) in blast)
  qed (use deliversI(2) in blast)
qed

lemma as_reader_endedI:
  assumes "P s" and "\<And>s. P s \<Longrightarrow> cls s = None"
    and "\<And>s k. P s \<Longrightarrow> 0 < k \<Longrightarrow> \<exists>err s'. step s k = Some ([], Some err, s') \<and> P s'"
  shows "ended (as_reader step cls seek s)"
  using assms(1)
proof (coinduction arbitrary: s rule: ended.coinduct)
  case ended
  have "\<exists>err r'. rd_read (as_reader step cls seek s) k = Some ([], Some err, r') \<and>
      ((\<exists>s. r' = as_reader step cls seek s \<and> P s) \<or> ended r')" if "0 < k" for k
    using assms(3) [OF ended that] by auto
  then show ?case using assms(2) [OF ended] by simp
qed

text \<open>
  The contract of a reader implemented by a struct: from every state of its invariant a \<^verbatim>\<open>Read\<close>
  returns, hands out a prefix of what is left, and either ends there or moves down a
  well-founded order.
\<close>

locale reader_impl =
  fixes step :: "'s \<Rightarrow> nat \<Rightarrow> 's read_result"
    and cls :: "'s \<Rightarrow> go_err option"
    and seek :: "'s \<Rightarrow> int \<Rightarrow> 's option"
    and inv :: "'s \<Rightarrow> bytes \<Rightarrow> go_err \<Rightarrow> bool"
    and fin :: "'s \<Rightarrow> bool"
    and smaller :: "('s \<times> 's) set"
  assumes wf_smaller: "wf smaller"
    and closes: "inv s bs e \<Longrightarrow> cls s = None"
    and reads: "inv s bs e \<Longrightarrow> 0 < k \<Longrightarrow>
      \<exists>xs eo s'. step s k = Some (xs, eo, s') \<and> length xs \<le> k \<and>
        (eo = None \<and> (\<exists>bs'. bs = xs @ bs' \<and> inv s' bs' e \<and> (s', s) \<in> smaller) \<or>
         eo = Some e \<and> xs = bs \<and> fin s')"
    and ends: "fin s \<Longrightarrow> cls s = None"
      "fin s \<Longrightarrow> 0 < k \<Longrightarrow> \<exists>err s'. step s k = Some ([], Some err, s') \<and> fin s'"
begin

lemma as_reader_ended: "fin s \<Longrightarrow> ended (as_reader step cls seek s)"
  by (rule as_reader_endedI [where P = fin]) (use ends in auto)

lemma as_reader_delivers: "inv s bs e \<Longrightarrow> delivers (as_reader step cls seek s) bs e"
proof (induction s arbitrary: bs rule: wf_induct_rule [OF wf_smaller])
  case (1 s)
  show ?case
  proof (rule deliversI)
    show "rd_close (as_reader step cls seek s) = None" using closes [OF 1(2)] by simp
  next
    fix k :: nat
    assume "0 < k"
    from reads [OF 1(2) this] obtain xs eo s' where st: "step s k = Some (xs, eo, s')" "length xs \<le> k"
      and cs: "eo = None \<and> (\<exists>bs'. bs = xs @ bs' \<and> inv s' bs' e \<and> (s', s) \<in> smaller) \<or>
        eo = Some e \<and> xs = bs \<and> fin s'" by blast
    from cs show "(\<exists>xs r' bs'. rd_read (as_reader step cls seek s) k = Some (xs, None, r') \<and> length xs \<le> k \<and>
          bs = xs @ bs' \<and> delivers r' bs' e) \<or>
       (\<exists>r'. rd_read (as_reader step cls seek s) k = Some (bs, Some e, r') \<and> length bs \<le> k \<and> ended r')"
      using st 1(1) as_reader_ended by auto
  qed
qed

end

subsection \<open>An open file\<close>

text \<open>\<^verbatim>\<open>os.File\<close> opened for reading: the content and the offset.\<close>

record os_file =
  fl_data :: bytes
  fl_off :: nat

definition file_read :: "os_file \<Rightarrow> nat \<Rightarrow> os_file read_result" where
  "file_read f k =
     (let xs = take k (drop (fl_off f) (fl_data f)) in
      if xs = [] \<and> 0 < k then Some ([], Some EOF, f)
      else Some (xs, None, f\<lparr>fl_off := fl_off f + length xs\<rparr>))"

definition file_seek :: "os_file \<Rightarrow> int \<Rightarrow> os_file option" where
  "file_seek f n = (if 0 \<le> int (fl_off f) + n then Some (f\<lparr>fl_off := nat (int (fl_off f) + n)\<rparr>) else None)"

abbreviation file_close :: "os_file \<Rightarrow> go_err option" where
  "file_close \<equiv> \<lambda>_. None"

definition file_reader :: "os_file \<Rightarrow> rdr" where
  "file_reader f = as_reader file_read file_close file_seek f"

definition file_rest :: "os_file \<Rightarrow> bytes \<Rightarrow> go_err \<Rightarrow> bool" where
  "file_rest f bs e \<longleftrightarrow> bs = drop (fl_off f) (fl_data f) \<and> e = EOF"

definition file_done :: "os_file \<Rightarrow> bool" where
  "file_done f \<longleftrightarrow> length (fl_data f) \<le> fl_off f"

interpretation file_impl: reader_impl file_read file_close file_seek file_rest file_done
  "measure (\<lambda>f. length (fl_data f) - fl_off f)"
proof
  fix f bs e and k :: nat
  assume f: "file_rest f bs e" and k: "0 < k"
  let ?xs = "take k (drop (fl_off f) (fl_data f))"
  show "\<exists>xs eo s'. file_read f k = Some (xs, eo, s') \<and> length xs \<le> k \<and>
      (eo = None \<and> (\<exists>bs'. bs = xs @ bs' \<and> file_rest s' bs' e \<and>
          (s', f) \<in> measure (\<lambda>f. length (fl_data f) - fl_off f)) \<or>
       eo = Some e \<and> xs = bs \<and> file_done s')"
  proof (cases "?xs = []")
    case True
    then show ?thesis using f k by (auto simp: file_read_def file_rest_def file_done_def Let_def)
  next
    case False
    let ?s = "f\<lparr>fl_off := fl_off f + length ?xs\<rparr>"
    have st: "file_read f k = Some (?xs, None, ?s)" using False by (simp add: file_read_def Let_def)
    have "bs = ?xs @ drop (length ?xs) bs"
      using f take_append_drop_length [of k bs] by (simp only: file_rest_def)
    moreover have "file_rest ?s (drop (length ?xs) bs) e"
      using f by (simp add: file_rest_def add.commute)
    moreover have "(?s, f) \<in> measure (\<lambda>f. length (fl_data f) - fl_off f)"
      using False k by auto
    ultimately show ?thesis using st by (intro exI [of _ ?xs] exI [of _ None] exI [of _ ?s]) auto
  qed
qed (auto simp: file_rest_def file_done_def file_read_def Let_def)

lemma file_reader_delivers: "delivers (file_reader f) (drop (fl_off f) (fl_data f)) EOF"
  unfolding file_reader_def by (rule file_impl.as_reader_delivers) (simp add: file_rest_def)

subsection \<open>io.CopyN to io.Discard\<close>

text \<open>
  The loop of \<^verbatim>\<open>io.Discard.ReadFrom\<close> over an \<^verbatim>\<open>io.LimitedReader\<close>: buffers of 8192 bytes, \<open>n\<close> bytes
  still allowed, \<open>acc\<close> discarded so far.  \<open>None\<close> is a loop that never ends.
\<close>

partial_function (option) discard_loop :: "rdr \<Rightarrow> int \<Rightarrow> int \<Rightarrow> (int \<times> go_err option \<times> rdr) option" where
  "discard_loop r n acc =
     (if n \<le> 0 then Some (acc, None, r)
      else Option.bind (rd_read r (min 8192 (nat n))) (\<lambda>(xs, e, r').
        (case e of
           None \<Rightarrow> discard_loop r' (n - int (length xs)) (acc + int (length xs))
         | Some err \<Rightarrow> Some (acc + int (length xs), if err = EOF then None else Some err, r'))))"

definition CopyN_Discard :: "rdr \<Rightarrow> int \<Rightarrow> (int \<times> go_err option \<times> rdr) option" where
  "CopyN_Discard r n =
     (case discard_loop r n 0 of
        None \<Rightarrow> None
      | Some (written, err, r') \<Rightarrow>
          if written = n then Some (n, None, r')
          else if written < n \<and> err = None then Some (written, Some EOF, r')
          else Some (written, err, r'))"

lemma discard_loop_done [rd]: "n \<le> 0 \<Longrightarrow> discard_loop r n acc = Some (acc, None, r)"
  by (subst discard_loop.simps) simp

lemma discard_loop_more [rd]:
  "0 < n \<Longrightarrow> rd_read r (min 8192 (nat n)) = Some (xs, None, r') \<Longrightarrow>
   discard_loop r n acc = discard_loop r' (n - int (length xs)) (acc + int (length xs))"
  by (subst discard_loop.simps) simp

lemma discard_loop_end [rd]:
  "0 < n \<Longrightarrow> rd_read r (min 8192 (nat n)) = Some (xs, Some err, r') \<Longrightarrow>
   discard_loop r n acc = Some (acc + int (length xs), if err = EOF then None else Some err, r')"
  by (subst discard_loop.simps) simp

text \<open>Discarding fewer bytes than are left leaves exactly the rest.\<close>

lemma discard_loop_delivers:
  assumes "delivers r bs e"
  shows "n < int (length bs) \<longrightarrow>
    (\<exists>r'. discard_loop r n acc = Some (acc + max 0 n, None, r') \<and> delivers r' (drop (nat n) bs) e)"
  using assms
proof (induction arbitrary: n acc rule: delivers_induct)
  case (step r bs)
  show ?case
  proof (intro impI)
    assume n: "n < int (length bs)"
    show "\<exists>r'. discard_loop r n acc = Some (acc + max 0 n, None, r') \<and> delivers r' (drop (nat n) bs) e"
    proof (cases "n \<le> 0")
      case True
      then show ?thesis using step(1) by (simp add: discard_loop_done)
    next
      case False
      let ?k = "min 8192 (nat n)"
      have "0 < ?k" using False by simp
      from step(2) [OF this] obtain xs r' bs' where st: "rd_read r ?k = Some (xs, None, r')"
        "length xs \<le> ?k" "bs = xs @ bs'"
        and IH: "\<And>n acc. n < int (length bs') \<longrightarrow> (\<exists>r''. discard_loop r' n acc = Some (acc + max 0 n, None, r'') \<and>
             delivers r'' (drop (nat n) bs') e)"
        using n False by force
      have m: "n - int (length xs) < int (length bs')" "0 \<le> n - int (length xs)"
        using n st(2,3) False by auto
      have "drop (nat n) bs = drop (nat (n - int (length xs))) bs'"
      proof -
        have "nat (n - int (length xs)) = nat n - length xs" by arith
        then show ?thesis using st(2,3) by simp
      qed
      then show ?thesis
        using IH [of "n - int (length xs)" "acc + int (length xs)"] discard_loop_more [OF _ st(1), of acc] False m
        by simp
    qed
  qed
qed

text \<open>Discarding always returns, from a reader that is delivering or has ended.\<close>

definition alive :: "rdr \<Rightarrow> bool" where
  "alive r \<longleftrightarrow> (\<exists>bs e. delivers r bs e) \<or> ended r"

lemma alive_close: "alive r \<Longrightarrow> rd_close r = None"
  by (auto simp: alive_def delivers_close ended_close)

lemma alive_read:
  assumes "alive r" "0 < k"
  obtains xs eo r' where "rd_read r k = Some (xs, eo, r')" "length xs \<le> k" "alive r'"
proof -
  consider bs e where "delivers r bs e" | "ended r" using assms(1) by (auto simp: alive_def)
  then show thesis
  proof cases
    case 1
    then show thesis by (rule delivers_read [OF _ assms(2)]) (use that in \<open>auto simp: alive_def\<close>)
  next
    case 2
    then show thesis by (rule ended_read [OF _ assms(2)]) (use that in \<open>auto simp: alive_def\<close>)
  qed
qed

lemma discard_loop_returns:
  assumes "alive r"
  shows "\<exists>w eo r'. discard_loop r n acc = Some (w, eo, r') \<and> alive r' \<and> acc \<le> w"
proof (cases "n \<le> 0")
  case True
  then show ?thesis using assms by (simp add: discard_loop_done)
next
  case False
  then have n: "0 < n" "0 < min 8192 (nat n)" by simp_all
  consider bs e where "delivers r bs e" | "ended r" using assms(1) by (auto simp: alive_def)
  then show ?thesis
  proof cases
    case 1
    then show ?thesis
    proof (induction arbitrary: n acc rule: delivers_induct)
      case (step r bs)
      show ?case
      proof (cases "n \<le> 0")
        case True
        then show ?thesis using step(1) by (auto simp: discard_loop_done alive_def)
      next
        case False
        then have n: "0 < n" "0 < min 8192 (nat n)" by simp_all
        from step(2) [OF n(2)] show ?thesis
        proof (elim disjE exE conjE)
          fix r'
          assume "rd_read r (min 8192 (nat n)) = Some (bs, Some e, r')" "ended r'"
          then show ?thesis using discard_loop_end [OF n(1)] by (simp add: alive_def)
        next
          fix xs r' bs'
          assume st: "rd_read r (min 8192 (nat n)) = Some (xs, None, r')"
            and IH: "\<forall>n acc. \<exists>w eo r''. discard_loop r' n acc = Some (w, eo, r'') \<and> alive r'' \<and> acc \<le> w"
          then show ?thesis
            using discard_loop_more [OF n(1) st, of acc] IH [rule_format, of "n - int (length xs)" "acc + int (length xs)"]
            by fastforce
        qed
      qed
    qed
  next
    case 2
    then show ?thesis
      by (rule ended_read [OF _ n(2)]) (use discard_loop_end [OF n(1)] in \<open>auto simp: alive_def\<close>)
  qed
qed

lemma CopyN_Discard_delivers:
  assumes "delivers r bs e" "0 \<le> n" "n < int (length bs)"
  shows "\<exists>r'. CopyN_Discard r n = Some (n, None, r') \<and> delivers r' (drop (nat n) bs) e"
  using discard_loop_delivers [OF assms(1), of n 0] assms(2,3) by (auto simp: CopyN_Discard_def)

lemma CopyN_Discard_returns:
  assumes "alive r" "0 \<le> n"
  shows "\<exists>w eo r'. CopyN_Discard r n = Some (w, eo, r') \<and> alive r' \<and> 0 \<le> w"
  using discard_loop_returns [OF assms(1), of n 0] assms(2) by (auto simp: CopyN_Discard_def)

subsection \<open>limit\_reader.go\<close>

text \<open>\<^verbatim>\<open>lim_N\<close> is the counter of the embedded \<^verbatim>\<open>io.LimitedReader\<close>.\<close>

record limitedReadCloser =
  lim_R :: rdr
  lim_max :: int
  lim_N :: int
  lim_n :: int

definition limited_Read :: "limitedReadCloser \<Rightarrow> nat \<Rightarrow> limitedReadCloser read_result" where
  "limited_Read l k =
     (if lim_N l \<le> 0 then Some ([], Some EOF, l)
      else
        (let k' = (if lim_N l < int k then nat (lim_N l) else k) in
         case rd_read (lim_R l) k' of
           None \<Rightarrow> None
         | Some (xs, e, r') \<Rightarrow>
             Some (xs, e, l\<lparr>lim_R := r', lim_N := lim_N l - int (length xs), lim_n := lim_n l + int (length xs)\<rparr>)))"

definition limited_Close :: "limitedReadCloser \<Rightarrow> go_err option" where
  "limited_Close l = rd_close (lim_R l)"

definition LimitReadCloser :: "rdr \<Rightarrow> int \<Rightarrow> rdr" where
  "LimitReadCloser readCloser mx = as_reader limited_Read limited_Close no_seek
     \<lparr>lim_R = readCloser, lim_max = mx, lim_N = mx, lim_n = 0\<rparr>"

subsection \<open>skip\_reader.go\<close>

record skipReadCloser =
  sk_R :: rdr
  sk_skip :: int

definition skip_Read :: "skipReadCloser \<Rightarrow> nat \<Rightarrow> skipReadCloser read_result" where
  "skip_Read r k =
     (let delegate = (\<lambda>r. case rd_read (sk_R r) k of
            None \<Rightarrow> None | Some (xs, e, r') \<Rightarrow> Some (xs, e, r\<lparr>sk_R := r'\<rparr>))
      in if 0 < sk_skip r then
           (case CopyN_Discard (sk_R r) (sk_skip r) of
              None \<Rightarrow> None
            | Some (n, Some err, r') \<Rightarrow> Some ([], Some err, r\<lparr>sk_R := r', sk_skip := sk_skip r - n\<rparr>)
            | Some (n, None, r') \<Rightarrow> delegate (r\<lparr>sk_R := r', sk_skip := 0\<rparr>))
         else delegate r)"

definition skip_Close :: "skipReadCloser \<Rightarrow> go_err option" where
  "skip_Close r = rd_close (sk_R r)"

definition SkipReadCloser :: "rdr \<Rightarrow> int \<Rightarrow> rdr" where
  "SkipReadCloser R skip =
     (case rd_seek R skip of
        Some R' \<Rightarrow> R'
      | None \<Rightarrow> as_reader skip_Read skip_Close no_seek \<lparr>sk_R = R, sk_skip = skip\<rparr>)"

subsection \<open>range\_reader.go\<close>

record rangeReader =
  rr_R :: rdr
  rr_newStart :: int
  rr_newEnd :: int
  rr_rawStart :: int
  rr_rawEnd :: int
  rr_offset :: int

text \<open>
  The method as written: the buffer's content, the returned count (which may be negative on a
  call after the end) and the error.
\<close>

definition range_Read :: "rangeReader \<Rightarrow> nat \<Rightarrow> (bytes \<times> int \<times> go_err option \<times> rangeReader) option" where
  "range_Read r0 k =
     (let body = (\<lambda>r.
        (case rd_read (rr_R r) k of
           None \<Rightarrow> None
         | Some (xs, e, r') \<Rightarrow>
             (let n = int (length xs); r = r\<lparr>rr_R := r'\<rparr>; cur = rr_offset r + n in
              if rr_rawEnd r < cur then
                (let remaining = rr_rawEnd r - rr_offset r + 1;
                     discardSize = min (rr_newEnd r) (rr_newEnd r - cur + 1)
                 in if 0 < discardSize then
                      (case CopyN_Discard r' discardSize of
                         None \<Rightarrow> None
                       | Some (skipN, _, r'') \<Rightarrow>
                           Some (xs, remaining, Some EOF, r\<lparr>rr_R := r'', rr_offset := rr_offset r + skipN + n\<rparr>))
                    else Some (xs, remaining, Some EOF, r\<lparr>rr_offset := rr_offset r + (n + discardSize)\<rparr>))
              else Some (xs, n, e, r\<lparr>rr_offset := rr_offset r + n\<rparr>))))
      in if rr_offset r0 < rr_rawStart r0 then
           (case CopyN_Discard (rr_R r0) (rr_rawStart r0 - rr_offset r0) of
              None \<Rightarrow> None
            | Some (skipN, Some err, r') \<Rightarrow> Some ([], 0, Some err, r0\<lparr>rr_R := r'\<rparr>)
            | Some (skipN, None, r') \<Rightarrow> body (r0\<lparr>rr_R := r', rr_offset := rr_offset r0 + skipN\<rparr>))
         else body r0)"

definition range_step :: "rangeReader \<Rightarrow> nat \<Rightarrow> rangeReader read_result" where
  "range_step r k =
     (case range_Read r k of None \<Rightarrow> None | Some (buf, n, e, r') \<Rightarrow> Some (take (nat n) buf, e, r'))"

definition range_Close :: "rangeReader \<Rightarrow> go_err option" where
  "range_Close r = rd_close (rr_R r)"

definition RangeReader :: "rdr \<Rightarrow> int \<Rightarrow> int \<Rightarrow> int \<Rightarrow> int \<Rightarrow> rdr" where
  "RangeReader r newStart newEnd rawStart rawEnd = as_reader range_step range_Close no_seek
     \<lparr>rr_R = r, rr_newStart = newStart, rr_newEnd = newEnd, rr_rawStart = rawStart, rr_rawEnd = rawEnd,
      rr_offset = newStart\<rparr>"

subsection \<open>part\_reader.go and closer\_reader.go\<close>

text \<open>\<open>pt_closed\<close> records the indices of the parts closed so far, in order.\<close>

record partsReader =
  pt_R :: "rdr list"
  pt_closer :: "go_err option option"
  pt_index :: nat
  pt_closed :: "nat list"

definition parts_Read :: "partsReader \<Rightarrow> nat \<Rightarrow> partsReader read_result" where
  "parts_Read r k =
     (if pt_index r = length (pt_R r) then Some ([], Some EOF, r)
      else
        (case rd_read (pt_R r ! pt_index r) k of
           None \<Rightarrow> None
         | Some (xs, e, r') \<Rightarrow>
             (let i = pt_index r; st = r\<lparr>pt_R := (pt_R r)[i := r']\<rparr> in
              case e of
                None \<Rightarrow> Some (xs, None, st)
              | Some err \<Rightarrow>
                  if err \<noteq> EOF then Some (xs, Some err, st)
                  else
                    (let st = st\<lparr>pt_index := i + 1, pt_closed := pt_closed r @ [i]\<rparr> in
                     case rd_close r' of
                       Some closeErr \<Rightarrow> Some (xs, Some closeErr, st)
                     | None \<Rightarrow> Some (xs, if i + 1 \<noteq> length (pt_R r) then None else Some EOF, st)))))"

text \<open>\<^verbatim>\<open>Close\<close>: every part not closed yet, then the optional closer; the list of errors it joins.\<close>

definition parts_Close :: "partsReader \<Rightarrow> go_err list \<times> partsReader" where
  "parts_Close r =
     (let rest = [pt_index r..<length (pt_R r)];
          errs = List.map_filter (\<lambda>i. rd_close (pt_R r ! i)) rest;
          errs = errs @ (case pt_closer r of Some (Some err) \<Rightarrow> [err] | _ \<Rightarrow> [])
      in (errs, r\<lparr>pt_index := max (pt_index r) (length (pt_R r)), pt_closed := pt_closed r @ rest\<rparr>))"

definition parts_close_err :: "partsReader \<Rightarrow> go_err option" where
  "parts_close_err r = (case fst (parts_Close r) of [] \<Rightarrow> None | e # _ \<Rightarrow> Some e)"

definition NopCloser :: "go_err option" where
  "NopCloser = None"

definition parts_init :: "go_err option option \<Rightarrow> rdr list \<Rightarrow> partsReader" where
  "parts_init optionalCloser readers =
     \<lparr>pt_R = readers, pt_closer = optionalCloser, pt_index = 0, pt_closed = []\<rparr>"

definition PartsReadCloser :: "go_err option option \<Rightarrow> rdr list \<Rightarrow> rdr option" where
  "PartsReadCloser optionalCloser readers =
     (if length readers \<le> 0 then None
      else Some (as_reader parts_Read parts_close_err no_seek (parts_init optionalCloser readers)))"

subsection \<open>io.Copy and WriteTo\<close>

text \<open>
  A writer is a function from its state and the bytes to the count, the error and the new state.
  \<^verbatim>\<open>io.Copy\<close> between a plain reader and a plain writer uses a buffer of 32768 bytes.
\<close>

type_synonym 'w writer = "'w \<Rightarrow> bytes \<Rightarrow> int \<times> go_err option \<times> 'w"

definition copy_write :: "'w writer \<Rightarrow> 'w \<Rightarrow> bytes \<Rightarrow> int \<times> go_err option \<times> 'w" where
  "copy_write wr w xs =
     (let nr = int (length xs); (nw, ew, w') = wr w xs;
          (nw, ew) = (if nw < 0 \<or> nr < nw then (0, if ew = None then Some (ErrOther 0) else ew) else (nw, ew))
      in (nw, if ew \<noteq> None then ew else if nr \<noteq> nw then Some ErrShortWrite else None, w'))"

partial_function (option) copy_loop ::
  "'w writer \<Rightarrow> rdr \<Rightarrow> 'w \<Rightarrow> int \<Rightarrow> (int \<times> go_err option \<times> rdr \<times> 'w) option" where
  "copy_loop wr r w written =
     Option.bind (rd_read r 32768) (\<lambda>(xs, er, r').
       (case (if xs = [] then (0, None, w) else copy_write wr w xs) of
          (nw, Some ew, w') \<Rightarrow> Some (written + nw, Some ew, r', w')
        | (nw, None, w') \<Rightarrow>
            (case er of
               None \<Rightarrow> copy_loop wr r' w' (written + nw)
             | Some err \<Rightarrow> Some (written + nw, if err = EOF then None else Some err, r', w'))))"

fun write_parts ::
  "'w writer \<Rightarrow> nat \<Rightarrow> nat \<Rightarrow> rdr list \<Rightarrow> 'w \<Rightarrow> int \<Rightarrow> go_err option \<Rightarrow> (int \<times> go_err option \<times> nat \<times> 'w) option" where
  "write_parts wr len i [] w n err = Some (n, err, i, w)"
| "write_parts wr len i (reader # rs) w n err =
     (case copy_loop wr reader w 0 of
        None \<Rightarrow> None
      | Some (nn, err, r', w') \<Rightarrow>
          (case rd_close r' of
             Some closeErr \<Rightarrow> Some (n + nn, Some closeErr, i + 1, w')
           | None \<Rightarrow>
               (case err of
                  Some e \<Rightarrow> Some (n + nn, Some e, i + 1, w')
                | None \<Rightarrow> write_parts wr len (i + 1) rs w' (n + nn) (if i + 1 = len then Some EOF else None))))"

definition parts_WriteTo :: "partsReader \<Rightarrow> 'w writer \<Rightarrow> 'w \<Rightarrow> (int \<times> go_err option \<times> nat \<times> 'w) option" where
  "parts_WriteTo r wr w =
     (if pt_index r = length (pt_R r) then Some (0, None, pt_index r, w)
      else write_parts wr (length (pt_R r)) (pt_index r) (drop (pt_index r) (pt_R r)) w 0 None)"

definition limited_WriteTo ::
  "limitedReadCloser \<Rightarrow> 'w writer \<Rightarrow> 'w \<Rightarrow> (int \<times> go_err option \<times> int \<times> rdr \<times> 'w) option" where
  "limited_WriteTo l wr w =
     (case copy_loop wr (as_reader limited_Read limited_Close no_seek l) w 0 of
        None \<Rightarrow> None
      | Some (n, err, r', w') \<Rightarrow> Some (n, err, lim_n l + n, r', w'))"

text \<open>A writer that takes everything, such as a \<^verbatim>\<open>bytes.Buffer\<close>.\<close>

definition buffer_write :: "bytes writer" where
  "buffer_write w xs = (int (length xs), None, w @ xs)"

lemma copy_write_buffer [simp]: "copy_write buffer_write w xs = (int (length xs), None, w @ xs)"
  by (simp add: copy_write_def buffer_write_def)

lemma copy_loop_buffer:
  assumes "delivers r bs e"
  shows "\<exists>r'. copy_loop buffer_write r w n =
      Some (n + int (length bs), if e = EOF then None else Some e, r', w @ bs) \<and> ended r'"
  using assms
proof (induction arbitrary: w n rule: delivers_induct)
  case (step r bs)
  have "(0 :: nat) < 32768" by simp
  from step(2) [OF this] show ?case
  proof (elim disjE exE conjE)
    fix xs r' bs'
    assume st: "rd_read r 32768 = Some (xs, None, r')" "bs = xs @ bs'"
      and IH: "\<forall>w n. \<exists>r''. copy_loop buffer_write r' w n =
        Some (n + int (length bs'), if e = EOF then None else Some e, r'', w @ bs') \<and> ended r''"
    have "copy_loop buffer_write r w n = copy_loop buffer_write r' (w @ xs) (n + int (length xs))"
      by (subst copy_loop.simps) (simp add: st(1))
    then show ?thesis using IH [rule_format, of "w @ xs" "n + int (length xs)"] st(2) by (auto simp: add.assoc)
  next
    fix r'
    assume "rd_read r 32768 = Some (bs, Some e, r')" "ended r'"
    then show ?thesis by (subst copy_loop.simps) simp
  qed
qed

lemma write_parts_buffer:
  assumes "list_all2 (\<lambda>r bs. delivers r bs EOF) rs bss" "i + length rs = len"
  shows "write_parts buffer_write len i rs w n err =
    Some (n + int (length (concat bss)), if rs = [] then err else Some EOF, len, w @ concat bss)"
  using assms
proof (induction rs bss arbitrary: i w n err rule: list_all2_induct)
  case (Cons r rs bs bss)
  obtain r' where r': "copy_loop buffer_write r w 0 = Some (int (length bs), None, r', w @ bs)" "ended r'"
    using copy_loop_buffer [OF Cons(1), of w 0] by auto
  show ?case
    using Cons.IH [of "i + 1" "w @ bs" "n + int (length bs)"] Cons.prems r' ended_close [OF r'(2)]
    by (auto simp: add.assoc)
qed simp

subsection \<open>What the readers deliver\<close>

lemma limited_ended:
  assumes "ended (lim_R l) \<or> lim_N l \<le> 0 \<and> rd_close (lim_R l) = None"
  shows "ended (as_reader limited_Read limited_Close no_seek l)"
proof (rule as_reader_endedI [where P = "\<lambda>l. ended (lim_R l) \<or> lim_N l \<le> 0 \<and> rd_close (lim_R l) = None"])
  fix l :: limitedReadCloser and k :: nat
  assume ended: "ended (lim_R l) \<or> lim_N l \<le> 0 \<and> rd_close (lim_R l) = None" and k: "0 < k"
  show "\<exists>err l'. limited_Read l k = Some ([], Some err, l') \<and>
      (ended (lim_R l') \<or> lim_N l' \<le> 0 \<and> rd_close (lim_R l') = None)"
  proof (cases "lim_N l \<le> 0")
    case True
    then show ?thesis using ended by (simp add: limited_Read_def)
  next
    case False
    let ?k = "if lim_N l < int k then nat (lim_N l) else k"
    have "0 < ?k" using False k by simp
    moreover have "ended (lim_R l)" using ended False by simp
    ultimately obtain err r' where "rd_read (lim_R l) ?k = Some ([], Some err, r')" "ended r'"
      using ended_read by blast
    then show ?thesis using False by (simp add: limited_Read_def Let_def)
  qed
qed (use assms ended_close in \<open>auto simp: limited_Close_def\<close>)

lemma limited_delivers_aux:
  assumes "delivers r bs e"
  shows "lim_R l = r \<longrightarrow> 0 \<le> lim_N l \<longrightarrow> lim_N l < int (length bs) \<or> e = EOF \<longrightarrow>
    delivers (as_reader limited_Read limited_Close no_seek l) (take (nat (lim_N l)) bs) EOF"
  using assms
proof (induction arbitrary: l rule: delivers_induct)
  case (step r bs)
  show ?case
  proof (intro impI deliversI)
    assume l: "lim_R l = r" "0 \<le> lim_N l" "lim_N l < int (length bs) \<or> e = EOF"
    show "rd_close (as_reader limited_Read limited_Close no_seek l) = None"
      using delivers_close [OF step(1)] l(1) by (simp add: limited_Close_def)
    fix k :: nat
    assume k: "0 < k"
    let ?rd = "rd_read (as_reader limited_Read limited_Close no_seek l) k" and ?t = "take (nat (lim_N l)) bs"
    show "(\<exists>xs r' bs'. ?rd = Some (xs, None, r') \<and> length xs \<le> k \<and> ?t = xs @ bs' \<and> delivers r' bs' EOF) \<or>
       (\<exists>r'. ?rd = Some (?t, Some EOF, r') \<and> length ?t \<le> k \<and> ended r')"
    proof (cases "lim_N l \<le> 0")
      case True
      then have "ended (as_reader limited_Read limited_Close no_seek l)"
        using delivers_close [OF step(1)] l(1) by (intro limited_ended) simp
      then show ?thesis using True by (simp add: limited_Read_def)
    next
      case False
      let ?k = "if lim_N l < int k then nat (lim_N l) else k"
      have kk: "0 < ?k" "?k \<le> k" "int ?k \<le> lim_N l" using False k by auto
      from step(2) [OF kk(1)] show ?thesis
      proof (elim disjE exE conjE)
        fix xs r' bs'
        assume st: "rd_read r ?k = Some (xs, None, r')" "length xs \<le> ?k" "bs = xs @ bs'"
          and IH: "\<forall>l. lim_R l = r' \<longrightarrow> 0 \<le> lim_N l \<longrightarrow> lim_N l < int (length bs') \<or> e = EOF \<longrightarrow>
            delivers (as_reader limited_Read limited_Close no_seek l) (take (nat (lim_N l)) bs') EOF"
        let ?l = "l\<lparr>lim_R := r', lim_N := lim_N l - int (length xs), lim_n := lim_n l + int (length xs)\<rparr>"
        have len: "int (length xs) \<le> lim_N l" "length xs \<le> k" using st(2) kk by linarith+
        have rd: "?rd = Some (xs, None, as_reader limited_Read limited_Close no_seek ?l)"
          using st(1) l(1) False by (simp add: limited_Read_def Let_def)
        have "delivers (as_reader limited_Read limited_Close no_seek ?l) (take (nat (lim_N ?l)) bs') EOF"
          using IH [rule_format, of ?l] l st(3) len by auto
        moreover have "?t = xs @ take (nat (lim_N ?l)) bs'"
        proof -
          have "nat (lim_N l) - length xs = nat (lim_N l - int (length xs))" by arith
          then show ?thesis using st(3) len by simp
        qed
        ultimately show ?thesis using rd len(2) by blast
      next
        fix r'
        assume st: "rd_read r ?k = Some (bs, Some e, r')" "length bs \<le> ?k" "ended r'"
        then have "e = EOF" "?t = bs" "length bs \<le> k" using l(3) kk by auto
        then show ?thesis
          using st l(1) False by (simp add: limited_Read_def Let_def limited_ended)
      qed
    qed
  qed
qed

lemma LimitReadCloser_delivers_lemma:
  assumes "delivers r bs e" "0 \<le> n" "n < int (length bs) \<or> e = EOF"
  shows "delivers (LimitReadCloser r n) (take (nat n) bs) EOF"
  using limited_delivers_aux [OF assms(1), of "\<lparr>lim_R = r, lim_max = n, lim_N = n, lim_n = 0\<rparr>"] assms(2,3)
  by (simp add: LimitReadCloser_def)

lemma skip_ended:
  assumes "ended (sk_R s) \<and> sk_skip s \<le> 0"
  shows "ended (as_reader skip_Read skip_Close no_seek s)"
proof (rule as_reader_endedI [where P = "\<lambda>s. ended (sk_R s) \<and> sk_skip s \<le> 0"])
  fix s :: skipReadCloser and k :: nat
  assume s: "ended (sk_R s) \<and> sk_skip s \<le> 0" and "0 < k"
  then obtain err r' where "rd_read (sk_R s) k = Some ([], Some err, r')" "ended r'"
    using ended_read by blast
  then show "\<exists>err s'. skip_Read s k = Some ([], Some err, s') \<and> ended (sk_R s') \<and> sk_skip s' \<le> 0"
    using s by (simp add: skip_Read_def Let_def)
qed (use assms ended_close in \<open>auto simp: skip_Close_def\<close>)

text \<open>Once nothing is left to skip, the skipping reader is transparent.\<close>

lemma skip_delivers_zero:
  assumes "delivers r bs e"
  shows "sk_R s = r \<longrightarrow> sk_skip s \<le> 0 \<longrightarrow> delivers (as_reader skip_Read skip_Close no_seek s) bs e"
  using assms
proof (induction arbitrary: s rule: delivers_induct)
  case (step r bs)
  show ?case
  proof (intro impI deliversI)
    assume s: "sk_R s = r" "sk_skip s \<le> 0"
    show "rd_close (as_reader skip_Read skip_Close no_seek s) = None"
      using delivers_close [OF step(1)] s by (simp add: skip_Close_def)
    fix k :: nat
    assume "0 < k"
    have rd: "skip_Read s k = (case rd_read r k of None \<Rightarrow> None | Some (xs, e, r') \<Rightarrow> Some (xs, e, s\<lparr>sk_R := r'\<rparr>))"
      using s by (simp add: skip_Read_def)
    from step(2) [OF \<open>0 < k\<close>]
    show "(\<exists>xs r' bs'. rd_read (as_reader skip_Read skip_Close no_seek s) k = Some (xs, None, r') \<and>
          length xs \<le> k \<and> bs = xs @ bs' \<and> delivers r' bs' e) \<or>
       (\<exists>r'. rd_read (as_reader skip_Read skip_Close no_seek s) k = Some (bs, Some e, r') \<and>
          length bs \<le> k \<and> ended r')"
      using s by (auto simp: rd skip_ended)
  qed
qed

lemma skip_Read_after:
  assumes "0 < sk_skip s" "CopyN_Discard (sk_R s) (sk_skip s) = Some (sk_skip s, None, r')"
  shows "skip_Read s k = skip_Read (s\<lparr>sk_R := r', sk_skip := 0\<rparr>) k"
  using assms by (simp add: skip_Read_def Let_def)

lemma delivers_same_read:
  assumes "delivers r bs e" "rd_close r' = None" "\<And>k. 0 < k \<Longrightarrow> rd_read r' k = rd_read r k"
  shows "delivers r' bs e"
proof (rule deliversI [OF assms(2)])
  fix k :: nat
  assume k: "0 < k"
  show "(\<exists>xs r'' bs'. rd_read r' k = Some (xs, None, r'') \<and> length xs \<le> k \<and> bs = xs @ bs' \<and> delivers r'' bs' e) \<or>
      (\<exists>r''. rd_read r' k = Some (bs, Some e, r'') \<and> length bs \<le> k \<and> ended r'')"
    using assms(1) unfolding assms(3) [OF k] by (rule deliversE) (use k in blast)
qed

lemma SkipReadCloser_delivers_lemma:
  assumes "delivers r bs e" "0 \<le> n" "n < int (length bs)"
    and "\<And>r'. rd_seek r n = Some r' \<Longrightarrow> delivers r' (drop (nat n) bs) e"
  shows "delivers (SkipReadCloser r n) (drop (nat n) bs) e"
proof (cases "rd_seek r n")
  case None
  let ?s = "\<lparr>sk_R = r, sk_skip = n\<rparr>"
  obtain r' where r': "CopyN_Discard r n = Some (n, None, r')" "delivers r' (drop (nat n) bs) e"
    using CopyN_Discard_delivers [OF assms(1-3)] by blast
  have "delivers (as_reader skip_Read skip_Close no_seek ?s) (drop (nat n) bs) e"
  proof (cases "n = 0")
    case True
    then show ?thesis using skip_delivers_zero [OF assms(1), of ?s] by simp
  next
    case False
    let ?s' = "?s\<lparr>sk_R := r', sk_skip := 0\<rparr>"
    have d: "delivers (as_reader skip_Read skip_Close no_seek ?s') (drop (nat n) bs) e"
      using skip_delivers_zero [OF r'(2), of ?s'] by simp
    show ?thesis
    proof (rule delivers_same_read [OF d])
      show "rd_close (as_reader skip_Read skip_Close no_seek ?s) = None"
        using delivers_close [OF assms(1)] by (simp add: skip_Close_def)
      show "rd_read (as_reader skip_Read skip_Close no_seek ?s) k =
          rd_read (as_reader skip_Read skip_Close no_seek ?s') k" for k
        using skip_Read_after [of ?s r' k] False assms(2) r'(1) by simp
    qed
  qed
  then show ?thesis using None by (simp add: SkipReadCloser_def)
next
  case (Some r')
  then show ?thesis using assms(4) by (simp add: SkipReadCloser_def)
qed

lemma range_step_no_skip:
  assumes "rr_rawStart r \<le> rr_offset r" "rd_read (rr_R r) k = Some (xs, e, r')"
    and "rr_offset r + int (length xs) \<le> rr_rawEnd r"
  shows "range_step r k = Some (xs, e, r\<lparr>rr_R := r', rr_offset := rr_offset r + int (length xs)\<rparr>)"
  using assms by (simp add: range_step_def range_Read_def Let_def)

lemma range_step_past_end:
  assumes "rr_rawStart r \<le> rr_offset r" "rd_read (rr_R r) k = Some (xs, e, r')" "alive r'"
    and "rr_rawEnd r < rr_offset r + int (length xs)" "rr_rawEnd r \<le> rr_newEnd r" "0 \<le> rr_rawEnd r"
  shows "\<exists>s. range_step r k = Some (take (nat (rr_rawEnd r - rr_offset r + 1)) xs, Some EOF, s) \<and>
    alive (rr_R s) \<and> rr_rawStart s = rr_rawStart r \<and> rr_rawEnd s = rr_rawEnd r \<and> rr_newEnd s = rr_newEnd r \<and>
    (rr_rawEnd r < rr_offset s)"
proof -
  let ?d = "rr_newEnd r - (rr_offset r + int (length xs)) + 1"
  have min: "min (rr_newEnd r) ?d = ?d" using assms(4,6) by simp
  show ?thesis
  proof (cases "0 < ?d")
    case True
    then obtain w eo r'' where w: "CopyN_Discard r' ?d = Some (w, eo, r'')" "alive r''" "0 \<le> w"
      using CopyN_Discard_returns [OF assms(3), of ?d] by auto
    then show ?thesis
      using assms True w min by (simp add: range_step_def range_Read_def Let_def)
  next
    case False
    then show ?thesis
      using assms min by (simp add: range_step_def range_Read_def Let_def)
  qed
qed

lemma range_ended:
  fixes r :: rangeReader
  assumes "alive (rr_R r) \<and> rr_rawStart r \<le> rr_rawEnd r \<and> rr_rawEnd r < rr_offset r \<and>
    rr_rawEnd r \<le> rr_newEnd r \<and> 0 \<le> rr_rawEnd r"
  shows "ended (as_reader range_step range_Close no_seek r)"
proof (rule as_reader_endedI [where P = "\<lambda>r. alive (rr_R r) \<and> rr_rawStart r \<le> rr_rawEnd r \<and>
    rr_rawEnd r < rr_offset r \<and> rr_rawEnd r \<le> rr_newEnd r \<and> 0 \<le> rr_rawEnd r"])
  fix r :: rangeReader and k :: nat
  assume r: "alive (rr_R r) \<and> rr_rawStart r \<le> rr_rawEnd r \<and> rr_rawEnd r < rr_offset r \<and>
    rr_rawEnd r \<le> rr_newEnd r \<and> 0 \<le> rr_rawEnd r" and k: "0 < k"
  then obtain xs e r' where rd: "rd_read (rr_R r) k = Some (xs, e, r')" "alive r'"
    using alive_read by blast
  then show "\<exists>err s'. range_step r k = Some ([], Some err, s') \<and> alive (rr_R s') \<and>
      rr_rawStart s' \<le> rr_rawEnd s' \<and> rr_rawEnd s' < rr_offset s' \<and> rr_rawEnd s' \<le> rr_newEnd s' \<and> 0 \<le> rr_rawEnd s'"
    using range_step_past_end [OF _ rd(1,2)] r by fastforce
qed (use assms alive_close in \<open>auto simp: range_Close_def\<close>)

lemma range_delivers_aux:
  assumes "delivers R bs e"
  shows "rr_R r = R \<longrightarrow> rr_rawStart r \<le> rr_offset r \<longrightarrow> rr_offset r \<le> rr_rawEnd r \<longrightarrow>
    rr_rawEnd r \<le> rr_newEnd r \<longrightarrow> 0 \<le> rr_offset r \<longrightarrow> rr_rawEnd r < rr_offset r + int (length bs) \<longrightarrow>
    delivers (as_reader range_step range_Close no_seek r) (take (nat (rr_rawEnd r - rr_offset r + 1)) bs) EOF"
  using assms
proof (induction arbitrary: r rule: delivers_induct)
  case (step R bs)
  show ?case
  proof (intro impI deliversI)
    assume r: "rr_R r = R" "rr_rawStart r \<le> rr_offset r" "rr_offset r \<le> rr_rawEnd r"
      "rr_rawEnd r \<le> rr_newEnd r" "0 \<le> rr_offset r" "rr_rawEnd r < rr_offset r + int (length bs)"
    let ?m = "nat (rr_rawEnd r - rr_offset r + 1)"
    show "rd_close (as_reader range_step range_Close no_seek r) = None"
      using delivers_close [OF step(1)] r(1) by (simp add: range_Close_def)
    fix k :: nat
    assume k: "0 < k"
    let ?rd = "rd_read (as_reader range_step range_Close no_seek r) k"
    have past: "\<exists>r'. ?rd = Some (take ?m xs, Some EOF, r') \<and> ended r'"
      if h: "rd_read R k = Some (xs, eo, R')" "alive R'" "rr_rawEnd r < rr_offset r + int (length xs)" for xs eo R'
    proof -
      obtain s where s: "range_step r k = Some (take ?m xs, Some EOF, s)" "alive (rr_R s)"
        "rr_rawStart s = rr_rawStart r" "rr_rawEnd s = rr_rawEnd r" "rr_newEnd s = rr_newEnd r" "rr_rawEnd r < rr_offset s"
        using range_step_past_end [of r k xs eo R'] h r by auto
      then have "ended (as_reader range_step range_Close no_seek s)"
        using r by (intro range_ended) simp
      then show ?thesis using s(1) by simp
    qed
    from step(2) [OF k]
    show "(\<exists>xs r' bs'. ?rd = Some (xs, None, r') \<and> length xs \<le> k \<and> take ?m bs = xs @ bs' \<and> delivers r' bs' EOF) \<or>
       (\<exists>r'. ?rd = Some (take ?m bs, Some EOF, r') \<and> length (take ?m bs) \<le> k \<and> ended r')"
    proof (elim disjE exE conjE)
      fix R'
      assume st: "rd_read R k = Some (bs, Some e, R')" "length bs \<le> k" "ended R'"
      then show ?thesis using past [OF st(1) _ r(6)] by (auto simp: alive_def)
    next
      fix xs R' bs'
      assume st: "rd_read R k = Some (xs, None, R')" "length xs \<le> k" "bs = xs @ bs'" "delivers R' bs' e"
        and IH: "\<forall>r. rr_R r = R' \<longrightarrow> rr_rawStart r \<le> rr_offset r \<longrightarrow> rr_offset r \<le> rr_rawEnd r \<longrightarrow>
          rr_rawEnd r \<le> rr_newEnd r \<longrightarrow> 0 \<le> rr_offset r \<longrightarrow> rr_rawEnd r < rr_offset r + int (length bs') \<longrightarrow>
          delivers (as_reader range_step range_Close no_seek r) (take (nat (rr_rawEnd r - rr_offset r + 1)) bs') EOF"
      show ?thesis
      proof (cases "rr_rawEnd r < rr_offset r + int (length xs)")
        case True
        then have "?m \<le> length xs" by simp
        then show ?thesis using past [OF st(1) _ True] st by (auto simp: alive_def)
      next
        case False
        let ?s = "r\<lparr>rr_R := R', rr_offset := rr_offset r + int (length xs)\<rparr>"
        have "range_step r k = Some (xs, None, ?s)"
          using range_step_no_skip [OF r(2)] st(1) r(1) False by simp
        moreover have "delivers (as_reader range_step range_Close no_seek ?s)
            (take (nat (rr_rawEnd ?s - rr_offset ?s + 1)) bs') EOF"
          using IH [rule_format, of ?s] r st(3) False by simp
        moreover have "take ?m bs = xs @ take (nat (rr_rawEnd ?s - rr_offset ?s + 1)) bs'"
        proof -
          have "?m - length xs = nat (rr_rawEnd ?s - rr_offset ?s + 1)" "length xs \<le> ?m" using False by auto
          then show ?thesis using st(3) by (metis take_append take_all)
        qed
        ultimately show ?thesis using st(2) by auto
      qed
    qed
  qed
qed

lemma RangeReader_delivers_lemma:
  assumes "delivers R bs e" "0 \<le> a" "a \<le> s" "s \<le> t" "t \<le> b" "t < a + int (length bs)"
  shows "delivers (RangeReader R a b s t) (slice bs (nat (s - a)) (nat (t - s + 1))) EOF"
proof -
  let ?r = "\<lparr>rr_R = R, rr_newStart = a, rr_newEnd = b, rr_rawStart = s, rr_rawEnd = t, rr_offset = a\<rparr>"
  obtain R' where R': "CopyN_Discard R (s - a) = Some (s - a, None, R')" "delivers R' (drop (nat (s - a)) bs) e"
    using CopyN_Discard_delivers [OF assms(1), of "s - a"] assms by auto
  show ?thesis
  proof (cases "a < s")
    case False
    then show ?thesis
      using range_delivers_aux [OF assms(1), of ?r] assms by (simp add: RangeReader_def slice_def)
  next
    case True
    let ?r' = "?r\<lparr>rr_R := R', rr_offset := s\<rparr>"
    have d: "delivers (as_reader range_step range_Close no_seek ?r') (slice bs (nat (s - a)) (nat (t - s + 1))) EOF"
      using range_delivers_aux [OF R'(2), of ?r'] assms True by (simp add: slice_def)
    have "delivers (as_reader range_step range_Close no_seek ?r) (slice bs (nat (s - a)) (nat (t - s + 1))) EOF"
    proof (rule delivers_same_read [OF d])
      show "rd_close (as_reader range_step range_Close no_seek ?r) = None"
        using delivers_close [OF assms(1)] by (simp add: range_Close_def)
      have "range_step ?r k = range_step ?r' k" for k
        using True R'(1) by (simp add: range_step_def range_Read_def)
      then show "rd_read (as_reader range_step range_Close no_seek ?r) k =
          rd_read (as_reader range_step range_Close no_seek ?r') k" for k by simp
    qed
    then show ?thesis by (simp add: RangeReader_def)
  qed
qed

text \<open>The concatenation reader: the parts before the index are done, the others still deliver.\<close>

definition parts_inv :: "partsReader \<Rightarrow> bytes list \<Rightarrow> bool" where
  "parts_inv p bss \<longleftrightarrow> pt_index p + length bss = length (pt_R p) \<and>
     list_all2 (\<lambda>r bs. delivers r bs EOF) (drop (pt_index p) (pt_R p)) bss \<and>
     (pt_closer p = None \<or> pt_closer p = Some None)"

lemma parts_close_ok:
  assumes "parts_inv p bss"
  shows "parts_close_err p = None"
proof -
  have "rd_close (pt_R p ! i) = None" if "pt_index p \<le> i" "i < length (pt_R p)" for i
  proof -
    have all: "list_all2 (\<lambda>r bs. delivers r bs EOF) (drop (pt_index p) (pt_R p)) bss"
      using assms by (simp add: parts_inv_def)
    have "delivers (drop (pt_index p) (pt_R p) ! (i - pt_index p)) (bss ! (i - pt_index p)) EOF"
      using list_all2_nthD [OF all, of "i - pt_index p"] that by simp
    then show ?thesis using that delivers_close by (simp add: parts_inv_def)
  qed
  then have none: "List.map_filter (\<lambda>i. rd_close (pt_R p ! i)) [pt_index p..<length (pt_R p)] = []"
    by (auto simp: List.map_filter_def filter_empty_conv)
  show ?thesis
    using assms by (auto simp: parts_close_err_def parts_Close_def none parts_inv_def Let_def)
qed

lemma parts_ended:
  assumes "parts_inv p []"
  shows "ended (as_reader parts_Read parts_close_err no_seek p)"
  by (rule as_reader_endedI [where P = "\<lambda>p. parts_inv p []"])
    (use assms parts_close_ok in \<open>auto simp: parts_Read_def parts_inv_def\<close>)

lemma parts_inv_Cons:
  "parts_inv p (bs # bss) \<longleftrightarrow>
     pt_index p < length (pt_R p) \<and> delivers (pt_R p ! pt_index p) bs EOF \<and>
     parts_inv (p\<lparr>pt_index := pt_index p + 1\<rparr>) bss"
  by (auto simp: parts_inv_def Cons_nth_drop_Suc [symmetric] simp del: drop_Suc_Cons)

lemma parts_inv_upd:
  "parts_inv (p\<lparr>pt_R := xs, pt_index := i, pt_closed := c\<rparr>) bss = parts_inv (p\<lparr>pt_R := xs, pt_index := i\<rparr>) bss"
  by (simp add: parts_inv_def)

lemma parts_delivers_aux:
  assumes part: "delivers r bs EOF"
    and rest: "\<And>p. parts_inv p bss \<Longrightarrow> bss \<noteq> [] \<Longrightarrow>
      delivers (as_reader parts_Read parts_close_err no_seek p) (concat bss) EOF"
  shows "pt_R p ! pt_index p = r \<longrightarrow> parts_inv p (bs # bss) \<longrightarrow>
    delivers (as_reader parts_Read parts_close_err no_seek p) (bs @ concat bss) EOF"
  using part
proof (induction arbitrary: p rule: delivers_induct)
  case (step r bs)
  show ?case
  proof (intro impI deliversI)
    assume p: "pt_R p ! pt_index p = r" "parts_inv p (bs # bss)"
    let ?i = "pt_index p"
    have i: "?i < length (pt_R p)" and tl: "parts_inv (p\<lparr>pt_index := ?i + 1\<rparr>) bss"
      using p(2) by (simp_all add: parts_inv_Cons)
    show "rd_close (as_reader parts_Read parts_close_err no_seek p) = None"
      using parts_close_ok [OF p(2)] by simp
    fix k :: nat
    assume k: "0 < k"
    let ?rd = "rd_read (as_reader parts_Read parts_close_err no_seek p) k"
    from step(2) [OF k]
    show "(\<exists>xs r' bs'. ?rd = Some (xs, None, r') \<and> length xs \<le> k \<and> bs @ concat bss = xs @ bs' \<and>
          delivers r' bs' EOF) \<or>
       (\<exists>r'. ?rd = Some (bs @ concat bss, Some EOF, r') \<and> length (bs @ concat bss) \<le> k \<and> ended r')"
    proof (elim disjE exE conjE)
      fix xs r' bs'
      assume st: "rd_read r k = Some (xs, None, r')" "length xs \<le> k" "bs = xs @ bs'" "delivers r' bs' EOF"
        and IH: "\<forall>p. pt_R p ! pt_index p = r' \<longrightarrow> parts_inv p (bs' # bss) \<longrightarrow>
          delivers (as_reader parts_Read parts_close_err no_seek p) (bs' @ concat bss) EOF"
      let ?p = "p\<lparr>pt_R := (pt_R p)[?i := r']\<rparr>"
      have "?rd = Some (xs, None, as_reader parts_Read parts_close_err no_seek ?p)"
        using st(1) p(1) i by (simp add: parts_Read_def Let_def)
      moreover have "parts_inv ?p (bs' # bss)"
        using i tl st(4) by (simp add: parts_inv_Cons) (simp add: parts_inv_def)
      ultimately show ?thesis using IH st(2,3) i by auto
    next
      fix r'
      assume st: "rd_read r k = Some (bs, Some EOF, r')" "length bs \<le> k" "ended r'"
      let ?p = "p\<lparr>pt_R := (pt_R p)[?i := r'], pt_index := ?i + 1, pt_closed := pt_closed p @ [?i]\<rparr>"
      have rd: "?rd = Some (bs, if ?i + 1 \<noteq> length (pt_R p) then None else Some EOF,
          as_reader parts_Read parts_close_err no_seek ?p)"
        using st(1) p(1) i ended_close [OF st(3)] by (simp add: parts_Read_def Let_def)
      have inv: "parts_inv ?p bss" using tl by (simp add: parts_inv_def)
      show ?thesis
      proof (cases "bss = []")
        case True
        then have "?i + 1 = length (pt_R p)" using tl by (simp add: parts_inv_def)
        then have "?rd = Some (bs @ concat bss, Some EOF, as_reader parts_Read parts_close_err no_seek ?p)"
          using rd True by simp
        then show ?thesis using True st(2) parts_ended [OF inv [unfolded True]] by auto
      next
        case False
        then have "?i + 1 \<noteq> length (pt_R p)" using tl by (auto simp: parts_inv_def)
        then show ?thesis using rd rest [OF inv False] st(2) by auto
      qed
    qed
  qed
qed

lemma parts_delivers:
  "parts_inv p bss \<Longrightarrow> bss \<noteq> [] \<Longrightarrow> delivers (as_reader parts_Read parts_close_err no_seek p) (concat bss) EOF"
proof (induction bss arbitrary: p)
  case (Cons bs bss)
  have "delivers (pt_R p ! pt_index p) bs EOF" using Cons.prems(1) by (simp add: parts_inv_Cons)
  then show ?case
    using parts_delivers_aux [of _ bs bss p] Cons by auto
qed simp

lemma PartsReadCloser_delivers_lemma:
  assumes "list_all2 (\<lambda>r bs. delivers r bs EOF) rs bss" "rs \<noteq> []" "c = None \<or> c = Some None"
  shows "\<exists>p. PartsReadCloser c rs = Some p \<and> delivers p (concat bss) EOF"
proof -
  have "length rs = length bss" using assms(1) by (rule list_all2_lengthD)
  then have "parts_inv (parts_init c rs) bss" "bss \<noteq> []"
    using assms by (auto simp: parts_inv_def parts_init_def)
  then show ?thesis using parts_delivers assms(2) by (simp add: PartsReadCloser_def)
qed

subsection \<open>Properties\<close>

lemma hello_delivers: "delivers (file_reader \<lparr>fl_data = ''hello'', fl_off = 0\<rparr>) ''hello'' EOF"
  using file_reader_delivers [of "\<lparr>fl_data = ''hello'', fl_off = 0\<rparr>"] by simp

lemma world_delivers: "delivers (file_reader \<lparr>fl_data = ''world'', fl_off = 0\<rparr>) ''world'' EOF"
  using file_reader_delivers [of "\<lparr>fl_data = ''world'', fl_off = 0\<rparr>"] by simp

text \<open>\<^verbatim>\<open>LimitReadCloser\<close> over a reader that delivers \<open>bs\<close> delivers the first \<open>n\<close> bytes of it and then
  the end of file, for all buffer sizes, when the source is long enough or ends with \<^verbatim>\<open>io.EOF\<close>.\<close>

theorem LimitReadCloser_delivers:
  assumes "delivers r bs e" "0 \<le> n" "n < int (length bs) \<or> e = EOF"
  shows "delivers (LimitReadCloser r n) (take (nat n) bs) EOF"
  using assms by (rule LimitReadCloser_delivers_lemma)

theorem LimitReadCloser_delivers_witness:
  "delivers (LimitReadCloser (file_reader \<lparr>fl_data = ''hello'', fl_off = 0\<rparr>) 3) ''hel'' EOF"
  using LimitReadCloser_delivers [OF hello_delivers, of 3] by simp

text \<open>\<^verbatim>\<open>SkipReadCloser\<close> delivers what follows the first \<open>n\<close> bytes of its source, with the source's
  own final error, both where it seeks and where it discards on the first read.\<close>

theorem SkipReadCloser_delivers:
  assumes "delivers r bs e" "0 \<le> n" "n < int (length bs)"
    and "\<And>r'. rd_seek r n = Some r' \<Longrightarrow> delivers r' (drop (nat n) bs) e"
  shows "delivers (SkipReadCloser r n) (drop (nat n) bs) e"
  using assms by (rule SkipReadCloser_delivers_lemma)

theorem SkipReadCloser_delivers_witness:
  "delivers (SkipReadCloser (file_reader \<lparr>fl_data = ''hello'', fl_off = 0\<rparr>) 2) ''llo'' EOF \<and>
   delivers (SkipReadCloser (LimitReadCloser (file_reader \<lparr>fl_data = ''hello'', fl_off = 0\<rparr>) 5) 2) ''llo'' EOF"
proof
  have seek: "rd_seek (file_reader \<lparr>fl_data = ''hello'', fl_off = 0\<rparr>) 2 = Some r' \<Longrightarrow> delivers r' ''llo'' EOF" for r'
    using file_reader_delivers [of "\<lparr>fl_data = ''hello'', fl_off = 2\<rparr>"]
    by (auto simp: file_reader_def file_seek_def)
  show "delivers (SkipReadCloser (file_reader \<lparr>fl_data = ''hello'', fl_off = 0\<rparr>) 2) ''llo'' EOF"
    using SkipReadCloser_delivers [OF hello_delivers, of 2] seek by simp
  have lim: "delivers (LimitReadCloser (file_reader \<lparr>fl_data = ''hello'', fl_off = 0\<rparr>) 5) ''hello'' EOF"
    using LimitReadCloser_delivers_lemma [OF hello_delivers, of 5] by simp
  show "delivers (SkipReadCloser (LimitReadCloser (file_reader \<lparr>fl_data = ''hello'', fl_off = 0\<rparr>) 5) 2) ''llo'' EOF"
    using SkipReadCloser_delivers [OF lim, of 2] by (simp add: LimitReadCloser_def)
qed



text \<open>C4: \<^verbatim>\<open>PartsReadCloser\<close> over a non-empty list of readers that each end with \<^verbatim>\<open>io.EOF\<close> delivers the
  concatenation of their contents and one end of file.\<close>

theorem PartsReadCloser_delivers:
  assumes "list_all2 (\<lambda>r bs. delivers r bs EOF) rs bss" "rs \<noteq> []" "c = None \<or> c = Some NopCloser"
  shows "\<exists>p. PartsReadCloser c rs = Some p \<and> delivers p (concat bss) EOF"
  using PartsReadCloser_delivers_lemma [OF assms(1,2)] assms(3) by (simp add: NopCloser_def)

theorem PartsReadCloser_delivers_witness:
  "\<exists>p. PartsReadCloser None [file_reader \<lparr>fl_data = ''hello'', fl_off = 0\<rparr>, file_reader \<lparr>fl_data = ''world'', fl_off = 0\<rparr>]
     = Some p \<and> delivers p ''helloworld'' EOF"
  using PartsReadCloser_delivers [of "[file_reader \<lparr>fl_data = ''hello'', fl_off = 0\<rparr>, file_reader \<lparr>fl_data = ''world'', fl_off = 0\<rparr>]"
      "[''hello'', ''world'']" None] hello_delivers world_delivers by simp

text \<open>The states of a parts reader that any sequence of reads reaches.\<close>

inductive parts_reach :: "partsReader \<Rightarrow> partsReader \<Rightarrow> bool" for p0 where
  start: "parts_reach p0 p0"
| read: "parts_reach p0 p \<Longrightarrow> parts_Read p k = Some (xs, e, p') \<Longrightarrow> parts_reach p0 p'"

lemma upt_append_upt: "i \<le> n \<Longrightarrow> [0..<i] @ [i..<n] = [0..<n]"
  by (metis le_add_diff_inverse upt_add_eq_append zero_le)

lemma parts_Read_index:
  assumes "parts_Read p k = Some (xs, e, p')"
  shows "length (pt_R p') = length (pt_R p) \<and>
    (pt_index p' = pt_index p \<and> pt_closed p' = pt_closed p \<or>
     pt_index p \<noteq> length (pt_R p) \<and> pt_index p' = Suc (pt_index p) \<and> pt_closed p' = pt_closed p @ [pt_index p])"
  using assms by (auto simp: parts_Read_def Let_def split: if_splits option.splits)

lemma parts_reach_closed:
  "parts_reach (parts_init c rs) p \<Longrightarrow>
     pt_closed p = [0..<pt_index p] \<and> pt_index p \<le> length (pt_R p) \<and> length (pt_R p) = length rs"
proof (induction rule: parts_reach.induct)
  case start
  then show ?case by (simp add: parts_init_def)
next
  case (read p k xs e p')
  then show ?case using parts_Read_index [OF read(2)] by (elim disjE conjE) simp_all
qed

text \<open>however many reads happened and whatever they returned, errors included, \<^verbatim>\<open>Close\<close> leaves
  every part closed exactly once, in order.\<close>

theorem parts_Close_once:
  assumes "parts_reach (parts_init c rs) p"
  shows "pt_closed (snd (parts_Close p)) = [0..<length rs]"
  using parts_reach_closed [OF assms]
  by (simp add: parts_Close_def Let_def upt_append_upt)

theorem parts_Close_once_witness:
  "pt_closed (snd (parts_Close (parts_init None [file_reader \<lparr>fl_data = ''hello'', fl_off = 0\<rparr>]))) = [0]"
  using parts_Close_once [OF parts_reach.start] by simp

text \<open>\<^verbatim>\<open>partsReader.WriteTo\<close> into a writer that accepts everything writes the concatenation of all
  parts and consumes them, but then returns \<^verbatim>\<open>io.EOF\<close> instead of no error.\<close>

theorem parts_WriteTo_buffer:
  assumes "list_all2 (\<lambda>r bs. delivers r bs EOF) rs bss" "rs \<noteq> []"
  shows "parts_WriteTo (parts_init c rs) buffer_write w =
    Some (int (length (concat bss)), Some EOF, length rs, w @ concat bss)"
  using write_parts_buffer [OF assms(1), of 0 "length rs" w 0 None] assms(2)
  by (simp add: parts_WriteTo_def parts_init_def)

theorem parts_WriteTo_buffer_witness:
  "parts_WriteTo (parts_init None [file_reader \<lparr>fl_data = ''hello'', fl_off = 0\<rparr>]) buffer_write [] =
    Some (5, Some EOF, 1, ''hello'')"
  using parts_WriteTo_buffer [of "[file_reader \<lparr>fl_data = ''hello'', fl_off = 0\<rparr>]" "[''hello'']" None "[]"] hello_delivers
  by simp

end
