(* ===== verification/Savepart.thy ===== *)
theory Savepart
  imports Io_Readers
begin

text \<open>
  \<^verbatim>\<open>pkg/iobuf/savepart_reader.go\<close> and \<^verbatim>\<open>savepart_async_reader.go\<close>: readers that pass a body through and
  hand it to the cache in blocks.  The callbacks work on an abstract state \<open>'w\<close> (the cache); a
  division by a zero block size is a panic, \<open>None\<close>.
\<close>

text \<open>What the success callback receives: the bytes, the block index, the position, the end flag.\<close>

record write_job =
  wj_buf :: bytes
  wj_bitIdx :: nat
  wj_pos :: nat
  wj_eof :: bool

type_synonym 'w on_success = "write_job \<Rightarrow> 'w \<Rightarrow> go_err option \<times> 'w"
type_synonym 'w on_error = "go_err \<Rightarrow> 'w \<Rightarrow> 'w"
type_synonym 'w on_close = "bool \<Rightarrow> 'w \<Rightarrow> 'w"

text \<open>The struct, without its callbacks, block size and source, which never change.\<close>

record savepart =
  sp_skip :: bool
  sp_eof :: bool
  sp_closed :: bool
  sp_pos :: nat
  sp_buf :: bytes

subsection \<open>savepart\_reader.go\<close>

definition writeBlock :: "nat \<Rightarrow> 'w on_success \<Rightarrow> bool \<Rightarrow> savepart \<times> 'w \<Rightarrow> go_err option \<times> savepart \<times> 'w" where
  "writeBlock blockSize onSuccess eof = (\<lambda>(s, w).
     (let s = s\<lparr>sp_eof := eof\<rparr>; buflen = length (sp_buf s) in
      if buflen \<le> 0 then (None, s, w)
      else
        (let md = ((sp_pos s - buflen) div blockSize) mod 4294967296 in
         case onSuccess \<lparr>wj_buf = sp_buf s, wj_bitIdx = md, wj_pos = sp_pos s, wj_eof = eof\<rparr> w of
           (Some err, w') \<Rightarrow> (Some err, s, w')
         | (None, w') \<Rightarrow> (None, s\<lparr>sp_buf := []\<rparr>, w'))))"

text \<open>
  The loop of \<^verbatim>\<open>flush\<close>; the list is the data from \<^verbatim>\<open>datapos\<close> on.  Its length strictly decreases
  except in the round that ends the skip mode.
\<close>

function flush_loop ::
  "nat \<Rightarrow> 'w on_success \<Rightarrow> bool \<Rightarrow> bytes \<Rightarrow> savepart \<times> 'w \<Rightarrow> (go_err option \<times> savepart \<times> 'w) option" where
  "flush_loop blockSize onSuccess eof data (s, w) =
     (if data = [] then Some (None, s, w)
      else if blockSize = 0 then None
      else
        (let off = sp_pos s mod blockSize; to = blockSize - off in
         if sp_skip s then
           (if off \<noteq> 0 then
              (let skip = min to (length data) in
               flush_loop blockSize onSuccess eof (drop skip data) (s\<lparr>sp_pos := sp_pos s + skip\<rparr>, w))
            else flush_loop blockSize onSuccess eof data (s\<lparr>sp_skip := False\<rparr>, w))
         else
           (case (if length (sp_buf s) = blockSize then writeBlock blockSize onSuccess eof (s, w) else (None, s, w)) of
              (Some err, s, w) \<Rightarrow> Some (Some err, s, w)
            | (None, s, w) \<Rightarrow>
                (let tow = min to (length data); oldBufLen = length (sp_buf s);
                     s = s\<lparr>sp_buf := sp_buf s @ take tow data\<rparr>
                 in if oldBufLen + tow \<noteq> length (sp_buf s) then Some (Some (ErrOther 1), s, w)
                    else flush_loop blockSize onSuccess eof (drop tow data)
                           (s\<lparr>sp_pos := sp_pos s + tow\<rparr>, w)))))"
  by pat_completeness auto
termination
proof (relation "measures [\<lambda>(bs, cb, eof, data, s, w). length data, \<lambda>(bs, cb, eof, data, s, w). if sp_skip s then 1 else 0]",
    goal_cases)
  case (2 blockSize onSuccess eof data s w off to skip)
  then have "off < blockSize" by simp
  then show ?case using 2 by auto
next
  case (4 blockSize)
  then show ?case using mod_less_divisor [of blockSize] by (auto simp: not_le)
qed auto

declare flush_loop.simps [simp del]

definition flush ::
  "nat \<Rightarrow> 'w on_success \<Rightarrow> bytes \<Rightarrow> bool \<Rightarrow> savepart \<times> 'w \<Rightarrow> (go_err option \<times> savepart \<times> 'w) option" where
  "flush blockSize onSuccess data eof sw =
     (case flush_loop blockSize onSuccess eof data sw of
        None \<Rightarrow> None
      | Some (Some err, sw') \<Rightarrow> Some (Some err, sw')
      | Some (None, sw') \<Rightarrow>
          if eof then Some (writeBlock blockSize onSuccess eof sw') else Some (None, sw'))"

text \<open>\<^verbatim>\<open>Read\<close>: the bytes, the error, the source afterwards, the struct and the cache.\<close>

definition savepart_Read ::
  "nat \<Rightarrow> 'w on_success \<Rightarrow> 'w on_error \<Rightarrow> rdr \<times> savepart \<times> 'w \<Rightarrow> nat \<Rightarrow> (rdr \<times> savepart \<times> 'w) read_result" where
  "savepart_Read blockSize onSuccess onError = (\<lambda>(R, s, w) k.
     (case rd_read R k of
        None \<Rightarrow> None
      | Some (xs, Some err, R') \<Rightarrow>
          if err = EOF then
            (case flush blockSize onSuccess xs True (s, w) of
               None \<Rightarrow> None
             | Some (Some ferr, s', w') \<Rightarrow> Some (xs, Some EOF, R', s', onError ferr w')
             | Some (None, s', w') \<Rightarrow> Some (xs, Some EOF, R', s', w'))
          else Some ([], Some err, R', s, onError err w)
      | Some (xs, None, R') \<Rightarrow>
          (case flush blockSize onSuccess xs False (s, w) of
             None \<Rightarrow> None
           | Some (Some ferr, s', w') \<Rightarrow> Some (xs, Some ferr, R', s', onError ferr w')
           | Some (None, s', w') \<Rightarrow> Some (xs, None, R', s', w'))))"

definition savepart_Close :: "'w on_close option \<Rightarrow> savepart \<times> 'w \<Rightarrow> savepart \<times> 'w" where
  "savepart_Close onClose = (\<lambda>(s, w).
     (case onClose of
        None \<Rightarrow> (s, w)
      | Some f \<Rightarrow> if sp_closed s then (s, w) else (s\<lparr>sp_closed := True\<rparr>, f (sp_eof s) w)))"

definition savepart_init :: "nat \<Rightarrow> savepart" where
  "savepart_init startAt =
     \<lparr>sp_skip = (0 < startAt), sp_eof = False, sp_closed = False, sp_pos = startAt, sp_buf = []\<rparr>"

subsection \<open>savepart\_async\_reader.go\<close>

text \<open>The queue is the channel's content; the writer goroutine takes from its front.\<close>

definition enqueueWrite :: "nat \<Rightarrow> bool \<Rightarrow> savepart \<times> write_job list \<Rightarrow> savepart \<times> write_job list" where
  "enqueueWrite blockSize eof = (\<lambda>(s, ch).
     (let s = s\<lparr>sp_eof := eof\<rparr>; buflen = length (sp_buf s) in
      if buflen \<le> 0 then (s, ch)
      else
        (let md = ((sp_pos s - buflen) div blockSize) mod 4294967296 in
         (s\<lparr>sp_buf := []\<rparr>,
          ch @ [\<lparr>wj_buf = sp_buf s, wj_bitIdx = md, wj_pos = sp_pos s, wj_eof = eof\<rparr>]))))"

function async_loop ::
  "nat \<Rightarrow> bool \<Rightarrow> bytes \<Rightarrow> savepart \<times> write_job list \<Rightarrow> (savepart \<times> write_job list) option" where
  "async_loop blockSize eof data (s, ch) =
     (if data = [] then Some (s, ch)
      else if blockSize = 0 then None
      else
        (let off = sp_pos s mod blockSize; to = blockSize - off in
         if sp_skip s then
           (if off \<noteq> 0 then
              (let skip = min to (length data) in
               async_loop blockSize eof (drop skip data) (s\<lparr>sp_pos := sp_pos s + skip\<rparr>, ch))
            else async_loop blockSize eof data (s\<lparr>sp_skip := False\<rparr>, ch))
         else
           (case (if length (sp_buf s) = blockSize then enqueueWrite blockSize eof (s, ch) else (s, ch)) of
              (s, ch) \<Rightarrow>
                (let tow = min to (length data) in
                 async_loop blockSize eof (drop tow data)
                   (s\<lparr>sp_buf := sp_buf s @ take tow data, sp_pos := sp_pos s + tow\<rparr>, ch)))))"
  by pat_completeness auto
termination
proof (relation "measures [\<lambda>(bs, eof, data, s, w). length data, \<lambda>(bs, eof, data, s, w). if sp_skip s then 1 else 0]",
    goal_cases)
  case (2 blockSize eof data s w off to skip)
  then have "off < blockSize" by simp
  then show ?case using 2 by auto
next
  case (4 blockSize eof data s ch off to s' ch' tow)
  then have "off < blockSize" by simp
  then show ?case using 4 by auto
qed auto

declare async_loop.simps [simp del]

definition async_flush ::
  "nat \<Rightarrow> bytes \<Rightarrow> bool \<Rightarrow> savepart \<times> write_job list \<Rightarrow> (savepart \<times> write_job list) option" where
  "async_flush blockSize data eof sw =
     (case async_loop blockSize eof data sw of
        None \<Rightarrow> None
      | Some sw' \<Rightarrow> if eof then Some (enqueueWrite blockSize eof sw') else Some sw')"

text \<open>
  The asynchronous reader's state next to its source: the struct, the channel, the first write
  error, and the cache.
\<close>

record 'w async =
  as_sp :: savepart
  as_ch :: "write_job list"
  as_err :: "go_err option"
  as_w :: 'w

text \<open>One round of the writer goroutine; nothing happens while the channel is empty.\<close>

definition writer_round :: "'w on_success \<Rightarrow> 'w on_error \<Rightarrow> 'w async \<Rightarrow> 'w async" where
  "writer_round onSuccess onError a =
     (case as_ch a of
        [] \<Rightarrow> a
      | job # ch \<Rightarrow>
          (case onSuccess job (as_w a) of
             (None, w') \<Rightarrow> a\<lparr>as_ch := ch, as_w := w'\<rparr>
           | (Some err, w') \<Rightarrow>
               a\<lparr>as_ch := ch, as_err := (if as_err a = None then Some err else as_err a), as_w := onError err w'\<rparr>))"

definition async_Read ::
  "nat \<Rightarrow> 'w on_error \<Rightarrow> rdr \<times> 'w async \<Rightarrow> nat \<Rightarrow> (rdr \<times> 'w async) read_result" where
  "async_Read blockSize onError = (\<lambda>(R, a) k.
     (case as_err a of
        Some err \<Rightarrow> Some ([], Some err, R, a)
      | None \<Rightarrow>
          (case rd_read R k of
             None \<Rightarrow> None
           | Some (xs, Some err, R') \<Rightarrow>
               if err = EOF then
                 (case async_flush blockSize xs True (as_sp a, as_ch a) of
                    None \<Rightarrow> None
                  | Some (s, ch) \<Rightarrow> Some (xs, Some EOF, R', a\<lparr>as_sp := s, as_ch := ch\<rparr>))
               else Some ([], Some err, R', a\<lparr>as_w := onError err (as_w a)\<rparr>)
           | Some (xs, None, R') \<Rightarrow>
               (case async_flush blockSize xs False (as_sp a, as_ch a) of
                  None \<Rightarrow> None
                | Some (s, ch) \<Rightarrow> Some (xs, None, R', a\<lparr>as_sp := s, as_ch := ch\<rparr>)))))"

text \<open>\<^verbatim>\<open>Close\<close> closes the channel, waits until the writer has emptied it, then reports.\<close>

definition async_Close :: "'w on_success \<Rightarrow> 'w on_error \<Rightarrow> 'w on_close option \<Rightarrow> 'w async \<Rightarrow> 'w async" where
  "async_Close onSuccess onError onClose a =
     (if sp_closed (as_sp a) then a
      else
        (let a = a\<lparr>as_sp := (as_sp a)\<lparr>sp_closed := True\<rparr>\<rparr>;
             a = (writer_round onSuccess onError ^^ length (as_ch a)) a
         in (case onClose of None \<Rightarrow> a | Some f \<Rightarrow> a\<lparr>as_w := f (sp_eof (as_sp a)) (as_w a)\<rparr>)))"

definition async_init :: "nat \<Rightarrow> 'w \<Rightarrow> 'w async" where
  "async_init startAt w = \<lparr>as_sp = savepart_init startAt, as_ch = [], as_err = None, as_w = w\<rparr>"

subsection \<open>The blocks of a stream\<close>

text \<open>
  The specification: a stream that starts at the beginning of block \<open>i\<close>, cut into blocks, with the
  32-bit block index and the position after each block.
\<close>

type_synonym block = "bytes \<times> nat \<times> nat"

function emit :: "nat \<Rightarrow> nat \<Rightarrow> bytes \<Rightarrow> block list" where
  "emit bs i xs =
     (if xs = [] \<or> bs = 0 then []
      else (take bs xs, i mod 4294967296, i * bs + min bs (length xs)) # emit bs (i + 1) (drop bs xs))"
  by pat_completeness auto
termination by (relation "measure (\<lambda>(bs, i, xs). length xs)") auto

declare emit.simps [simp del]

lemma emit_Nil [simp]: "emit bs i [] = []"
  by (simp add: emit.simps)

lemma emit_append:
  assumes "0 < bs" "length xs = m * bs"
  shows "emit bs i (xs @ ys) = emit bs i xs @ emit bs (i + m) ys"
  using assms(2)
proof (induction m arbitrary: xs i)
  case (Suc m)
  have len: "bs \<le> length xs" "length (drop bs xs) = m * bs" "xs \<noteq> []" using Suc.prems assms(1) by auto
  show ?case
    using Suc.IH [OF len(2), of "i + 1"] len(1,3) assms(1)
    by (subst (1 2) emit.simps) simp
qed simp

lemma emit_last: "0 < bs \<Longrightarrow> b \<noteq> [] \<Longrightarrow> length b \<le> bs \<Longrightarrow>
    emit bs i b = [(b, i mod 4294967296, i * bs + length b)]"
  by (subst emit.simps) simp

text \<open>In terms of a whole object: block \<open>k\<close> is the object's bytes from \<open>k * bs\<close> on.\<close>

definition object_blocks :: "nat \<Rightarrow> bytes \<Rightarrow> nat \<Rightarrow> block list" where
  "object_blocks bs obj i =
     map (\<lambda>k. (slice obj (k * bs) bs, k mod 4294967296, min ((k + 1) * bs) (length obj)))
       [i..<(length obj + bs - 1) div bs]"

lemma emit_object:
  assumes "0 < bs"
  shows "emit bs i (drop (i * bs) obj) = object_blocks bs obj i"
proof (induction "length obj - i * bs" arbitrary: i rule: less_induct)
  case less
  show ?case
  proof (cases "i * bs < length obj")
    case True
    have "emit bs i (drop (i * bs) obj) = (slice obj (i * bs) bs, i mod 4294967296, min ((i + 1) * bs) (length obj))
        # emit bs (i + 1) (drop ((i + 1) * bs) obj)"
      using True assms by (subst emit.simps) (auto simp: slice_def add.commute min_def)
    also have "emit bs (i + 1) (drop ((i + 1) * bs) obj) = object_blocks bs obj (i + 1)"
      using less [of "i + 1"] True assms by simp
    also have "i < (length obj + bs - 1) div bs"
    proof -
      have "(i + 1) * bs \<le> length obj + bs - 1" using True by simp
      then have "i + 1 \<le> (length obj + bs - 1) div bs" using assms by (simp add: less_eq_div_iff_mult_less_eq)
      then show ?thesis by simp
    qed
    ultimately show ?thesis by (simp add: object_blocks_def upt_conv_Cons)
  next
    case False
    then have "length obj + bs - 1 < (i + 1) * bs" using assms by simp
    then have "(length obj + bs - 1) div bs < i + 1" using assms by (simp only: div_less_iff_less_mult)
    then show ?thesis using False by (simp add: object_blocks_def)
  qed
qed

subsection \<open>The flush loop cuts the stream into blocks\<close>

definition job_block :: "write_job \<Rightarrow> block" where
  "job_block j = (wj_buf j, wj_bitIdx j, wj_pos j)"

text \<open>A callback that never fails, and the cache after a sequence of jobs.\<close>

definition accepts :: "'w on_success \<Rightarrow> bool" where
  "accepts cb \<longleftrightarrow> (\<forall>j w. fst (cb j w) = None)"

definition run_jobs :: "'w on_success \<Rightarrow> write_job list \<Rightarrow> 'w \<Rightarrow> 'w" where
  "run_jobs cb jobs w = fold (\<lambda>j w. snd (cb j w)) jobs w"

lemma run_jobs_simps [simp]: "run_jobs cb [] w = w" "run_jobs cb (xs @ ys) w = run_jobs cb ys (run_jobs cb xs w)"
  "run_jobs cb [j] w = snd (cb j w)"
  by (simp_all add: run_jobs_def)

text \<open>
  Out of the skip mode, after the bytes \<open>c\<close> counted from the start of block \<open>i\<close>: the full blocks
  but the last are with the cache, the buffer holds the rest.
\<close>

definition sp_inv :: "nat \<Rightarrow> nat \<Rightarrow> bytes \<Rightarrow> savepart \<Rightarrow> write_job list \<Rightarrow> bool" where
  "sp_inv bs i c s jobs \<longleftrightarrow> \<not> sp_skip s \<and> sp_pos s = i * bs + length c \<and> length (sp_buf s) \<le> bs \<and>
     (\<exists>m. m * bs + length (sp_buf s) = length c \<and> drop (m * bs) c = sp_buf s \<and>
       map job_block jobs = emit bs i (take (m * bs) c))"

lemma writeBlock_inv:
  assumes "sp_inv bs i c s jobs" "0 < bs" "accepts cb" "w = run_jobs cb jobs w0"
  shows "\<exists>jobs'. writeBlock bs cb eof (s, w) = (None, s\<lparr>sp_eof := eof, sp_buf := []\<rparr>, run_jobs cb jobs' w0) \<and>
    map job_block jobs' = emit bs i c"
proof -
  obtain m where m: "m * bs + length (sp_buf s) = length c" "drop (m * bs) c = sp_buf s"
    "map job_block jobs = emit bs i (take (m * bs) c)" "sp_pos s = i * bs + length c" "length (sp_buf s) \<le> bs"
    using assms(1) unfolding sp_inv_def by blast
  have c: "take (m * bs) c @ sp_buf s = c" using m(2) append_take_drop_id by metis
  have len: "length (take (m * bs) c) = m * bs" using m(1) by simp
  show ?thesis
  proof (cases "sp_buf s = []")
    case True
    then have "take (m * bs) c = c" using c by (simp only: append_Nil2)
    then show ?thesis
      using True m(3) assms(4) by (intro exI [of _ jobs]) (simp add: writeBlock_def)
  next
    case False
    let ?j = "\<lparr>wj_buf = sp_buf s, wj_bitIdx = ((sp_pos s - length (sp_buf s)) div bs) mod 4294967296,
      wj_pos = sp_pos s, wj_eof = eof\<rparr>"
    have "(sp_pos s - length (sp_buf s)) div bs = i + m"
      using m(1) [symmetric] m(4) assms(2) by (simp add: add_mult_distrib [symmetric])
    then have "job_block ?j = (sp_buf s, (i + m) mod 4294967296, (i + m) * bs + length (sp_buf s))"
      using m(1) [symmetric] m(4) by (simp add: job_block_def add_mult_distrib)
    then have "map job_block (jobs @ [?j]) = emit bs i (take (m * bs) c) @ emit bs (i + m) (sp_buf s)"
      using m(3) emit_last [OF assms(2) False m(5), of "i + m"] by simp
    also have "\<dots> = emit bs i c"
      using emit_append [OF assms(2) len, of i "sp_buf s"] by (simp only: c)
    finally have "map job_block (jobs @ [?j]) = emit bs i c" .
    moreover obtain w' where "cb ?j w = (None, w')"
      using assms(3) unfolding accepts_def by (metis prod.collapse)
    then have "writeBlock bs cb eof (s, w) = (None, s\<lparr>sp_eof := eof, sp_buf := []\<rparr>, run_jobs cb (jobs @ [?j]) w0)"
      using False assms(4) by (simp add: writeBlock_def Let_def)
    ultimately show ?thesis by blast
  qed
qed

lemma flush_loop_inv:
  assumes "sp_inv bs i c s jobs" "0 < bs" "accepts cb" "w = run_jobs cb jobs w0"
  shows "\<exists>s' jobs'. flush_loop bs cb eof data (s, w) = Some (None, s', run_jobs cb jobs' w0) \<and>
    sp_inv bs i (c @ data) s' jobs' \<and> sp_closed s' = sp_closed s"
  using assms(1,4)
proof (induction "length data" arbitrary: data s c jobs w rule: less_induct)
  case less
  show ?case
  proof (cases "data = []")
    case True
    then show ?thesis using less.prems by (auto simp: flush_loop.simps)
  next
    case False
    let ?to = "bs - sp_pos s mod bs"
    let ?tow = "min ?to (length data)"
    obtain m where m: "m * bs + length (sp_buf s) = length c" "drop (m * bs) c = sp_buf s"
      "map job_block jobs = emit bs i (take (m * bs) c)" "sp_pos s = i * bs + length c" "length (sp_buf s) \<le> bs"
      "\<not> sp_skip s"
      using less.prems(1) unfolding sp_inv_def by blast
    have md: "sp_pos s mod bs = length (sp_buf s) mod bs"
      using m(1) [symmetric] m(4) by (simp add: add.assoc [symmetric] add_mult_distrib [symmetric])
    have tow: "0 < ?tow" using False assms(2) mod_less_divisor [OF assms(2)] by simp
    obtain s1 jobs1 where s1: "(if length (sp_buf s) = bs then writeBlock bs cb eof (s, w) else (None, s, w)) =
        (None, s1, run_jobs cb jobs1 w0)"
      and inv1: "sp_inv bs i c s1 jobs1" "length (sp_buf s1) < bs" "length (sp_buf s1) = sp_pos s mod bs"
        "sp_pos s1 = sp_pos s" "sp_closed s1 = sp_closed s"
    proof (cases "length (sp_buf s) = bs")
      case full: True
      obtain jobs' where j: "writeBlock bs cb eof (s, w) = (None, s\<lparr>sp_eof := eof, sp_buf := []\<rparr>, run_jobs cb jobs' w0)"
        "map job_block jobs' = emit bs i c"
        using writeBlock_inv [OF less.prems(1) assms(2,3) less.prems(2)] by blast
      have "sp_inv bs i c (s\<lparr>sp_eof := eof, sp_buf := []\<rparr>) jobs'"
        unfolding sp_inv_def
      proof (intro conjI exI [of _ "m + 1"])
        have len: "(m + 1) * bs = length c" using m(1) full by simp
        show "(m + 1) * bs + length (sp_buf (s\<lparr>sp_eof := eof, sp_buf := []\<rparr>)) = length c"
          unfolding len by simp
        show "drop ((m + 1) * bs) c = sp_buf (s\<lparr>sp_eof := eof, sp_buf := []\<rparr>)"
          unfolding len by simp
        show "map job_block jobs' = emit bs i (take ((m + 1) * bs) c)"
          unfolding len using j(2) by simp
      qed (use m(4,6) in simp_all)
      then show thesis using that [of "s\<lparr>sp_eof := eof, sp_buf := []\<rparr>" jobs'] j(1) full md assms(2) by simp
    next
      case part: False
      show thesis
      proof (rule that [of s jobs])
        show "length (sp_buf s) < bs" using part m(5) by simp
        then show "length (sp_buf s) = sp_pos s mod bs" using md by simp
      qed (use part less.prems in simp_all)
    qed
    let ?s2 = "s1\<lparr>sp_buf := sp_buf s1 @ take ?tow data, sp_pos := sp_pos s1 + ?tow\<rparr>"
    have loop: "flush_loop bs cb eof data (s, w) = flush_loop bs cb eof (drop ?tow data) (?s2, run_jobs cb jobs1 w0)"
      using False assms(2) m(6) s1 inv1(4) by (subst flush_loop.simps) (simp add: Let_def)
    have inv2: "sp_inv bs i (c @ take ?tow data) ?s2 jobs1"
    proof -
      obtain m1 where m1: "m1 * bs + length (sp_buf s1) = length c" "drop (m1 * bs) c = sp_buf s1"
        "map job_block jobs1 = emit bs i (take (m1 * bs) c)"
        using inv1(1) unfolding sp_inv_def by blast
      have "length (sp_buf s1) + ?tow \<le> bs" using inv1(2,3) by linarith
      then show ?thesis
        using m1 inv1(1) by (auto simp: sp_inv_def intro!: exI [of _ m1])
    qed
    have "length (drop ?tow data) < length data" using tow False by simp
    from less.hyps [OF this inv2 refl] show ?thesis
      using loop inv1(5) by simp
  qed
qed

text \<open>How many bytes the skip mode drops from a stream that starts at position \<open>a\<close>.\<close>

definition to_skip :: "nat \<Rightarrow> nat \<Rightarrow> nat" where
  "to_skip bs a = (bs - a mod bs) mod bs"

lemma to_skip_aligned: "0 < bs \<Longrightarrow> (a + to_skip bs a) mod bs = 0"
  unfolding to_skip_def mod_add_right_eq
  by (metis add.commute le_add_diff_inverse2 mod_add_right_eq mod_less_divisor mod_self order_less_imp_le)

lemma to_skip_step:
  assumes "0 < bs" "x < to_skip bs a"
  shows "(a + x) mod bs \<noteq> 0" "bs - (a + x) mod bs = to_skip bs a - x"
proof -
  have r: "0 < a mod bs" using assms by (cases "a mod bs = 0") (auto simp: to_skip_def)
  then have n: "to_skip bs a = bs - a mod bs" using assms(1) by (simp add: to_skip_def)
  have "(a + x) mod bs = (a mod bs + x) mod bs" by (simp add: mod_add_left_eq)
  also have "\<dots> = a mod bs + x" using assms n by simp
  finally have "(a + x) mod bs = a mod bs + x" .
  then show "(a + x) mod bs \<noteq> 0" "bs - (a + x) mod bs = to_skip bs a - x" using r n by auto
qed

lemma to_skip_0: "to_skip bs 0 = 0"
  by (simp add: to_skip_def)

text \<open>The state after the bytes \<open>d\<close> of a stream from position \<open>a\<close>, skipping or not.\<close>

definition sp_state :: "nat \<Rightarrow> nat \<Rightarrow> bytes \<Rightarrow> savepart \<Rightarrow> write_job list \<Rightarrow> bool" where
  "sp_state bs a d s jobs \<longleftrightarrow>
     sp_skip s \<and> jobs = [] \<and> sp_buf s = [] \<and> sp_pos s = a + length d \<and> length d \<le> to_skip bs a \<or>
     to_skip bs a \<le> length d \<and> sp_inv bs ((a + to_skip bs a) div bs) (drop (to_skip bs a) d) s jobs"

lemma sp_inv_start:
  assumes "0 < bs" "\<not> sp_skip s" "sp_buf s = []" "sp_pos s = a + to_skip bs a"
  shows "sp_inv bs ((a + to_skip bs a) div bs) [] s []"
  using assms to_skip_aligned [OF assms(1), of a]
  by (auto simp: sp_inv_def intro: exI [of _ 0])

lemma savepart_init_state: "0 < bs \<Longrightarrow> sp_state bs a [] (savepart_init a) []"
  using sp_inv_start [of bs "savepart_init 0" 0] to_skip_0
  by (cases "a = 0") (simp_all add: sp_state_def savepart_init_def)

lemma flush_loop_state:
  assumes "0 < bs" "accepts cb" "sp_state bs a d s jobs" "w = run_jobs cb jobs w0"
  shows "\<exists>s' jobs'. flush_loop bs cb eof data (s, w) = Some (None, s', run_jobs cb jobs' w0) \<and>
    sp_state bs a (d @ data) s' jobs' \<and> sp_closed s' = sp_closed s"
  using assms(3,4)
proof (induction "length data" arbitrary: data s d jobs w rule: less_induct)
  case less
  let ?n = "to_skip bs a"
  show ?case
  proof (cases "?n \<le> length d \<and> sp_inv bs ((a + ?n) div bs) (drop ?n d) s jobs")
    case True
    then show ?thesis
      using flush_loop_inv [OF _ assms(1,2) less.prems(2), of "(a + ?n) div bs" "drop ?n d" s eof data]
      by (auto simp: sp_state_def)
  next
    case False
    then have sk: "sp_skip s" "jobs = []" "sp_buf s = []" "sp_pos s = a + length d" "length d \<le> ?n"
      using less.prems(1) by (auto simp: sp_state_def)
    show ?thesis
    proof (cases "data = []")
      case True
      then show ?thesis using less.prems by (auto simp: flush_loop.simps)
    next
      case data: False
      show ?thesis
      proof (cases "length d = ?n")
        case True
        let ?s = "s\<lparr>sp_skip := False\<rparr>"
        have "flush_loop bs cb eof data (s, w) = flush_loop bs cb eof data (?s, w)"
          using data sk True to_skip_aligned [OF assms(1), of a] assms(1) by (subst flush_loop.simps) simp
        moreover have "sp_inv bs ((a + ?n) div bs) (drop ?n d) ?s jobs"
          using sp_inv_start [OF assms(1), of ?s a] sk True by simp
        ultimately show ?thesis
          using flush_loop_inv [OF _ assms(1,2) less.prems(2), of "(a + ?n) div bs" "drop ?n d" ?s eof data] True
          by (auto simp: sp_state_def)
      next
        case lt: False
        then have lt: "length d < ?n" using sk by simp
        let ?k = "min (?n - length d) (length data)"
        let ?s = "s\<lparr>sp_pos := sp_pos s + ?k\<rparr>"
        have "flush_loop bs cb eof data (s, w) = flush_loop bs cb eof (drop ?k data) (?s, w)"
          using data sk to_skip_step [OF assms(1) lt] assms(1) by (subst flush_loop.simps) (simp add: Let_def)
        moreover have "sp_state bs a (d @ take ?k data) ?s jobs"
          using sk lt by (auto simp: sp_state_def)
        moreover have "length (drop ?k data) < length data" using data lt by simp
        ultimately show ?thesis using less.hyps [of "drop ?k data" "d @ take ?k data" ?s jobs w] less.prems(2) by simp
      qed
    qed
  qed
qed

lemma flush_mid:
  assumes "0 < bs" "accepts cb" "sp_state bs a d s jobs" "w = run_jobs cb jobs w0"
  shows "\<exists>s' jobs'. flush bs cb data False (s, w) = Some (None, s', run_jobs cb jobs' w0) \<and>
    sp_state bs a (d @ data) s' jobs' \<and> sp_closed s' = sp_closed s"
  using flush_loop_state [OF assms, of False data] by (auto simp: flush_def)

lemma flush_final:
  assumes "0 < bs" "accepts cb" "sp_state bs a d s jobs" "w = run_jobs cb jobs w0"
  shows "\<exists>s' jobs'. flush bs cb data True (s, w) = Some (None, s', run_jobs cb jobs' w0) \<and>
    map job_block jobs' = emit bs ((a + to_skip bs a) div bs) (drop (to_skip bs a) (d @ data)) \<and>
    sp_closed s' = sp_closed s \<and> sp_eof s'"
proof -
  let ?n = "to_skip bs a"
  obtain s1 jobs1 where loop: "flush_loop bs cb True data (s, w) = Some (None, s1, run_jobs cb jobs1 w0)"
    "sp_state bs a (d @ data) s1 jobs1" "sp_closed s1 = sp_closed s"
    using flush_loop_state [OF assms, of True data] by blast
  from loop(2) consider "jobs1 = []" "sp_buf s1 = []" "length (d @ data) \<le> ?n"
    | "sp_inv bs ((a + ?n) div bs) (drop ?n (d @ data)) s1 jobs1"
    unfolding sp_state_def by blast
  then show ?thesis
  proof cases
    case 1
    then show ?thesis
      using loop by (intro exI [of _ "s1\<lparr>sp_eof := True\<rparr>"] exI [of _ "[]"]) (simp add: flush_def writeBlock_def)
  next
    case 2
    from writeBlock_inv [OF this assms(1,2) refl, of True w0] show ?thesis
      using loop(1,3) by (auto simp: flush_def)
  qed
qed

lemma ceil_div: "0 < bs \<Longrightarrow> (a + to_skip bs a) div bs = (a + bs - 1) div bs"
proof -
  assume bs: "0 < bs"
  have a: "a = a div bs * bs + a mod bs" by simp
  show ?thesis
  proof (cases "a mod bs = 0")
    case True
    then have "a + bs - 1 = a div bs * bs + (bs - 1)" using a bs by linarith
    then have "(a + bs - 1) div bs = a div bs + (bs - 1) div bs" using bs by (simp only: div_mult_self3)
    moreover have "to_skip bs a = 0" using True by (simp add: to_skip_def)
    ultimately show ?thesis using bs by simp
  next
    case False
    then have n: "to_skip bs a = bs - a mod bs" using bs by (simp add: to_skip_def)
    then have "a + to_skip bs a = (a div bs + 1) * bs"
      unfolding add_mult_distrib mult_1 using a mod_less_divisor [OF bs, of a] by linarith
    moreover have "a + bs - 1 = (a div bs + 1) * bs + (a mod bs - 1)"
      unfolding add_mult_distrib mult_1 using a False by linarith
    moreover have "(a mod bs - 1) div bs = 0" using mod_less_divisor [OF bs, of a] by simp
    ultimately show ?thesis using bs by (simp only: div_mult_self3 div_mult_self_is_m)
  qed
qed

text \<open>The blocks of the tail of an object.\<close>

lemma emit_tail:
  assumes "0 < bs"
  shows "emit bs ((a + to_skip bs a) div bs) (drop (to_skip bs a) (drop a obj)) =
    object_blocks bs obj ((a + bs - 1) div bs)"
proof -
  have "(a + to_skip bs a) div bs * bs = a + to_skip bs a"
    using to_skip_aligned [OF assms, of a] by (simp add: minus_mod_eq_div_mult [symmetric])
  then show ?thesis
    using emit_object [OF assms, of "(a + to_skip bs a) div bs" obj] ceil_div [OF assms, of a]
    by (simp add: add.commute)
qed

subsection \<open>Reading a body through the savepart reader\<close>

text \<open>A caller that reads with buffers of \<open>k\<close> bytes until an error.\<close>

partial_function (option) drain ::
  "('s \<Rightarrow> nat \<Rightarrow> 's read_result) \<Rightarrow> nat \<Rightarrow> 's \<Rightarrow> bytes \<Rightarrow> (bytes \<times> go_err \<times> 's) option" where
  "drain step k s out =
     Option.bind (step s k) (\<lambda>(xs, e, s').
       (case e of None \<Rightarrow> drain step k s' (out @ xs) | Some err \<Rightarrow> Some (out @ xs, err, s')))"

lemma drain_savepart:
  assumes bs: "0 < bs" "accepts cb" "0 < k" and del: "delivers R body EOF"
  shows "sp_state bs a d s jobs \<longrightarrow>
    (\<exists>R' s' jobs'. drain (savepart_Read bs cb oe) k (R, s, run_jobs cb jobs w0) out =
        Some (out @ body, EOF, R', s', run_jobs cb jobs' w0) \<and>
      map job_block jobs' = emit bs ((a + to_skip bs a) div bs) (drop (to_skip bs a) (d @ body)) \<and> ended R')"
  using del
proof (induction arbitrary: s d jobs out rule: delivers_induct)
  case (step R body)
  show ?case
  proof (intro impI)
    assume st: "sp_state bs a d s jobs"
    from step(2) [OF assms(3)]
    show "\<exists>R' s' jobs'. drain (savepart_Read bs cb oe) k (R, s, run_jobs cb jobs w0) out =
        Some (out @ body, EOF, R', s', run_jobs cb jobs' w0) \<and>
      map job_block jobs' = emit bs ((a + to_skip bs a) div bs) (drop (to_skip bs a) (d @ body)) \<and> ended R'"
    proof (elim disjE exE conjE)
      fix xs R' body'
      assume rd: "rd_read R k = Some (xs, None, R')" "body = xs @ body'"
        and IH: "\<forall>s d jobs out. sp_state bs a d s jobs \<longrightarrow>
          (\<exists>R'' s' jobs'. drain (savepart_Read bs cb oe) k (R', s, run_jobs cb jobs w0) out =
              Some (out @ body', EOF, R'', s', run_jobs cb jobs' w0) \<and>
            map job_block jobs' = emit bs ((a + to_skip bs a) div bs) (drop (to_skip bs a) (d @ body')) \<and> ended R'')"
      obtain s1 jobs1 where f: "flush bs cb xs False (s, run_jobs cb jobs w0) = Some (None, s1, run_jobs cb jobs1 w0)"
        "sp_state bs a (d @ xs) s1 jobs1"
        using flush_mid [OF bs(1,2) st refl] by blast
      have "drain (savepart_Read bs cb oe) k (R, s, run_jobs cb jobs w0) out =
          drain (savepart_Read bs cb oe) k (R', s1, run_jobs cb jobs1 w0) (out @ xs)"
        by (subst drain.simps) (simp add: savepart_Read_def rd(1) f(1))
      then show ?thesis using IH [rule_format, OF f(2), of "out @ xs"] rd(2) by simp
    next
      fix R'
      assume rd: "rd_read R k = Some (body, Some EOF, R')" "ended R'"
      obtain s1 jobs1 where f: "flush bs cb body True (s, run_jobs cb jobs w0) = Some (None, s1, run_jobs cb jobs1 w0)"
        "map job_block jobs1 = emit bs ((a + to_skip bs a) div bs) (drop (to_skip bs a) (d @ body))"
        using flush_final [OF bs(1,2) st refl] by blast
      have "drain (savepart_Read bs cb oe) k (R, s, run_jobs cb jobs w0) out =
          Some (out @ body, EOF, R', s1, run_jobs cb jobs1 w0)"
        by (subst drain.simps) (simp add: savepart_Read_def rd(1) f(1))
      then show ?thesis using f(2) rd(2) by blast
    qed
  qed
qed

subsection \<open>The asynchronous reader emits the same jobs\<close>

definition enq :: "write_job list on_success" where
  "enq j ch = (None, ch @ [j])"

lemma accepts_enq: "accepts enq"
  by (simp add: accepts_def enq_def)

lemma run_jobs_enq: "run_jobs enq jobs ch = ch @ jobs"
  unfolding run_jobs_def by (induction jobs arbitrary: ch) (auto simp: enq_def)

lemma writeBlock_enq: "writeBlock bs enq eof (s, ch) = (None, enqueueWrite bs eof (s, ch))"
  by (simp add: writeBlock_def enqueueWrite_def enq_def Let_def)

lemma async_loop_flush_loop:
  "flush_loop bs enq eof data (s, ch) = map_option (Pair None) (async_loop bs eof data (s, ch))"
proof (induction bs eof data "(s, ch)" arbitrary: s ch rule: async_loop.induct)
  case (1 bs eof data s ch)
  show ?case
  proof (cases "data = [] \<or> bs = 0")
    case True
    then show ?thesis by (auto simp: flush_loop.simps async_loop.simps)
  next
    case False
    then show ?thesis
      using 1(1) [of "sp_pos s mod bs" "bs - sp_pos s mod bs"] 1(2) [of "sp_pos s mod bs" "bs - sp_pos s mod bs"]
        1(3) [of "sp_pos s mod bs" "bs - sp_pos s mod bs"]
      by (subst flush_loop.simps, subst async_loop.simps) (auto simp: Let_def writeBlock_enq split: prod.splits)
  qed
qed

lemma async_flush_flush:
  "flush bs enq data eof (s, ch) = map_option (Pair None) (async_flush bs data eof (s, ch))"
  by (auto simp: flush_def async_flush_def async_loop_flush_loop writeBlock_enq split: option.splits)

lemma enqueueWrite_prefix:
  "enqueueWrite bs eof (s, pre @ ch) = map_prod id ((@) pre) (enqueueWrite bs eof (s, ch))"
  by (simp add: enqueueWrite_def Let_def)

lemma async_loop_prefix:
  "async_loop bs eof data (s, pre @ ch) = map_option (map_prod id ((@) pre)) (async_loop bs eof data (s, ch))"
proof (induction bs eof data "(s, ch)" arbitrary: s ch rule: async_loop.induct)
  case (1 bs eof data s ch)
  show ?case
  proof (cases "data = [] \<or> bs = 0")
    case True
    then show ?thesis by (auto simp: async_loop.simps)
  next
    case False
    then show ?thesis
      using 1(1) [of "sp_pos s mod bs" "bs - sp_pos s mod bs"] 1(2) [of "sp_pos s mod bs" "bs - sp_pos s mod bs"]
        1(3) [of "sp_pos s mod bs" "bs - sp_pos s mod bs"]
      by (subst (1 2) async_loop.simps) (auto simp: Let_def enqueueWrite_prefix split: prod.splits)
  qed
qed

lemma async_flush_prefix:
  "async_flush bs data eof (s, pre @ ch) = map_option (map_prod id ((@) pre)) (async_flush bs data eof (s, ch))"
  by (auto simp: async_flush_def async_loop_prefix enqueueWrite_prefix split: option.splits)

text \<open>
  The reader side and the writer goroutine interleave: a schedule is a list of chunks read from
  the source, the last of them with the end of file, and of rounds of the writer.
\<close>

datatype async_ev = Chunk bytes | Last bytes | Writer

fun async_event :: "nat \<Rightarrow> 'w on_success \<Rightarrow> 'w on_error \<Rightarrow> async_ev \<Rightarrow> 'w async \<Rightarrow> 'w async option" where
  "async_event bs cb oe (Chunk xs) a =
     (case async_flush bs xs False (as_sp a, as_ch a) of
        None \<Rightarrow> None | Some (s, ch) \<Rightarrow> Some (a\<lparr>as_sp := s, as_ch := ch\<rparr>))"
| "async_event bs cb oe (Last xs) a =
     (case async_flush bs xs True (as_sp a, as_ch a) of
        None \<Rightarrow> None | Some (s, ch) \<Rightarrow> Some (a\<lparr>as_sp := s, as_ch := ch\<rparr>))"
| "async_event bs cb oe Writer a = Some (writer_round cb oe a)"

fun async_run :: "nat \<Rightarrow> 'w on_success \<Rightarrow> 'w on_error \<Rightarrow> async_ev list \<Rightarrow> 'w async \<Rightarrow> 'w async option" where
  "async_run bs cb oe [] a = Some a"
| "async_run bs cb oe (ev # evs) a = Option.bind (async_event bs cb oe ev a) (async_run bs cb oe evs)"

fun ev_data :: "async_ev \<Rightarrow> bytes" where
  "ev_data (Chunk xs) = xs"
| "ev_data (Last xs) = xs"
| "ev_data Writer = []"

definition is_mid :: "async_ev \<Rightarrow> bool" where
  "is_mid ev \<longleftrightarrow> (case ev of Last _ \<Rightarrow> False | _ \<Rightarrow> True)"

definition async_inv :: "'w on_success \<Rightarrow> 'w \<Rightarrow> write_job list \<Rightarrow> 'w async \<Rightarrow> bool" where
  "async_inv cb w0 jobs a \<longleftrightarrow> as_err a = None \<and> \<not> sp_closed (as_sp a) \<and>
     (\<exists>dn. jobs = dn @ as_ch a \<and> as_w a = run_jobs cb dn w0)"

lemma writer_round_inv:
  assumes "accepts cb" "async_inv cb w0 jobs a"
  shows "async_inv cb w0 jobs (writer_round cb oe a)"
    and "as_sp (writer_round cb oe a) = as_sp a" "as_ch (writer_round cb oe a) = tl (as_ch a)"
proof -
  obtain dn where dn: "jobs = dn @ as_ch a" "as_w a = run_jobs cb dn w0"
    using assms(2) by (auto simp: async_inv_def)
  have round: "writer_round cb oe a =
      (case as_ch a of [] \<Rightarrow> a | j # ch \<Rightarrow> a\<lparr>as_ch := ch, as_w := snd (cb j (as_w a))\<rparr>)"
  proof (cases "as_ch a")
    case (Cons j ch)
    obtain w' where "cb j (as_w a) = (None, w')"
      using assms(1) unfolding accepts_def by (metis prod.collapse)
    then show ?thesis using Cons by (simp add: writer_round_def)
  qed (simp add: writer_round_def)
  show "as_sp (writer_round cb oe a) = as_sp a" "as_ch (writer_round cb oe a) = tl (as_ch a)"
    by (simp_all add: round split: list.splits)
  show "async_inv cb w0 jobs (writer_round cb oe a)"
  proof (cases "as_ch a")
    case Nil
    then show ?thesis using assms(2) by (simp add: round)
  next
    case (Cons j ch)
    then show ?thesis
      using assms(2) dn by (auto simp: round async_inv_def intro!: exI [of _ "dn @ [j]"])
  qed
qed

lemma async_flush_inv:
  assumes "async_inv cb w0 jobs a" "flush bs enq xs eof (as_sp a, jobs) = Some (None, s', jobs')"
    and "sp_closed s' = sp_closed (as_sp a)"
  shows "\<exists>ch'. async_flush bs xs eof (as_sp a, as_ch a) = Some (s', ch') \<and>
    async_inv cb w0 jobs' (a\<lparr>as_sp := s', as_ch := ch'\<rparr>)"
proof -
  obtain dn where dn: "jobs = dn @ as_ch a" "as_w a = run_jobs cb dn w0"
    using assms(1) by (auto simp: async_inv_def)
  have "map_option (map_prod id ((@) dn)) (async_flush bs xs eof (as_sp a, as_ch a)) = Some (s', jobs')"
    using assms(2) dn(1) async_flush_flush [of bs xs eof "as_sp a" jobs]
      async_flush_prefix [of bs xs eof "as_sp a" dn "as_ch a"]
    by (cases "async_flush bs xs eof (as_sp a, as_ch a)") auto
  then obtain ch' where "async_flush bs xs eof (as_sp a, as_ch a) = Some (s', ch')" "jobs' = dn @ ch'"
    by auto
  then show ?thesis using assms(1,3) dn by (auto simp: async_inv_def)
qed

lemma async_run_mid:
  assumes "0 < bs" "accepts cb" "list_all is_mid evs"
    and "async_inv cb w0 jobs a" "sp_state bs p d (as_sp a) jobs"
  shows "\<exists>a' jobs'. async_run bs cb oe evs a = Some a' \<and> async_inv cb w0 jobs' a' \<and>
    sp_state bs p (d @ concat (map ev_data evs)) (as_sp a') jobs'"
  using assms(3-5)
proof (induction evs arbitrary: a d jobs)
  case (Cons ev evs)
  have "\<exists>a1 jobs1. async_event bs cb oe ev a = Some a1 \<and> async_inv cb w0 jobs1 a1 \<and>
      sp_state bs p (d @ ev_data ev) (as_sp a1) jobs1"
  proof (cases ev)
    case (Chunk xs)
    obtain s' jobs' where f: "flush bs enq xs False (as_sp a, jobs) = Some (None, s', jobs')"
      "sp_state bs p (d @ xs) s' jobs'" "sp_closed s' = sp_closed (as_sp a)"
      using flush_mid [OF assms(1) accepts_enq Cons.prems(3), of jobs "[]" xs] by (auto simp: run_jobs_enq)
    then show ?thesis
      using async_flush_inv [OF Cons.prems(2) f(1,3)] Chunk by auto
  next
    case Writer
    then show ?thesis using writer_round_inv [OF assms(2) Cons.prems(2), of oe] Cons.prems(3) by auto
  qed (use Cons.prems(1) in \<open>simp add: is_mid_def\<close>)
  then show ?case using Cons by fastforce
qed auto

lemma async_run_append:
  "async_run bs cb oe (xs @ ys) a = Option.bind (async_run bs cb oe xs a) (async_run bs cb oe ys)"
  by (induction xs arbitrary: a) (auto split: bind_splits)

lemma async_run_writers:
  assumes "accepts cb" "async_inv cb w0 jobs a"
  shows "\<exists>a'. async_run bs cb oe (replicate n Writer) a = Some a' \<and> async_inv cb w0 jobs a'"
  using assms(2) by (induction n arbitrary: a) (auto simp: writer_round_inv [OF assms(1)])

lemma writer_rounds_drain:
  assumes "accepts cb" "async_inv cb w0 jobs a"
  shows "as_w ((writer_round cb oe ^^ length (as_ch a)) a) = run_jobs cb jobs w0"
  using assms(2)
proof (induction "length (as_ch a)" arbitrary: a)
  case 0
  then show ?case by (auto simp: async_inv_def)
next
  case (Suc n)
  have "n = length (as_ch (writer_round cb oe a))"
    using Suc.hyps(2) writer_round_inv(3) [OF assms(1) Suc.prems, of oe] by simp
  with Suc.hyps(1) [OF this writer_round_inv(1) [OF assms(1) Suc.prems, of oe]] show ?case
    by (simp only: Suc.hyps(2) [symmetric] funpow_Suc_right comp_def)
qed

lemma async_schedule:
  assumes "0 < bs" "accepts cb" "list_all is_mid pre"
  shows "\<exists>a' jobs. async_run bs cb oe (pre @ [Last xs] @ replicate n Writer) (async_init p w0) = Some a' \<and>
    async_inv cb w0 jobs a' \<and>
    map job_block jobs = emit bs ((p + to_skip bs p) div bs) (drop (to_skip bs p) (concat (map ev_data pre) @ xs))"
proof -
  let ?d = "concat (map ev_data pre)"
  have "async_inv cb w0 [] (async_init p w0)" "sp_state bs p [] (as_sp (async_init p w0)) []"
    using savepart_init_state [OF assms(1), of p] by (simp_all add: async_inv_def async_init_def savepart_init_def)
  from async_run_mid [OF assms this, of oe] obtain a1 jobs1 where a1: "async_run bs cb oe pre (async_init p w0) = Some a1"
    "async_inv cb w0 jobs1 a1" "sp_state bs p ?d (as_sp a1) jobs1" by auto
  obtain s' jobs' where f: "flush bs enq xs True (as_sp a1, jobs1) = Some (None, s', jobs')"
    "map job_block jobs' = emit bs ((p + to_skip bs p) div bs) (drop (to_skip bs p) (?d @ xs))"
    "sp_closed s' = sp_closed (as_sp a1)"
    using flush_final [OF assms(1) accepts_enq a1(3), of jobs1 "[]" xs] by (auto simp: run_jobs_enq)
  from async_flush_inv [OF a1(2) f(1,3)] obtain a2 where a2: "async_event bs cb oe (Last xs) a1 = Some a2"
    "async_inv cb w0 jobs' a2" by auto
  from async_run_writers [OF assms(2) a2(2), of bs oe n] show ?thesis
    using a1(1) a2(1) f(2) by (auto simp: async_run_append)
qed

lemma async_Close_drains:
  assumes "accepts cb" "async_inv cb w0 jobs a"
  shows "as_w (async_Close cb oe None a) = run_jobs cb jobs w0"
proof -
  let ?a = "a\<lparr>as_sp := (as_sp a)\<lparr>sp_closed := True\<rparr>\<rparr>"
  have one: "writer_round cb oe (b\<lparr>as_sp := s\<rparr>) = (writer_round cb oe b)\<lparr>as_sp := s\<rparr>" for s b
    by (auto simp: writer_round_def split: list.splits prod.splits option.splits)
  have "(writer_round cb oe ^^ m) (b\<lparr>as_sp := s\<rparr>) = ((writer_round cb oe ^^ m) b)\<lparr>as_sp := s\<rparr>" for m s b
    by (induction m) (simp_all add: one)
  then show ?thesis
    using writer_rounds_drain [OF assms, of oe] assms(2) by (simp add: async_Close_def async_inv_def Let_def)
qed

subsection \<open>Properties\<close>

text \<open>A cache that only records the blocks it is given.\<close>

definition record_block :: "block list on_success" where
  "record_block j w = (None, w @ [job_block j])"

lemma accepts_record: "accepts record_block"
  by (simp add: accepts_def record_block_def)

lemma run_jobs_record: "run_jobs record_block jobs w = w @ map job_block jobs"
  unfolding run_jobs_def by (induction jobs arbitrary: w) (auto simp: record_block_def)

text \<open>C1: reading the tail of an object from byte \<open>a\<close> on through the savepart reader, with any positive
  buffer size and any segmentation of the source, returns that tail to the caller unchanged and
  hands the cache, in order and once each, exactly the blocks of the object that start at or
  after \<open>a\<close>: for each index its bytes and the position after it.\<close>

theorem savepart_blocks:
  assumes "0 < bs" "accepts cb" "0 < k" "delivers R (drop a obj) EOF"
  shows "\<exists>R' s' jobs. drain (savepart_Read bs cb oe) k (R, savepart_init a, w0) [] =
      Some (drop a obj, EOF, R', s', run_jobs cb jobs w0) \<and>
    map job_block jobs = object_blocks bs obj ((a + bs - 1) div bs)"
proof -
  have "sp_state bs a [] (savepart_init a) []" by (rule savepart_init_state [OF assms(1)])
  from drain_savepart [OF assms, of a "[]" "savepart_init a" "[]" oe w0 "[]", rule_format, OF this]
  obtain R' s' jobs where "drain (savepart_Read bs cb oe) k (R, savepart_init a, w0) [] =
      Some (drop a obj, EOF, R', s', run_jobs cb jobs w0)"
    and "map job_block jobs = emit bs ((a + to_skip bs a) div bs) (drop (to_skip bs a) (drop a obj))"
    by (simp only: append_Nil run_jobs_simps) blast
  then show ?thesis unfolding emit_tail [OF assms(1)] by blast
qed

theorem savepart_blocks_witness:
  "\<exists>R' s' w. drain (savepart_Read 4 record_block (\<lambda>_ w. w)) 3
      (file_reader \<lparr>fl_data = ''hello world'', fl_off = 2\<rparr>, savepart_init 2, []) [] =
        Some (''llo world'', EOF, R', s', w) \<and> w = [(''o wo'', 1, 8), (''rld'', 2, 11)]"
proof -
  have d: "delivers (file_reader \<lparr>fl_data = ''hello world'', fl_off = 2\<rparr>) (drop 2 ''hello world'') EOF"
    using file_reader_delivers [of "\<lparr>fl_data = ''hello world'', fl_off = 2\<rparr>"] by simp
  have b: "object_blocks 4 ''hello world'' ((2 + 4 - 1) div 4) = [(''o wo'', 1, 8), (''rld'', 2, 11)]"
    by (simp add: object_blocks_def slice_def upt_conv_Cons)
  have e: "drop 2 ''hello world'' = ''llo world''" by simp
  from savepart_blocks [of 4 record_block 3, OF _ accepts_record _ d, of "\<lambda>_ w. w" "[]"]
  show ?thesis unfolding b e run_jobs_record by auto
qed

text \<open>C2: the asynchronous reader has the same effect as the synchronous one under every schedule: for
  any interleaving of the chunks it reads with the rounds of its writer goroutine, once it is
  closed the cache has received exactly the blocks of the object from the first block boundary
  at or after \<open>a\<close>.\<close>

theorem savepart_async_schedules:
  assumes "0 < bs" "accepts cb" "list_all is_mid pre" "concat (map ev_data pre) @ xs = drop a obj"
  shows "\<exists>st jobs. async_run bs cb oe (pre @ [Last xs] @ replicate n Writer) (async_init a w0) = Some st \<and>
    as_w (async_Close cb oe None st) = run_jobs cb jobs w0 \<and>
    map job_block jobs = object_blocks bs obj ((a + bs - 1) div bs)"
  using async_schedule [OF assms(1-3), of oe xs n a w0, unfolded assms(4) emit_tail [OF assms(1)]]
    async_Close_drains [OF assms(2), of w0 _ _ oe] by blast

theorem savepart_async_schedules_witness:
  "\<exists>st. async_run 4 record_block (\<lambda>_ w. w) ([Chunk ''he'', Writer, Chunk ''llo wo''] @ [Last ''rld''] @ replicate 1 Writer)
      (async_init 0 []) = Some st \<and>
    as_w (async_Close record_block (\<lambda>_ w. w) None st) = [(''hell'', 0, 4), (''o wo'', 1, 8), (''rld'', 2, 11)]"
proof -
  have b: "object_blocks 4 ''hello world'' ((0 + 4 - 1) div 4) = [(''hell'', 0, 4), (''o wo'', 1, 8), (''rld'', 2, 11)]"
    by (simp add: object_blocks_def slice_def upt_conv_Cons)
  have "list_all is_mid [Chunk ''he'', Writer, Chunk ''llo wo'']" by (simp add: is_mid_def)
  from savepart_async_schedules [OF _ accepts_record this, of 4 "''rld''" 0 "''hello world''" "\<lambda>_ w. w" 1 "[]"]
  show ?thesis unfolding b run_jobs_record by auto
qed

text \<open>when the cache refuses a block the flush stops with that error and keeps the refused bytes:
  the buffer still holds the block and the position is unchanged.\<close>

theorem writeBlock_refused:
  assumes "sp_buf s \<noteq> []"
    and "cb \<lparr>wj_buf = sp_buf s, wj_bitIdx = ((sp_pos s - length (sp_buf s)) div bs) mod 4294967296,
             wj_pos = sp_pos s, wj_eof = False\<rparr> w = (Some err, w')"
    and "length (sp_buf s) = bs" "\<not> sp_skip s" "data \<noteq> []"
  shows "flush bs cb data False (s, w) = Some (Some err, s\<lparr>sp_eof := False\<rparr>, w')"
proof -
  have bs: "bs \<noteq> 0" using assms(1,3) by auto
  have "writeBlock bs cb False (s, w) = (Some err, s\<lparr>sp_eof := False\<rparr>, w')"
    using assms(1,2) by (simp add: writeBlock_def Let_def)
  then have "flush_loop bs cb False data (s, w) = Some (Some err, s\<lparr>sp_eof := False\<rparr>, w')"
    using assms(3-5) bs by (subst flush_loop.simps) (simp add: Let_def)
  then show ?thesis by (simp add: flush_def)
qed

theorem writeBlock_refused_witness:
  "flush 2 (\<lambda>j w. (Some (ErrOther 7), w)) ''c'' False ((savepart_init 0)\<lparr>sp_buf := ''ab'', sp_pos := 2\<rparr>, ()) =
    Some (Some (ErrOther 7), (savepart_init 0)\<lparr>sp_buf := ''ab'', sp_pos := 2, sp_eof := False\<rparr>, ())"
  using writeBlock_refused [of "(savepart_init 0)\<lparr>sp_buf := ''ab'', sp_pos := 2\<rparr>" "\<lambda>j w. (Some (ErrOther 7), w)" 2 "()" "ErrOther 7" "()" "''c''"]
  by (simp add: savepart_init_def)

end
