(* ===== verification/Block_File.thy ===== *)
theory Block_File
  imports Go_Std
begin

text \<open>
  \<^verbatim>\<open>pkg/iobuf/blockfile.go\<close> and \<^verbatim>\<open>pkg/iobuf/ioindexes/ioindexes.go\<close>: byte ranges as sets of block
  indices.  The bitmap type is a third-party package; its operations are the argument \<open>bm\<close> of the
  definitions, and \<open>bitmap_laws\<close> states what the package documents: a bitmap is a finite set of
  \<^verbatim>\<open>uint32\<close> values that \<^verbatim>\<open>Range\<close> visits in ascending order.
\<close>

record 'b bitmap_ops =
  bm_new :: 'b
  bm_Set :: "int \<Rightarrow> 'b \<Rightarrow> 'b"
  bm_Contains :: "'b \<Rightarrow> int \<Rightarrow> bool"
  bm_Range :: "'b \<Rightarrow> int list"
  bm_Count :: "'b \<Rightarrow> int"
  bm_And :: "'b \<Rightarrow> 'b \<Rightarrow> 'b"
  bm_AndNot :: "'b \<Rightarrow> 'b \<Rightarrow> 'b"

definition bm_members :: "'b bitmap_ops \<Rightarrow> 'b \<Rightarrow> int set" where
  "bm_members bm b = set (bm_Range bm b)"

definition bitmap_laws :: "'b bitmap_ops \<Rightarrow> bool" where
  "bitmap_laws bm \<longleftrightarrow>
     bm_Range bm (bm_new bm) = [] \<and>
     (\<forall>b. sorted (bm_Range bm b) \<and> distinct (bm_Range bm b) \<and>
        (\<forall>i\<in>set (bm_Range bm b). is_u32 i) \<and>
        bm_Count bm b = int (length (bm_Range bm b)) \<and>
        (\<forall>i. bm_Contains bm b i \<longleftrightarrow> i \<in> set (bm_Range bm b)) \<and>
        (\<forall>i. is_u32 i \<longrightarrow> set (bm_Range bm (bm_Set bm i b)) = insert i (set (bm_Range bm b))) \<and>
        (\<forall>c. set (bm_Range bm (bm_And bm b c)) = set (bm_Range bm b) \<inter> set (bm_Range bm c) \<and>
             set (bm_Range bm (bm_AndNot bm b c)) = set (bm_Range bm b) - set (bm_Range bm c)))"

text \<open>An instance, used to show that the laws can hold: the ascending list of the members.\<close>

typedef u32_list = "{xs :: int list. sorted xs \<and> distinct xs \<and> (\<forall>i\<in>set xs. is_u32 i)}"
  by (rule exI [of _ "[]"]) simp

setup_lifting type_definition_u32_list

lift_definition ul_list :: "u32_list \<Rightarrow> int list" is "\<lambda>xs. xs" .

lift_definition ul_of :: "int list \<Rightarrow> u32_list" is "\<lambda>xs. sort (remdups (filter is_u32 xs))"
  by auto

definition list_bitmap :: "u32_list bitmap_ops" where
  "list_bitmap = \<lparr>bm_new = ul_of [], bm_Set = (\<lambda>i b. ul_of (i # ul_list b)),
     bm_Contains = (\<lambda>b i. i \<in> set (ul_list b)), bm_Range = ul_list,
     bm_Count = (\<lambda>b. int (length (ul_list b))),
     bm_And = (\<lambda>b c. ul_of (filter (\<lambda>i. i \<in> set (ul_list c)) (ul_list b))),
     bm_AndNot = (\<lambda>b c. ul_of (filter (\<lambda>i. i \<notin> set (ul_list c)) (ul_list b)))\<rparr>"

lemma ul_list_ok: "sorted (ul_list b)" "distinct (ul_list b)" "i \<in> set (ul_list b) \<Longrightarrow> is_u32 i"
  by (transfer; simp)+

lemma ul_list_of: "ul_list (ul_of xs) = sort (remdups (filter is_u32 xs))"
  by (simp add: ul_list.rep_eq ul_of.rep_eq)

lemma list_bitmap_laws: "bitmap_laws list_bitmap"
  by (auto simp: bitmap_laws_def list_bitmap_def ul_list_of ul_list_ok)

subsection \<open>blockfile.go\<close>

definition BitBlock :: int where
  "BitBlock = 32768"

text \<open>The counter is a \<^verbatim>\<open>uint32\<close>, so with \<^verbatim>\<open>last = MaxUint32\<close> the condition never fails.\<close>

partial_function (option) FullHit :: "'b bitmap_ops \<Rightarrow> int \<Rightarrow> int \<Rightarrow> 'b \<Rightarrow> bool option" where
  "FullHit bm first lst fs =
     (if first \<le> lst then
        (if \<not> bm_Contains bm fs first then Some False else FullHit bm (u32 (first + 1)) lst fs)
      else Some True)"

partial_function (option) PartHit :: "'b bitmap_ops \<Rightarrow> int \<Rightarrow> int \<Rightarrow> 'b \<Rightarrow> bool option" where
  "PartHit bm first lst fs =
     (if first \<le> lst then
        (if bm_Contains bm fs first then Some True else PartHit bm (u32 (first + 1)) lst fs)
      else Some False)"

text \<open>\<open>None\<close> is the panic of an integer division by zero.\<close>

definition BreakInBitmap :: "'b bitmap_ops \<Rightarrow> int \<Rightarrow> int \<Rightarrow> int \<Rightarrow> 'b option" where
  "BreakInBitmap bm start e partSize =
     (if partSize = 0 then None
      else
        (let firstIndex = start sdiv partSize; lastIndex = i64 (e sdiv partSize + 1) in
         Some (fold (\<lambda>i b. bm_Set bm (u32 i) b) [firstIndex..lastIndex - 1] (bm_new bm))))"

record block_run =
  Match :: bool
  BlockRange :: "int list"

fun group_loop :: "int list \<Rightarrow> int \<Rightarrow> int list \<Rightarrow> int list list" where
  "group_loop grp prev [] = [grp]"
| "group_loop grp prev (x # xs) =
     (if x = u32 (prev + 1) then group_loop (grp @ [x]) x xs
      else grp # group_loop [x] x xs)"

definition groupBy :: "int list \<Rightarrow> int list list" where
  "groupBy v = (case v of [] \<Rightarrow> [] | x # xs \<Rightarrow> group_loop [x] x xs)"

text \<open>The comparison converts a \<^verbatim>\<open>uint32\<close> difference, which is never negative.\<close>

definition block_cmp :: "block_run \<Rightarrow> block_run \<Rightarrow> int" where
  "block_cmp a b = u32 (hd (BlockRange a) - hd (BlockRange b))"

text \<open>The result, and the second argument as the call leaves it.\<close>

definition BlockGroup :: "'b bitmap_ops \<Rightarrow> 'b \<Rightarrow> 'b \<Rightarrow> block_run list \<times> 'b" where
  "BlockGroup bm hitter want =
     (let q1 = bm_And bm want hitter;
          hitGroup = groupBy (bm_Range bm q1);
          want' = bm_AndNot bm want hitter;
          missGroup = groupBy (bm_Range bm want');
          result = map (\<lambda>v. \<lparr>Match = True, BlockRange = v\<rparr>) hitGroup @
                   map (\<lambda>v. \<lparr>Match = False, BlockRange = v\<rparr>) missGroup
      in (SortFunc block_cmp result, want'))"

text \<open>\<open>None\<close> is the panic of indexing an empty slice.\<close>

definition ChunkPart :: "int list \<Rightarrow> int \<Rightarrow> (int \<times> int) option" where
  "ChunkPart blocks partSize =
     (if blocks = [] then None
      else Some (u32 (hd blocks * partSize), i64 (u32 (last blocks * partSize) + partSize)))"

definition BufBlock :: "int list \<Rightarrow> (int \<times> int) option" where
  "BufBlock blocks =
     (if blocks = [] then None
      else Some (u32 (hd blocks * BitBlock), i64 (u32 (last blocks * BitBlock) + BitBlock)))"

subsection \<open>ioindexes.go\<close>

text \<open>\<open>None\<close> is a division by zero or a negative capacity.\<close>

definition Build :: "int \<Rightarrow> int \<Rightarrow> int \<Rightarrow> int list option" where
  "Build start e partSize =
     (if partSize = 0 then None
      else
        (let firstIndex = start div partSize; lastIndex = u64 (e div partSize + 1) in
         if lastIndex < firstIndex then None
         else Some (map u32 [firstIndex..lastIndex - 1])))"

subsection \<open>Runs\<close>

text \<open>A run is a non-empty list of consecutive indices.\<close>

definition run :: "int list \<Rightarrow> bool" where
  "run xs \<longleftrightarrow> xs \<noteq> [] \<and> xs = [hd xs..last xs]"

text \<open>Neighbouring runs leave a gap, so no two of them could be one run.\<close>

definition gapped :: "int list list \<Rightarrow> bool" where
  "gapped xss \<longleftrightarrow> successively (\<lambda>a b. last a + 1 < hd b) xss"

lemma run_single [simp]: "run [x]"
  by (simp add: run_def)

lemma run_snoc:
  assumes "run xs"
  shows "run (xs @ [last xs + 1])"
proof -
  obtain a b where xs: "xs = [a..b]" "a \<le> b"
    using assms by (metis run_def upto_Nil2 linorder_not_le)
  have "[a..b + 1] = [a..b] @ [b + 1]"
    using xs(2) by (subst upto_rec2) simp_all
  moreover have "last [a..b] = b"
    using xs(2) by (subst upto_rec2) simp_all
  moreover have "hd [a..b] = a"
    using xs(2) by (subst upto_rec1) simp_all
  ultimately show ?thesis
    using xs by (simp add: run_def)
qed

lemma hd_group_loop: "grp \<noteq> [] \<Longrightarrow> group_loop grp p v \<noteq> [] \<and> hd (hd (group_loop grp p v)) = hd grp"
  by (induction grp p v rule: group_loop.induct) auto

lemma concat_group_loop: "concat (group_loop grp p v) = grp @ v"
  by (induction grp p v rule: group_loop.induct) auto

lemma group_loop_runs:
  assumes "run grp" "last grp = p" "sorted (p # v)" "distinct (p # v)" "\<forall>i\<in>set (p # v). is_u32 i"
  shows "(\<forall>g\<in>set (group_loop grp p v). run g) \<and> gapped (group_loop grp p v)"
  using assms
proof (induction grp p v rule: group_loop.induct)
  case (1 grp prev)
  then show ?case by (simp add: gapped_def)
next
  case (2 grp prev x xs)
  from "2.prems" have lt: "prev < x" and b: "is_u32 prev" "is_u32 x" by auto
  then have u: "u32 (prev + 1) = prev + 1" by (auto simp: is_u32_def u32_def)
  have grp: "grp \<noteq> []" using "2.prems"(1) by (simp add: run_def)
  show ?case
  proof (cases "x = prev + 1")
    case True
    have "run (grp @ [x])" using run_snoc [OF "2.prems"(1)] "2.prems"(2) True by simp
    then show ?thesis using "2.IH"(1) "2.prems" True u by simp
  next
    case False
    have IH: "(\<forall>g\<in>set (group_loop [x] x xs). run g) \<and> gapped (group_loop [x] x xs)"
      using "2.IH"(2) "2.prems" False u by simp
    moreover have "group_loop [x] x xs \<noteq> []" "hd (hd (group_loop [x] x xs)) = x"
      using hd_group_loop [of "[x]" x xs] by simp_all
    ultimately show ?thesis
      using False u lt "2.prems"(1,2) by (auto simp: gapped_def successively_Cons)
  qed
qed

lemma concat_groupBy [simp]: "concat (groupBy v) = v"
  by (simp add: groupBy_def concat_group_loop split: list.split)

lemma groupBy_runs:
  assumes "sorted v" "distinct v" "\<forall>i\<in>set v. is_u32 i"
  shows "(\<forall>g\<in>set (groupBy v). run g) \<and> gapped (groupBy v)"
proof (cases v)
  case Nil
  then show ?thesis by (simp add: groupBy_def gapped_def)
next
  case (Cons x xs)
  then show ?thesis using group_loop_runs [of "[x]" x xs] assms by (simp add: groupBy_def)
qed

lemma bitmap_laws_range:
  assumes "bitmap_laws bm"
  shows "sorted (bm_Range bm b)" "distinct (bm_Range bm b)" "\<forall>i\<in>set (bm_Range bm b). is_u32 i"
    "bm_Range bm b = sorted_list_of_set (bm_members bm b)"
  using assms by (auto simp: bitmap_laws_def bm_members_def sorted_list_of_set.idem_if_sorted_distinct)

lemma bitmap_laws_members:
  assumes "bitmap_laws bm"
  shows "bm_members bm (bm_new bm) = {}"
    "bm_Contains bm b i \<longleftrightarrow> i \<in> bm_members bm b"
    "is_u32 i \<Longrightarrow> bm_members bm (bm_Set bm i b) = insert i (bm_members bm b)"
    "bm_members bm (bm_And bm b c) = bm_members bm b \<inter> bm_members bm c"
    "bm_members bm (bm_AndNot bm b c) = bm_members bm b - bm_members bm c"
    "bm_Count bm b = int (card (bm_members bm b))"
  using assms by (auto simp: bitmap_laws_def bm_members_def distinct_card)

lemma BlockGroup_eq:
  "BlockGroup bm h w =
     (map (\<lambda>v. \<lparr>Match = True, BlockRange = v\<rparr>) (groupBy (bm_Range bm (bm_And bm w h))) @
      map (\<lambda>v. \<lparr>Match = False, BlockRange = v\<rparr>) (groupBy (bm_Range bm (bm_AndNot bm w h))),
      bm_AndNot bm w h)"
  by (simp add: BlockGroup_def Let_def SortFunc_never_negative block_cmp_def u32_def)

lemma filter_Match_map [simp]:
  "filter Match (map (\<lambda>v. \<lparr>Match = m, BlockRange = v\<rparr>) xs) =
     (if m then map (\<lambda>v. \<lparr>Match = m, BlockRange = v\<rparr>) xs else [])"
  "filter (\<lambda>r. \<not> Match r) (map (\<lambda>v. \<lparr>Match = m, BlockRange = v\<rparr>) xs) =
     (if m then [] else map (\<lambda>v. \<lparr>Match = m, BlockRange = v\<rparr>) xs)"
  by (induction xs) auto

text \<open>C25: \<^verbatim>\<open>BlockGroup\<close> splits the wanted chunks exactly: the hit runs enumerate, in ascending order, the
  wanted chunks that are cached, the miss runs those that are not; every run is a non-empty
  interval of indices and no two neighbouring runs of one kind could be joined.  All hit runs come
  before all miss runs, although the documentation promises one list sorted by index, and the
  caller's bitmap of wanted chunks is left with the misses only.
\<close>
theorem BlockGroup_cover:
  assumes laws: "bitmap_laws bm"
    and res: "BlockGroup bm hitter want = (rs, want')"
  shows "concat (map BlockRange (filter Match rs)) =
           sorted_list_of_set (bm_members bm want \<inter> bm_members bm hitter) \<and>
         concat (map BlockRange (filter (\<lambda>r. \<not> Match r) rs)) =
           sorted_list_of_set (bm_members bm want - bm_members bm hitter) \<and>
         (\<forall>r\<in>set rs. run (BlockRange r)) \<and>
         gapped (map BlockRange (filter Match rs)) \<and>
         gapped (map BlockRange (filter (\<lambda>r. \<not> Match r) rs)) \<and>
         rs = filter Match rs @ filter (\<lambda>r. \<not> Match r) rs \<and>
         bm_members bm want' = bm_members bm want - bm_members bm hitter"
proof -
  note runs = groupBy_runs [OF bitmap_laws_range(1-3) [OF laws]]
  from res runs [of "bm_And bm want hitter"] runs [of "bm_AndNot bm want hitter"] show ?thesis
    by (auto simp: BlockGroup_eq comp_def bitmap_laws_members [OF laws]
        bitmap_laws_range(4) [OF laws])
qed

text \<open>The example of the documentation: hits of \<open>{1, 2, 4}\<close> among the wanted \<open>{0..4}\<close>.\<close>

lemma BlockGroup_cover_witness:
  "let h = ul_of [1, 2, 4]; w = ul_of [0..4]; g = BlockGroup list_bitmap h w in
     map BlockRange (fst g) = [[1, 2], [4], [0], [3]] \<and>
     concat (map BlockRange (filter Match (fst g))) =
       sorted_list_of_set (bm_members list_bitmap w \<inter> bm_members list_bitmap h)"
proof -
  have "ul_list (bm_And list_bitmap (ul_of [0..4]) (ul_of [1, 2, 4])) = [1, 2, 4]"
    "ul_list (bm_AndNot list_bitmap (ul_of [0..4]) (ul_of [1, 2, 4])) = [0, 3]"
    by (simp_all add: list_bitmap_def ul_list_of is_u32_def upto_rec1)
  moreover have "bm_Range list_bitmap = ul_list" by (simp add: list_bitmap_def)
  ultimately have "map BlockRange (fst (BlockGroup list_bitmap (ul_of [1, 2, 4]) (ul_of [0..4]))) =
      [[1, 2], [4], [0], [3]]"
    by (simp add: BlockGroup_eq groupBy_def u32_def)
  then show ?thesis
    using BlockGroup_cover [OF list_bitmap_laws surjective_pairing, of "ul_of [1, 2, 4]" "ul_of [0..4]"]
    by (simp add: Let_def)
qed

subsection \<open>Byte ranges to blocks\<close>

lemma upto_eq_iff_set: "set [a..b] = {a..b}" for a b :: int
  by simp

lemma FullHit_false: "first \<le> lst \<Longrightarrow> \<not> bm_Contains bm fs first \<Longrightarrow> FullHit bm first lst fs = Some False"
  by (subst FullHit.simps) simp

lemma FullHit_next:
  "first \<le> lst \<Longrightarrow> bm_Contains bm fs first \<Longrightarrow>
     FullHit bm first lst fs = FullHit bm (u32 (first + 1)) lst fs"
  by (subst FullHit.simps) simp

lemma FullHit_done: "lst < first \<Longrightarrow> FullHit bm first lst fs = Some True"
  by (subst FullHit.simps) simp

lemma PartHit_true: "first \<le> lst \<Longrightarrow> bm_Contains bm fs first \<Longrightarrow> PartHit bm first lst fs = Some True"
  by (subst PartHit.simps) simp

lemma PartHit_next:
  "first \<le> lst \<Longrightarrow> \<not> bm_Contains bm fs first \<Longrightarrow>
     PartHit bm first lst fs = PartHit bm (u32 (first + 1)) lst fs"
  by (subst PartHit.simps) simp

lemma PartHit_done: "lst < first \<Longrightarrow> PartHit bm first lst fs = Some False"
  by (subst PartHit.simps) simp

lemma interval_step: "first \<le> lst \<Longrightarrow> {first..lst} = insert first {first + 1..lst}" for first lst :: int
  by auto

lemma FullHit_total:
  assumes "0 \<le> first" "lst < 4294967295"
  shows "FullHit bm first lst fs = Some (\<forall>i\<in>{first..lst}. bm_Contains bm fs i)"
  using assms
proof (induction "nat (lst + 1 - first)" arbitrary: first)
  case 0
  then show ?case by (simp add: FullHit_done)
next
  case (Suc n)
  then have "u32 (first + 1) = first + 1" by (simp add: u32_def)
  then show ?case
    using Suc by (cases "bm_Contains bm fs first") (simp_all add: FullHit_next FullHit_false interval_step)
qed

lemma PartHit_total:
  assumes "0 \<le> first" "lst < 4294967295"
  shows "PartHit bm first lst fs = Some (\<exists>i\<in>{first..lst}. bm_Contains bm fs i)"
  using assms
proof (induction "nat (lst + 1 - first)" arbitrary: first)
  case 0
  then show ?case by (simp add: PartHit_done)
next
  case (Suc n)
  then have "u32 (first + 1) = first + 1" by (simp add: u32_def)
  then show ?case
    using Suc by (cases "bm_Contains bm fs first") (simp_all add: PartHit_next PartHit_true interval_step)
qed

lemma fold_bm_Set_members:
  assumes "bitmap_laws bm"
  shows "bm_members bm (fold (\<lambda>i b. bm_Set bm (u32 i) b) is b) = u32 ` set is \<union> bm_members bm b"
proof (induction "is" arbitrary: b)
  case (Cons i "is")
  have "is_u32 (u32 i)" by (simp add: is_u32_def u32_def)
  with Cons show ?case by (simp add: bitmap_laws_members(3) [OF assms])
qed simp

lemma div_image_interval:
  fixes p start e :: int
  assumes "0 < p" "start \<le> e"
  shows "(\<lambda>b. b div p) ` {start..e} = {start div p..e div p}"
proof (intro equalityI subsetI)
  fix k assume k: "k \<in> {start div p..e div p}"
  let ?b = "max start (k * p)"
  have "k * p \<le> e div p * p"
    using k assms(1) by (intro mult_right_mono) simp_all
  also have "\<dots> \<le> e"
    using assms(1) pos_mod_sign [of p e] div_mult_mod_eq [of e p] by linarith
  finally have "k * p \<le> e" .
  moreover have "?b div p = k"
    using k assms(1) zdiv_mono1 [of "k * p" start p] by (cases "start \<le> k * p") (simp_all add: max_def)
  ultimately show "k \<in> (\<lambda>b. b div p) ` {start..e}"
    using assms(2) by (intro image_eqI [of _ _ ?b]) auto
qed (use assms in \<open>auto intro: zdiv_mono1\<close>)

lemma map_u32_small: "0 \<le> a \<Longrightarrow> b < 4294967296 \<Longrightarrow> map u32 [a..b] = [a..b]"
  by (rule map_idI) (simp add: u32_def)

text \<open>C26: For a byte range inside the address space of \<^verbatim>\<open>uint32\<close> block indices, \<^verbatim>\<open>Build\<close> and
  \<^verbatim>\<open>BreakInBitmap\<close> agree, and they name exactly the blocks that hold a byte of the range; on that
  bitmap \<^verbatim>\<open>FullHit\<close> and \<^verbatim>\<open>PartHit\<close> return, and answer whether all, or some, of the blocks between
  two indices are present.
\<close>
theorem BreakInBitmap_Build:
  assumes laws: "bitmap_laws bm"
    and r: "0 \<le> start" "start \<le> e" "is_i64 e" "0 < partSize" "e div partSize < 4294967295"
  shows "\<exists>b. BreakInBitmap bm start e partSize = Some b \<and>
           Build start e partSize = Some (bm_Range bm b) \<and>
           bm_members bm b = (\<lambda>i. i div partSize) ` {start..e} \<and>
           (\<forall>first lst. 0 \<le> first \<and> lst < 4294967295 \<longrightarrow>
              FullHit bm first lst b =
                Some (\<forall>i\<in>{first..lst}. start div partSize \<le> i \<and> i \<le> e div partSize) \<and>
              PartHit bm first lst b =
                Some (\<exists>i\<in>{first..lst}. start div partSize \<le> i \<and> i \<le> e div partSize))"
proof -
  let ?f = "start div partSize" and ?l = "e div partSize"
  let ?b = "fold (\<lambda>i b. bm_Set bm (u32 i) b) [?f..?l] (bm_new bm)"
  have fl: "0 \<le> ?f" "?f \<le> ?l"
    using r by (simp_all add: pos_imp_zdiv_nonneg_iff zdiv_mono1)
  have sd: "start sdiv partSize = ?f" "e sdiv partSize = ?l"
    using r by (simp_all add: signed_divide_int_def sgn_if)
  have w: "i64 (?l + 1) = ?l + 1" "u64 (?l + 1) = ?l + 1"
    using r fl by (simp_all add: i64_id is_i64_def u64_def)
  have members: "bm_members bm ?b = {?f..?l}"
  proof -
    have "u32 ` {?f..?l} = set (map u32 [?f..?l])" by simp
    also have "\<dots> = {?f..?l}" using fl r(5) by (simp only: map_u32_small) simp
    finally show ?thesis by (simp add: fold_bm_Set_members [OF laws] bitmap_laws_members(1) [OF laws])
  qed
  have "bm_Range bm ?b = [?f..?l]"
    using sorted_list_of_set.idem_if_sorted_distinct [of "[?f..?l]"]
    by (simp add: bitmap_laws_range(4) [OF laws] members)
  moreover have "BreakInBitmap bm start e partSize = Some ?b"
    using r by (simp add: BreakInBitmap_def sd w Let_def)
  moreover have "Build start e partSize = Some [?f..?l]"
    using r fl by (simp add: Build_def w Let_def map_u32_small)
  ultimately show ?thesis
    using members
    by (intro exI [of _ ?b])
      (simp add: FullHit_total PartHit_total bitmap_laws_members(2) [OF laws]
        div_image_interval [OF r(4,2)])
qed

lemma BreakInBitmap_Build_witness:
  "\<exists>b. BreakInBitmap list_bitmap 500000 2097150 1048576 = Some b \<and> bm_Range list_bitmap b = [0, 1] \<and>
       FullHit list_bitmap 0 1 b = Some True \<and> FullHit list_bitmap 1 2 b = Some False \<and>
       PartHit list_bitmap 1 2 b = Some True"
proof -
  have B: "Build 500000 2097150 1048576 = Some [0, 1]"
    by (simp add: Build_def u64_def u32_def upto_rec1)
  have s: "{1..2} = {1, 2 :: int}" "{0..1} = {0, 1 :: int}" by auto
  show ?thesis
    using BreakInBitmap_Build [OF list_bitmap_laws, of 500000 2097150 1048576] B
    by (auto simp: is_i64_def s)
qed

text \<open>With \<^verbatim>\<open>last = MaxUint32\<close> the counter wraps to zero, and on a bitmap that has every index the loop
  of \<^verbatim>\<open>FullHit\<close> has no result.\<close>

lemma FullHit_max_diverges:
  assumes "is_u32 first" "\<And>i. is_u32 i \<Longrightarrow> bm_Contains bm fs i"
  shows "FullHit bm first 4294967295 fs = None"
proof -
  have "\<not> (bm' = bm \<and> fs' = fs \<and> lst' = 4294967295 \<and> is_u32 first')"
    if "FullHit bm' first' lst' fs' = Some y" for bm' fs' first' lst' y
    using _ that
  proof (rule FullHit.raw_induct)
    fix F bm' first' lst' fs' y
    assume IH: "\<And>bm' first' lst' fs' y. F bm' first' lst' fs' = Some y \<Longrightarrow>
        \<not> (bm' = bm \<and> fs' = fs \<and> lst' = 4294967295 \<and> is_u32 first')"
      and F: "(if first' \<le> lst' then
          (if \<not> bm_Contains bm' fs' first' then Some False else F bm' (u32 (first' + 1)) lst' fs')
        else Some True) = Some y"
    have "is_u32 (u32 (first' + 1))" by (simp add: is_u32_def u32_def)
    then show "\<not> (bm' = bm \<and> fs' = fs \<and> lst' = 4294967295 \<and> is_u32 first')"
      using IH [of bm' "u32 (first' + 1)" lst' fs' y] F assms(2)
      by (auto simp: is_u32_def split: if_splits)
  qed
  then show ?thesis using assms(1) by (cases "FullHit bm first 4294967295 fs") auto
qed

end
