(* ===== verification/Ring_List.thy ===== *)
theory Ring_List
  imports Tavern_Prelude "HOL-Library.Monad_Syntax"
begin

text \<open>
  \<^verbatim>\<open>contrib/container/list/list.go\<close>: the doubly linked list, with its pointers.  A list is the address
  of its root element; a pointer is an address or \<open>None\<close> for nil.  Every operation acts on a heap of
  elements and is \<open>None\<close> when the code dereferences nil.
\<close>

type_synonym addr = nat
type_synonym ptr = "addr option"

record 'v element =
  nxt :: ptr
  prv :: ptr
  owner :: ptr
  Value :: "'v option"

record 'v ring_heap =
  cells :: "addr \<Rightarrow> 'v element option"
  lens :: "addr \<Rightarrow> int"
  brk :: addr

definition upd_cell :: "('v element \<Rightarrow> 'v element) \<Rightarrow> ptr \<Rightarrow> 'v ring_heap \<Rightarrow> 'v ring_heap option" where
  "upd_cell f p h =
     do { a \<leftarrow> p; c \<leftarrow> cells h a; Some (h\<lparr>cells := (cells h)(a \<mapsto> f c)\<rparr>) }"

definition get_cell :: "('v element \<Rightarrow> 'a) \<Rightarrow> ptr \<Rightarrow> 'v ring_heap \<Rightarrow> 'a option" where
  "get_cell f p h = do { a \<leftarrow> p; c \<leftarrow> cells h a; Some (f c) }"

text \<open>A zero element, or one with a value.\<close>

definition alloc :: "'v option \<Rightarrow> 'v ring_heap \<Rightarrow> addr \<times> 'v ring_heap" where
  "alloc v h =
     (brk h, h\<lparr>cells := (cells h)(brk h \<mapsto> \<lparr>nxt = None, prv = None, owner = None, Value = v\<rparr>),
               brk := Suc (brk h)\<rparr>)"

definition elem_Next :: "ptr \<Rightarrow> 'v ring_heap \<Rightarrow> ptr option" where
  "elem_Next e h =
     do { p \<leftarrow> get_cell nxt e h; l \<leftarrow> get_cell owner e h;
          Some (if l \<noteq> None \<and> p \<noteq> l then p else None) }"

definition elem_Prev :: "ptr \<Rightarrow> 'v ring_heap \<Rightarrow> ptr option" where
  "elem_Prev e h =
     do { p \<leftarrow> get_cell prv e h; l \<leftarrow> get_cell owner e h;
          Some (if l \<noteq> None \<and> p \<noteq> l then p else None) }"

definition list_Init :: "addr \<Rightarrow> 'v ring_heap \<Rightarrow> 'v ring_heap option" where
  "list_Init l h =
     do { h \<leftarrow> upd_cell (\<lambda>c. c\<lparr>nxt := Some l\<rparr>) (Some l) h;
          h \<leftarrow> upd_cell (\<lambda>c. c\<lparr>prv := Some l\<rparr>) (Some l) h;
          Some (h\<lparr>lens := (lens h)(l := 0)\<rparr>) }"

definition list_New :: "'v ring_heap \<Rightarrow> (addr \<times> 'v ring_heap) option" where
  "list_New h =
     (let (l, h) = alloc None h in do { h \<leftarrow> list_Init l h; Some (l, h) })"

definition list_Len :: "addr \<Rightarrow> 'v ring_heap \<Rightarrow> int" where
  "list_Len l h = lens h l"

definition list_Front :: "addr \<Rightarrow> 'v ring_heap \<Rightarrow> ptr option" where
  "list_Front l h = (if lens h l = 0 then Some None else get_cell nxt (Some l) h)"

definition list_Back :: "addr \<Rightarrow> 'v ring_heap \<Rightarrow> ptr option" where
  "list_Back l h = (if lens h l = 0 then Some None else get_cell prv (Some l) h)"

definition lazyInit :: "addr \<Rightarrow> 'v ring_heap \<Rightarrow> 'v ring_heap option" where
  "lazyInit l h = do { n \<leftarrow> get_cell nxt (Some l) h; (if n = None then list_Init l h else Some h) }"

definition list_insert :: "addr \<Rightarrow> ptr \<Rightarrow> ptr \<Rightarrow> 'v ring_heap \<Rightarrow> 'v ring_heap option" where
  "list_insert l e a h =
     do { h \<leftarrow> upd_cell (\<lambda>c. c\<lparr>prv := a\<rparr>) e h;
          n \<leftarrow> get_cell nxt a h;
          h \<leftarrow> upd_cell (\<lambda>c. c\<lparr>nxt := n\<rparr>) e h;
          p \<leftarrow> get_cell prv e h;
          h \<leftarrow> upd_cell (\<lambda>c. c\<lparr>nxt := e\<rparr>) p h;
          n \<leftarrow> get_cell nxt e h;
          h \<leftarrow> upd_cell (\<lambda>c. c\<lparr>prv := e\<rparr>) n h;
          h \<leftarrow> upd_cell (\<lambda>c. c\<lparr>owner := Some l\<rparr>) e h;
          Some (h\<lparr>lens := (lens h)(l := lens h l + 1)\<rparr>) }"

definition insertValue :: "addr \<Rightarrow> 'v option \<Rightarrow> ptr \<Rightarrow> 'v ring_heap \<Rightarrow> (ptr \<times> 'v ring_heap) option" where
  "insertValue l v a h =
     (let (e, h) = alloc v h in do { h \<leftarrow> list_insert l (Some e) a h; Some (Some e, h) })"

definition list_remove :: "addr \<Rightarrow> ptr \<Rightarrow> 'v ring_heap \<Rightarrow> 'v ring_heap option" where
  "list_remove l e h =
     do { p \<leftarrow> get_cell prv e h; n \<leftarrow> get_cell nxt e h;
          h \<leftarrow> upd_cell (\<lambda>c. c\<lparr>nxt := n\<rparr>) p h;
          n \<leftarrow> get_cell nxt e h; p \<leftarrow> get_cell prv e h;
          h \<leftarrow> upd_cell (\<lambda>c. c\<lparr>prv := p\<rparr>) n h;
          h \<leftarrow> upd_cell (\<lambda>c. c\<lparr>nxt := None\<rparr>) e h;
          h \<leftarrow> upd_cell (\<lambda>c. c\<lparr>prv := None\<rparr>) e h;
          h \<leftarrow> upd_cell (\<lambda>c. c\<lparr>owner := None\<rparr>) e h;
          Some (h\<lparr>lens := (lens h)(l := lens h l - 1)\<rparr>) }"

definition list_move :: "ptr \<Rightarrow> ptr \<Rightarrow> 'v ring_heap \<Rightarrow> 'v ring_heap option" where
  "list_move e a h =
     (if e = a then Some h
      else
        do { p \<leftarrow> get_cell prv e h; n \<leftarrow> get_cell nxt e h;
             h \<leftarrow> upd_cell (\<lambda>c. c\<lparr>nxt := n\<rparr>) p h;
             n \<leftarrow> get_cell nxt e h; p \<leftarrow> get_cell prv e h;
             h \<leftarrow> upd_cell (\<lambda>c. c\<lparr>prv := p\<rparr>) n h;
             h \<leftarrow> upd_cell (\<lambda>c. c\<lparr>prv := a\<rparr>) e h;
             n \<leftarrow> get_cell nxt a h;
             h \<leftarrow> upd_cell (\<lambda>c. c\<lparr>nxt := n\<rparr>) e h;
             p \<leftarrow> get_cell prv e h;
             h \<leftarrow> upd_cell (\<lambda>c. c\<lparr>nxt := e\<rparr>) p h;
             n \<leftarrow> get_cell nxt e h;
             upd_cell (\<lambda>c. c\<lparr>prv := e\<rparr>) n h })"

definition list_Remove :: "addr \<Rightarrow> ptr \<Rightarrow> 'v ring_heap \<Rightarrow> ('v option \<times> 'v ring_heap) option" where
  "list_Remove l e h =
     do { ow \<leftarrow> get_cell owner e h;
          h \<leftarrow> (if ow = Some l then list_remove l e h else Some h);
          v \<leftarrow> get_cell Value e h;
          Some (v, h) }"

definition PushFront :: "addr \<Rightarrow> 'v option \<Rightarrow> 'v ring_heap \<Rightarrow> (ptr \<times> 'v ring_heap) option" where
  "PushFront l v h = do { h \<leftarrow> lazyInit l h; insertValue l v (Some l) h }"

definition PushBack :: "addr \<Rightarrow> 'v option \<Rightarrow> 'v ring_heap \<Rightarrow> (ptr \<times> 'v ring_heap) option" where
  "PushBack l v h =
     do { h \<leftarrow> lazyInit l h; p \<leftarrow> get_cell prv (Some l) h; insertValue l v p h }"

definition InsertBefore :: "addr \<Rightarrow> 'v option \<Rightarrow> ptr \<Rightarrow> 'v ring_heap \<Rightarrow> (ptr \<times> 'v ring_heap) option" where
  "InsertBefore l v mark h =
     do { ow \<leftarrow> get_cell owner mark h;
          (if ow \<noteq> Some l then Some (None, h)
           else do { p \<leftarrow> get_cell prv mark h; insertValue l v p h }) }"

definition InsertAfter :: "addr \<Rightarrow> 'v option \<Rightarrow> ptr \<Rightarrow> 'v ring_heap \<Rightarrow> (ptr \<times> 'v ring_heap) option" where
  "InsertAfter l v mark h =
     do { ow \<leftarrow> get_cell owner mark h;
          (if ow \<noteq> Some l then Some (None, h) else insertValue l v mark h) }"

definition MoveToFront :: "addr \<Rightarrow> ptr \<Rightarrow> 'v ring_heap \<Rightarrow> 'v ring_heap option" where
  "MoveToFront l e h =
     do { ow \<leftarrow> get_cell owner e h; n \<leftarrow> get_cell nxt (Some l) h;
          (if ow \<noteq> Some l \<or> n = e then Some h else list_move e (Some l) h) }"

definition MoveToBack :: "addr \<Rightarrow> ptr \<Rightarrow> 'v ring_heap \<Rightarrow> 'v ring_heap option" where
  "MoveToBack l e h =
     do { ow \<leftarrow> get_cell owner e h; p \<leftarrow> get_cell prv (Some l) h;
          (if ow \<noteq> Some l \<or> p = e then Some h else list_move e p h) }"

definition MoveBefore :: "addr \<Rightarrow> ptr \<Rightarrow> ptr \<Rightarrow> 'v ring_heap \<Rightarrow> 'v ring_heap option" where
  "MoveBefore l e mark h =
     do { ow \<leftarrow> get_cell owner e h;
          (if ow \<noteq> Some l \<or> e = mark then Some h
           else
             do { om \<leftarrow> get_cell owner mark h;
                  (if om \<noteq> Some l then Some h
                   else do { p \<leftarrow> get_cell prv mark h; list_move e p h }) }) }"

definition MoveAfter :: "addr \<Rightarrow> ptr \<Rightarrow> ptr \<Rightarrow> 'v ring_heap \<Rightarrow> 'v ring_heap option" where
  "MoveAfter l e mark h =
     do { ow \<leftarrow> get_cell owner e h;
          (if ow \<noteq> Some l \<or> e = mark then Some h
           else
             do { om \<leftarrow> get_cell owner mark h;
                  (if om \<noteq> Some l then Some h else list_move e mark h) }) }"

text \<open>The two copying loops count the length of the other list down, so it may be the same list.\<close>

fun pushBack_loop :: "addr \<Rightarrow> nat \<Rightarrow> ptr \<Rightarrow> 'v ring_heap \<Rightarrow> 'v ring_heap option" where
  "pushBack_loop l 0 e h = Some h"
| "pushBack_loop l (Suc i) e h =
     do { v \<leftarrow> get_cell Value e h; p \<leftarrow> get_cell prv (Some l) h;
          (_, h) \<leftarrow> insertValue l v p h;
          e \<leftarrow> elem_Next e h;
          pushBack_loop l i e h }"

definition PushBackList :: "addr \<Rightarrow> addr \<Rightarrow> 'v ring_heap \<Rightarrow> 'v ring_heap option" where
  "PushBackList l other h =
     do { h \<leftarrow> lazyInit l h; e \<leftarrow> list_Front other h;
          pushBack_loop l (nat (list_Len other h)) e h }"

fun pushFront_loop :: "addr \<Rightarrow> nat \<Rightarrow> ptr \<Rightarrow> 'v ring_heap \<Rightarrow> 'v ring_heap option" where
  "pushFront_loop l 0 e h = Some h"
| "pushFront_loop l (Suc i) e h =
     do { v \<leftarrow> get_cell Value e h;
          (_, h) \<leftarrow> insertValue l v (Some l) h;
          e \<leftarrow> elem_Prev e h;
          pushFront_loop l i e h }"

definition PushFrontList :: "addr \<Rightarrow> addr \<Rightarrow> 'v ring_heap \<Rightarrow> 'v ring_heap option" where
  "PushFrontList l other h =
     do { h \<leftarrow> lazyInit l h; e \<leftarrow> list_Back other h;
          pushFront_loop l (nat (list_Len other h)) e h }"

subsection \<open>Rings\<close>

definition nx :: "'v ring_heap \<Rightarrow> addr \<Rightarrow> ptr" where
  "nx h a = Option.bind (cells h a) nxt"

definition pv :: "'v ring_heap \<Rightarrow> addr \<Rightarrow> ptr" where
  "pv h a = Option.bind (cells h a) prv"

definition ow :: "'v ring_heap \<Rightarrow> addr \<Rightarrow> ptr" where
  "ow h a = Option.bind (cells h a) owner"

definition vl :: "'v ring_heap \<Rightarrow> addr \<Rightarrow> 'v option" where
  "vl h a = Option.bind (cells h a) Value"

definition lk :: "(addr \<Rightarrow> ptr) \<Rightarrow> (addr \<Rightarrow> ptr) \<Rightarrow> addr \<Rightarrow> addr \<Rightarrow> bool" where
  "lk n p a b \<longleftrightarrow> n a = Some b \<and> p b = Some a"

abbreviation link :: "'v ring_heap \<Rightarrow> addr \<Rightarrow> addr \<Rightarrow> bool" where
  "link h \<equiv> lk (nx h) (pv h)"

text \<open>The list at root \<open>l\<close> holds the elements \<open>xs\<close>, in that order.\<close>

definition ring :: "'v ring_heap \<Rightarrow> addr \<Rightarrow> addr list \<Rightarrow> bool" where
  "ring h l xs \<longleftrightarrow>
     successively (link h) (l # xs @ [l]) \<and> distinct xs \<and> (\<forall>x. ow h x = Some l \<longleftrightarrow> x \<in> set xs) \<and>
     ow h l = None \<and> lens h l = int (length xs)"

definition heap_ok :: "'v ring_heap \<Rightarrow> bool" where
  "heap_ok h \<longleftrightarrow> (\<forall>a. a < brk h \<longleftrightarrow> cells h a \<noteq> None)"

lemma successively_mono_ends:
  assumes "successively P xs" "\<And>x y. x \<in> set (butlast xs) \<Longrightarrow> y \<in> set (tl xs) \<Longrightarrow> P x y \<Longrightarrow> Q x y"
  shows "successively Q xs"
  using assms
proof (induction xs rule: induct_list012)
  case (3 x y zs)
  have "successively Q (y # zs)"
    using "3.prems" by (intro "3.IH"(2)) (auto split: if_splits)
  then show ?case using "3.prems" by simp
qed simp_all

lemma ring_ow: "ring h l xs \<Longrightarrow> x \<in> set xs \<longleftrightarrow> ow h x = Some l"
  by (simp add: ring_def)

lemma ring_root: "ring h l xs \<Longrightarrow> ow h l = None"
  by (simp add: ring_def)

lemma ring_root_notin: "ring h l xs \<Longrightarrow> l \<notin> set xs"
  unfolding ring_def by (metis option.distinct(1))

lemma linkD: "link h a b \<Longrightarrow> cells h a \<noteq> None \<and> cells h b \<noteq> None"
  by (auto simp: lk_def nx_def pv_def bind_eq_Some_conv)

lemma ring_split: 
  "ring h l (us @ vs) \<Longrightarrow> link h (last (l # us)) (hd (vs @ [l])) \<and>
     successively (link h) (l # us) \<and> successively (link h) (vs @ [l])"
  using successively_append_iff [of "link h" "l # us" "vs @ [l]"] by (simp add: ring_def)

lemma ring_joinI:
  assumes "successively (link h) (l # us)" "link h (last (l # us)) (hd (vs @ [l]))"
    "successively (link h) (vs @ [l])" "distinct (us @ vs)" "\<And>x. ow h x = Some l \<longleftrightarrow> x \<in> set (us @ vs)"
    "ow h l = None" "lens h l = int (length (us @ vs))"
  shows "ring h l (us @ vs)"
  using successively_append_iff [of "link h" "l # us" "vs @ [l]"] assms by (simp add: ring_def)

lemma insert_heap:
  assumes "cells h e \<noteq> None" "link h a b" "e \<noteq> a" "e \<noteq> b"
  shows "\<exists>h'. list_insert l (Some e) (Some a) h = Some h' \<and>
      nx h' = (nx h)(e := Some b, a := Some e) \<and> pv h' = (pv h)(e := Some a, b := Some e) \<and>
      ow h' = (ow h)(e := Some l) \<and> vl h' = vl h \<and> dom (cells h') = dom (cells h) \<and>
      lens h' = (lens h)(l := lens h l + 1) \<and> brk h' = brk h"
proof -
  obtain ce ca cb where c: "cells h e = Some ce" "cells h a = Some ca" "cells h b = Some cb"
    using assms(1) linkD [OF assms(2)] by auto
  have n: "nxt ca = Some b" using assms(2) c by (simp add: lk_def nx_def)
  show ?thesis
    using assms(3,4) c n
    by (cases "a = b")
      (auto simp: list_insert_def upd_cell_def get_cell_def nx_def pv_def ow_def vl_def fun_eq_iff)
qed

lemma remove_heap:
  assumes "link h a e" "link h e b" "e \<noteq> a" "e \<noteq> b"
  shows "\<exists>h'. list_remove l (Some e) h = Some h' \<and>
      nx h' = (nx h)(a := Some b, e := None) \<and> pv h' = (pv h)(b := Some a, e := None) \<and>
      ow h' = (ow h)(e := None) \<and> vl h' = vl h \<and> dom (cells h') = dom (cells h) \<and>
      lens h' = (lens h)(l := lens h l - 1) \<and> brk h' = brk h"
proof -
  obtain ce ca cb where c: "cells h e = Some ce" "cells h a = Some ca" "cells h b = Some cb"
    using linkD [OF assms(1)] linkD [OF assms(2)] by auto
  have n: "nxt ce = Some b" "prv ce = Some a"
    using assms(1,2) c by (simp_all add: lk_def nx_def pv_def)
  show ?thesis
    using assms(3,4) c n
    by (cases "a = b")
      (auto simp: list_remove_def upd_cell_def get_cell_def nx_def pv_def ow_def vl_def fun_eq_iff)
qed

definition same_but_nx :: "'v ring_heap \<Rightarrow> 'v ring_heap \<Rightarrow> bool" where
  "same_but_nx h h' \<longleftrightarrow> pv h' = pv h \<and> ow h' = ow h \<and> vl h' = vl h \<and>
     dom (cells h') = dom (cells h) \<and> lens h' = lens h \<and> brk h' = brk h"

definition same_but_pv :: "'v ring_heap \<Rightarrow> 'v ring_heap \<Rightarrow> bool" where
  "same_but_pv h h' \<longleftrightarrow> nx h' = nx h \<and> ow h' = ow h \<and> vl h' = vl h \<and>
     dom (cells h') = dom (cells h) \<and> lens h' = lens h \<and> brk h' = brk h"

lemma same_but_cells:
  "same_but_nx h h' \<Longrightarrow> cells h' a \<noteq> None \<longleftrightarrow> cells h a \<noteq> None"
  "same_but_pv h h' \<Longrightarrow> cells h' a \<noteq> None \<longleftrightarrow> cells h a \<noteq> None"
  unfolding same_but_nx_def same_but_pv_def by (metis domIff)+

lemma set_nxt_heap:
  "cells h a \<noteq> None \<Longrightarrow>
     \<exists>h'. upd_cell (\<lambda>c. c\<lparr>nxt := v\<rparr>) (Some a) h = Some h' \<and> nx h' = (nx h)(a := v) \<and> same_but_nx h h'"
  by (auto simp: upd_cell_def same_but_nx_def nx_def pv_def ow_def vl_def fun_eq_iff)

lemma set_prv_heap:
  "cells h a \<noteq> None \<Longrightarrow>
     \<exists>h'. upd_cell (\<lambda>c. c\<lparr>prv := v\<rparr>) (Some a) h = Some h' \<and> pv h' = (pv h)(a := v) \<and> same_but_pv h h'"
  by (auto simp: upd_cell_def same_but_pv_def nx_def pv_def ow_def vl_def fun_eq_iff)

lemma get_cell_heap:
  "get_cell nxt (Some a) h = Some (Some b) \<longleftrightarrow> nx h a = Some b"
  "get_cell prv (Some a) h = Some (Some b) \<longleftrightarrow> pv h a = Some b"
  by (auto simp: get_cell_def nx_def pv_def bind_eq_Some_conv)

text \<open>Moving is unlinking, then inserting at the new place, without touching owner and length.\<close>

lemma move_heap:
  assumes "link h p e" "link h e n" "e \<noteq> p" "e \<noteq> n" "e \<noteq> a"
    "(if a = p then b = n else link h a b \<and> b \<noteq> e)"
  shows "\<exists>h'. list_move (Some e) (Some a) h = Some h' \<and>
      nx h' = (nx h)(p := Some n, e := Some b, a := Some e) \<and>
      pv h' = (pv h)(n := Some p, e := Some a, b := Some e) \<and>
      ow h' = ow h \<and> vl h' = vl h \<and> dom (cells h') = dom (cells h) \<and>
      lens h' = lens h \<and> brk h' = brk h"
proof -
  have cells: "cells h e \<noteq> None" "cells h p \<noteq> None" "cells h n \<noteq> None"
    "cells h a \<noteq> None" "cells h b \<noteq> None"
    using assms(6) linkD [OF assms(1)] linkD [OF assms(2)] linkD [of h a b] by (auto split: if_splits)
  have ptrs: "nx h e = Some n" "pv h e = Some p" "a \<noteq> p \<Longrightarrow> nx h a = Some b"
    using assms(1,2,6) by (auto simp: lk_def)
  obtain h1 where h1: "upd_cell (\<lambda>c. c\<lparr>nxt := Some n\<rparr>) (Some p) h = Some h1"
    "nx h1 = (nx h)(p := Some n)" "same_but_nx h h1"
    using set_nxt_heap [of h p "Some n"] cells(2) by blast
  have c1: "cells h1 x \<noteq> None \<longleftrightarrow> cells h x \<noteq> None" for x
    using same_but_cells(1) [OF h1(3), of x] by blast
  obtain h2 where h2: "upd_cell (\<lambda>c. c\<lparr>prv := Some p\<rparr>) (Some n) h1 = Some h2"
    "pv h2 = (pv h1)(n := Some p)" "same_but_pv h1 h2"
    using set_prv_heap [of h1 n "Some p"] cells(3) c1 by blast
  have c2: "cells h2 x \<noteq> None \<longleftrightarrow> cells h x \<noteq> None" for x
    using same_but_cells(2) [OF h2(3), of x] c1 [of x] by blast
  obtain h3 where h3: "upd_cell (\<lambda>c. c\<lparr>prv := Some a\<rparr>) (Some e) h2 = Some h3"
    "pv h3 = (pv h2)(e := Some a)" "same_but_pv h2 h3"
    using set_prv_heap [of h2 e "Some a"] cells(1) c2 by blast
  have c3: "cells h3 x \<noteq> None \<longleftrightarrow> cells h x \<noteq> None" for x
    using same_but_cells(2) [OF h3(3), of x] c2 [of x] by blast
  obtain h4 where h4: "upd_cell (\<lambda>c. c\<lparr>nxt := Some b\<rparr>) (Some e) h3 = Some h4"
    "nx h4 = (nx h3)(e := Some b)" "same_but_nx h3 h4"
    using set_nxt_heap [of h3 e "Some b"] cells(1) c3 by blast
  have c4: "cells h4 x \<noteq> None \<longleftrightarrow> cells h x \<noteq> None" for x
    using same_but_cells(1) [OF h4(3), of x] c3 [of x] by blast
  obtain h5 where h5: "upd_cell (\<lambda>c. c\<lparr>nxt := Some e\<rparr>) (Some a) h4 = Some h5"
    "nx h5 = (nx h4)(a := Some e)" "same_but_nx h4 h5"
    using set_nxt_heap [of h4 a "Some e"] cells(4) c4 by blast
  have c5: "cells h5 x \<noteq> None \<longleftrightarrow> cells h x \<noteq> None" for x
    using same_but_cells(1) [OF h5(3), of x] c4 [of x] by blast
  obtain h6 where h6: "upd_cell (\<lambda>c. c\<lparr>prv := Some e\<rparr>) (Some b) h5 = Some h6"
    "pv h6 = (pv h5)(b := Some e)" "same_but_pv h5 h6"
    using set_prv_heap [of h5 b "Some e"] cells(5) c5 by blast
  note same = h1(3) h2(3) h3(3) h4(3) h5(3) h6(3)
  have g: "get_cell prv (Some e) h = Some (Some p)" "get_cell nxt (Some e) h = Some (Some n)"
    "get_cell nxt (Some e) h1 = Some (Some n)" "get_cell prv (Some e) h1 = Some (Some p)"
    "get_cell nxt (Some a) h3 = Some (Some b)" "get_cell prv (Some e) h4 = Some (Some a)"
    "get_cell nxt (Some e) h5 = Some (Some b)"
    using ptrs assms(3-6) h1(2) h2(2) h3(2) h4(2) h5(2) same
    by (auto simp: get_cell_heap same_but_nx_def same_but_pv_def split: if_splits)
  have "list_move (Some e) (Some a) h = Some h6"
    using assms(5) by (simp add: list_move_def g h1(1) h2(1) h3(1) h4(1) h5(1) h6(1))
  then show ?thesis
    using h1(2) h2(2) h3(2) h4(2) h5(2) h6(2) same
    by (intro exI [of _ h6]) (simp add: same_but_nx_def same_but_pv_def)
qed

text \<open>A change that keeps every list except the one at \<open>l\<close> and one rooted at \<open>e\<close>.\<close>

definition keeps_others :: "addr set \<Rightarrow> 'v ring_heap \<Rightarrow> 'v ring_heap \<Rightarrow> bool" where
  "keeps_others S h h' \<longleftrightarrow> (\<forall>l ys. l \<notin> S \<and> ring h l ys \<longrightarrow> ring h' l ys)"

lemma ring_frame:
  assumes "ring h l ys" "lens h' l = lens h l"
    "\<And>x. x \<in> insert l (set ys) \<Longrightarrow> nx h' x = nx h x \<and> pv h' x = pv h x"
    "ow h' l = ow h l" "\<And>x. ow h' x = Some l \<longleftrightarrow> ow h x = Some l"
  shows "ring h' l ys"
proof -
  have "successively (link h') (l # ys @ [l])"
    using assms(1,3)
    by (auto simp: ring_def lk_def elim!: successively_mono_ends dest: in_set_butlastD split: if_splits)
  then show ?thesis using assms by (simp add: ring_def)
qed

lemma rings_disjoint:
  assumes "ring h l xs" "ring h m ys" "l \<noteq> m"
  shows "insert l (set xs) \<inter> insert m (set ys) = {}"
proof -
  show ?thesis
    using assms(3) by (auto simp: ring_ow [OF assms(1)] ring_ow [OF assms(2)]
        ring_root [OF assms(1)] ring_root [OF assms(2)])
qed

lemma last_notin_butlast: "distinct xs \<Longrightarrow> last xs \<notin> set (butlast xs)"
  by (induction xs rule: rev_induct) auto

lemma ring_last_in: "last (l # us) \<in> insert l (set us)" "hd (vs @ [l]) \<in> insert l (set vs)"
  by (simp_all add: last_in_set hd_append)

lemma chain_in:
  assumes c: "successively (lk n p) ((l # us) @ vs @ [l])"
    and d: "distinct (l # us @ vs)" "e \<notin> insert l (set (us @ vs))"
    and ab: "a = last (l # us)" "b = hd (vs @ [l])"
  shows "successively (lk (n(e := Some b, a := Some e)) (p(e := Some a, b := Some e)))
           ((l # us) @ e # vs @ [l])"
proof -
  let ?lk = "lk (n(e := Some b, a := Some e)) (p(e := Some a, b := Some e))"
  have ins: "a \<in> insert l (set us)" "b \<in> insert l (set vs)" by (simp_all only: ab ring_last_in)
  have sp: "successively (lk n p) (l # us)" "successively (lk n p) (vs @ [l])"
    using c by (auto simp only: successively_append_iff)
  have "successively ?lk (l # us)"
  proof (rule successively_mono_ends [OF sp(1)])
    fix x y assume xy: "x \<in> set (butlast (l # us))" "y \<in> set (tl (l # us))" "lk n p x y"
    have "x \<noteq> a"
      using last_notin_butlast [of "l # us"] xy(1) ab d(1) by auto
    moreover have "y \<noteq> b" "y \<noteq> e" "x \<noteq> e"
      using xy(1,2) d ins by (auto dest: in_set_butlastD split: if_splits)
    ultimately show "?lk x y" using xy(3) by (simp add: lk_def)
  qed
  moreover have "successively ?lk (vs @ [l])"
  proof (rule successively_mono_ends [OF sp(2)])
    fix x y assume xy: "x \<in> set (butlast (vs @ [l]))" "y \<in> set (tl (vs @ [l]))" "lk n p x y"
    have "y \<noteq> b" using xy(2) d(1) ab(2) by (cases vs) auto
    moreover have "x \<noteq> a" "y \<noteq> e" "x \<noteq> e"
      using xy(1,2) d ins by (auto dest: list.set_sel(2) [rotated])
    ultimately show "?lk x y" using xy(3) by (simp add: lk_def)
  qed
  moreover have "e \<noteq> a" "e \<noteq> b" using d ins by auto
  then have "?lk a e" "?lk e b" by (simp_all add: lk_def)
  ultimately show ?thesis
    using ab successively_append_iff [of ?lk "l # us" "e # vs @ [l]"] by (simp add: successively_Cons)
qed

lemma chain_out:
  assumes c: "successively (lk n p) ((l # us) @ e # vs @ [l])"
    and d: "distinct (l # us @ e # vs)"
    and ab: "a = last (l # us)" "b = hd (vs @ [l])"
  shows "successively (lk (n(a := Some b)) (p(b := Some a))) ((l # us) @ vs @ [l])"
proof -
  let ?lk = "lk (n(a := Some b)) (p(b := Some a))"
  have ins: "a \<in> insert l (set us)" "b \<in> insert l (set vs)" by (simp_all only: ab ring_last_in)
  have sp: "successively (lk n p) (l # us)" "successively (lk n p) (vs @ [l])"
    using c unfolding successively_append_iff [of _ "l # us"] by (auto simp: successively_Cons [of _ e])
  have "successively ?lk (l # us)"
  proof (rule successively_mono_ends [OF sp(1)])
    fix x y assume xy: "x \<in> set (butlast (l # us))" "y \<in> set (tl (l # us))" "lk n p x y"
    have "x \<noteq> a"
      using last_notin_butlast [of "l # us"] xy(1) ab d(1) by auto
    moreover have "y \<noteq> b"
      using xy(1,2) d ins by (auto dest: in_set_butlastD split: if_splits)
    ultimately show "?lk x y" using xy(3) by (simp add: lk_def)
  qed
  moreover have "successively ?lk (vs @ [l])"
  proof (rule successively_mono_ends [OF sp(2)])
    fix x y assume xy: "x \<in> set (butlast (vs @ [l]))" "y \<in> set (tl (vs @ [l]))" "lk n p x y"
    have "y \<noteq> b" using xy(2) d(1) ab(2) by (cases vs) auto
    moreover have "x \<noteq> a"
      using xy(1,2) d ins by (auto dest: list.set_sel(2) [rotated])
    ultimately show "?lk x y" using xy(3) by (simp add: lk_def)
  qed
  moreover have "?lk a b" by (simp add: lk_def)
  ultimately show ?thesis
    using ab successively_append_iff [of ?lk "l # us" "vs @ [l]"] by simp
qed

lemma chain_cong:
  assumes "successively (lk n p) xs" "\<And>x. x \<in> set xs \<Longrightarrow> n' x = n x \<and> p' x = p x"
  shows "successively (lk n' p') xs"
  using assms(1)
  by (rule successively_mono_ends) (use assms(2) in \<open>auto simp: lk_def dest: in_set_butlastD list.set_sel(2) [rotated]\<close>)

lemma keeps_othersI:
  assumes r: "ring h l xs"
    and "\<And>x. x \<notin> insert e (insert l (set xs)) \<Longrightarrow> nx h' x = nx h x \<and> pv h' x = pv h x \<and> ow h' x = ow h x"
    and "\<And>x. x \<noteq> l \<Longrightarrow> lens h' x = lens h x"
    and ow: "ow h e = None \<or> ow h e = Some l"
    and ow': "\<And>x. x \<in> insert e (insert l (set xs)) \<Longrightarrow> ow h' x = None \<or> ow h' x = Some l"
  shows "keeps_others {l, e} h h'"
  unfolding keeps_others_def
proof (intro allI impI)
  fix m ys assume m: "m \<notin> {l, e} \<and> ring h m ys"
  then have d: "insert l (set xs) \<inter> insert m (set ys) = {}"
    using rings_disjoint [OF r, of m ys] by auto
  have e: "e \<notin> set ys" using m ow ring_ow [of h m ys e] by auto
  have "ow h' x = Some m \<longleftrightarrow> ow h x = Some m" for x
  proof (cases "x \<in> insert e (insert l (set xs))")
    case True
    then have "ow h x \<noteq> Some m" using d e m ring_ow [of h m ys x] by auto
    moreover have "ow h' x \<noteq> Some m" using ow' [OF True] m by auto
    ultimately show ?thesis by simp
  qed (use assms(2) in simp)
  moreover have "x \<notin> insert e (insert l (set xs))" if "x \<in> insert m (set ys)" for x
    using that d e m by auto
  ultimately show "ring h' m ys"
    using m assms(2,3) by (intro ring_frame [of h m ys h']) auto
qed

lemma ringE:
  assumes "ring h l xs"
  shows "successively (link h) (l # xs @ [l])" "distinct (l # xs)"
    "lens h l = int (length xs)" "ow h l = None"
  using assms ring_root_notin [OF assms] by (simp_all add: ring_def)

lemma insert_ring:
  assumes r: "ring h l (us @ vs)" and e: "cells h e \<noteq> None" "ow h e = None" "e \<noteq> l"
    and a: "a = last (l # us)"
  shows "\<exists>h'. list_insert l (Some e) (Some a) h = Some h' \<and> ring h' l (us @ e # vs) \<and>
      vl h' = vl h \<and> dom (cells h') = dom (cells h) \<and> brk h' = brk h \<and> keeps_others {l, e} h h'"
proof -
  let ?b = "hd (vs @ [l])"
  have d: "distinct (l # us @ vs)" "e \<notin> insert l (set (us @ vs))"
    using r e ringE(2) [OF r] ring_ow [OF r, of e] by simp_all
  have ins: "a \<in> insert l (set us)" "?b \<in> insert l (set vs)" by (simp_all only: a ring_last_in)
  obtain h' where h': "list_insert l (Some e) (Some a) h = Some h'"
    and nx: "nx h' = (nx h)(e := Some ?b, a := Some e)" and pv: "pv h' = (pv h)(e := Some a, ?b := Some e)"
    and rest: "ow h' = (ow h)(e := Some l)" "vl h' = vl h" "dom (cells h') = dom (cells h)"
      "lens h' = (lens h)(l := lens h l + 1)" "brk h' = brk h"
    using insert_heap [of h e a ?b l] ring_split [OF r] e(1) d ins a by auto
  have "successively (link h') (l # (us @ e # vs) @ [l])"
    using chain_in [OF _ d a refl, of "nx h" "pv h"] ringE(1) [OF r] by (simp add: nx pv)
  then have "ring h' l (us @ e # vs)"
    using d ringE(3,4) [OF r] ring_ow [OF r] rest e(3) unfolding ring_def by auto
  moreover have "keeps_others {l, e} h h'"
    by (rule keeps_othersI [OF r])
      (use ins e(2) ring_ow [OF r] ringE(4) [OF r] in \<open>auto simp: nx pv rest\<close>)
  ultimately show ?thesis using h' rest by blast
qed

lemma remove_ring:
  assumes r: "ring h l (us @ e # vs)"
  shows "\<exists>h'. list_remove l (Some e) h = Some h' \<and> ring h' l (us @ vs) \<and> ow h' e = None \<and>
      vl h' = vl h \<and> dom (cells h') = dom (cells h) \<and> brk h' = brk h \<and> keeps_others {l, e} h h'"
proof -
  let ?a = "last (l # us)" and ?b = "hd (vs @ [l])"
  have d: "distinct (l # us @ e # vs)" using ringE(2) [OF r] .
  have own: "ow h x = Some l \<longleftrightarrow> x \<in> set us \<or> x = e \<or> x \<in> set vs" for x
    using ring_ow [OF r, of x] by auto
  have ins: "?a \<in> insert l (set us)" "?b \<in> insert l (set vs)" by (simp_all only: ring_last_in)
  have lks: "link h ?a e" "link h e ?b"
    using ring_split [OF r] ring_split [of h l "us @ [e]" vs] r by simp_all
  have ne: "e \<noteq> ?a" "e \<noteq> ?b" using d ins by auto
  obtain h' where h': "list_remove l (Some e) h = Some h'"
    and nx: "nx h' = (nx h)(?a := Some ?b, e := None)" and pv: "pv h' = (pv h)(?b := Some ?a, e := None)"
    and rest: "ow h' = (ow h)(e := None)" "vl h' = vl h" "dom (cells h') = dom (cells h)"
      "lens h' = (lens h)(l := lens h l - 1)" "brk h' = brk h"
    using remove_heap [OF lks ne, of l] by auto
  have ch: "successively (link h') ((l # us) @ vs @ [l])"
    by (rule chain_cong [OF chain_out [OF _ d refl refl, of "nx h" "pv h"]])
      (use ringE(1) [OF r] d in \<open>auto simp: nx pv\<close>)
  have "ring h' l (us @ vs)"
    unfolding ring_def
  proof (intro conjI allI)
    show "successively (link h') (l # (us @ vs) @ [l])" using ch by simp
    show "ow h' x = Some l \<longleftrightarrow> x \<in> set (us @ vs)" for x using own [of x] d by (auto simp: rest(1))
  qed (use d ringE(3,4) [OF r] in \<open>simp_all add: rest(1,4)\<close>)
  moreover have "keeps_others {l, e} h h'"
  proof (rule keeps_othersI [OF r])
    show "nx h' x = nx h x \<and> pv h' x = pv h x \<and> ow h' x = ow h x"
      if "x \<notin> insert e (insert l (set (us @ e # vs)))" for x
      using that ins by (auto simp: nx pv rest(1))
    show "ow h' x = None \<or> ow h' x = Some l" if "x \<in> insert e (insert l (set (us @ e # vs)))" for x
      using that own [of x] ringE(4) [OF r] by (auto simp: rest(1))
  qed (use own [of e] in \<open>simp_all add: rest(4)\<close>)
  ultimately show ?thesis using h' rest by auto
qed

lemma move_ring:
  assumes r: "ring h l (us @ e # vs)" and sp: "us @ vs = ps @ qs" and a: "a = last (l # ps)"
  shows "\<exists>h'. list_move (Some e) (Some a) h = Some h' \<and> ring h' l (ps @ e # qs) \<and>
      vl h' = vl h \<and> dom (cells h') = dom (cells h) \<and> brk h' = brk h \<and> keeps_others {l, e} h h'"
proof -
  let ?p = "last (l # us)" and ?n = "hd (vs @ [l])" and ?b = "hd (qs @ [l])"
  have d: "distinct (l # us @ e # vs)" using ringE(2) [OF r] .
  have own: "ow h x = Some l \<longleftrightarrow> x \<in> set us \<or> x = e \<or> x \<in> set vs" for x
    using ring_ow [OF r, of x] by auto
  have ins: "?p \<in> insert l (set us)" "?n \<in> insert l (set vs)" "a \<in> insert l (set ps)" "?b \<in> insert l (set qs)"
    by (simp_all only: a ring_last_in)
  have dis: "distinct (us @ vs)" using d by auto
  have pq: "distinct (ps @ qs)" using dis sp by simp
  have mem: "x \<in> set us \<or> x \<in> set vs \<longleftrightarrow> x \<in> set ps \<or> x \<in> set qs" for x
    using arg_cong [OF sp, of "\<lambda>z. x \<in> set z"] by simp
  have nin: "e \<notin> set ps" "e \<notin> set qs" "l \<notin> set ps" "l \<notin> set qs" "e \<noteq> l"
    using d mem [of e] mem [of l] by auto
  have lks: "link h ?p e" "link h e ?n"
    using ring_split [OF r] ring_split [of h l "us @ [e]" vs] r by simp_all
  have ne: "e \<noteq> ?p" "e \<noteq> ?n" "e \<noteq> a" "e \<noteq> ?b" using d nin ins by auto
  have same: "(l # ps) @ qs @ [l] = (l # us) @ vs @ [l]"
    using arg_cong [OF sp, of "\<lambda>z. l # z @ [l]"] by simp
  have out: "successively (lk ((nx h)(?p := Some ?n)) ((pv h)(?n := Some ?p))) ((l # ps) @ qs @ [l])"
    unfolding same by (rule chain_out [OF _ d refl refl]) (use ringE(1) [OF r] in simp)
  then have "lk ((nx h)(?p := Some ?n)) ((pv h)(?n := Some ?p)) a ?b"
    using successively_append_iff [of _ "l # ps" "qs @ [l]"] a by auto
  then have "if a = ?p then ?b = ?n else link h a ?b \<and> ?b \<noteq> e"
    using ne(4) by (auto simp: lk_def split: if_splits)
  then obtain h' where h': "list_move (Some e) (Some a) h = Some h'"
    and nx: "nx h' = (nx h)(?p := Some ?n, e := Some ?b, a := Some e)"
    and pv: "pv h' = (pv h)(?n := Some ?p, e := Some a, ?b := Some e)"
    and rest: "ow h' = ow h" "vl h' = vl h" "dom (cells h') = dom (cells h)" "lens h' = lens h" "brk h' = brk h"
    using move_heap [OF lks ne(1-3)] by blast
  have ch: "successively (link h') (l # (ps @ e # qs) @ [l])"
    using chain_in [OF out _ _ a refl, of e] nin pq by (simp add: nx pv)
  have "ring h' l (ps @ e # qs)"
    unfolding ring_def
  proof (intro conjI allI)
    show "successively (link h') (l # (ps @ e # qs) @ [l])" by (fact ch)
    show "ow h' x = Some l \<longleftrightarrow> x \<in> set (ps @ e # qs)" for x using own [of x] mem [of x] by (auto simp: rest(1))
    show "distinct (ps @ e # qs)" using nin pq by simp
  qed (use ringE(3,4) [OF r] arg_cong [OF sp, of length] in \<open>simp_all add: rest(1,4)\<close>)
  moreover have "keeps_others {l, e} h h'"
  proof (rule keeps_othersI [OF r])
    show "nx h' x = nx h x \<and> pv h' x = pv h x \<and> ow h' x = ow h x"
      if "x \<notin> insert e (insert l (set (us @ e # vs)))" for x
      using that ins mem [of x] by (auto simp: nx pv rest(1))
    show "ow h' x = None \<or> ow h' x = Some l" if "x \<in> insert e (insert l (set (us @ e # vs)))" for x
      using that own [of x] ringE(4) [OF r] by (auto simp: rest(1))
  qed (use own [of e] in \<open>simp_all add: rest(4)\<close>)
  ultimately show ?thesis using h' rest by auto
qed

subsection \<open>The operations on rings\<close>

lemma ring_cells: "ring h l xs \<Longrightarrow> x \<in> insert l (set xs) \<Longrightarrow> cells h x \<noteq> None"
proof -
  assume r: "ring h l xs" and x: "x \<in> insert l (set xs)"
  show ?thesis
  proof (cases "x = l")
    case True
    then show ?thesis using ring_split [of h l "[]" xs] r linkD by fastforce
  next
    case False
    then have "ow h x = Some l" using ring_ow [OF r] x by simp
    then show ?thesis by (auto simp: ow_def bind_eq_Some_conv)
  qed
qed

lemma get_ring:
  "cells h a \<noteq> None \<Longrightarrow> get_cell nxt (Some a) h = Some (nx h a)"
  "cells h a \<noteq> None \<Longrightarrow> get_cell prv (Some a) h = Some (pv h a)"
  "cells h a \<noteq> None \<Longrightarrow> get_cell owner (Some a) h = Some (ow h a)"
  "cells h a \<noteq> None \<Longrightarrow> get_cell Value (Some a) h = Some (vl h a)"
  by (auto simp: get_cell_def nx_def pv_def ow_def vl_def)

lemma ring_ends:
  assumes "ring h l xs"
  shows "nx h l = Some (hd (xs @ [l]))" "pv h l = Some (last (l # xs))"
  using ring_split [of h l "[]" xs] ring_split [of h l xs "[]"] assms by (simp_all add: lk_def)

lemma ring_at:
  assumes "ring h l (us @ x # vs)"
  shows "pv h x = Some (last (l # us))" "nx h x = Some (hd (vs @ [l]))"
  using ring_split [of h l us "x # vs"] ring_split [of h l "us @ [x]" vs] assms by (simp_all add: lk_def)

lemma keeps_others_insert:
  assumes "keeps_others {l, e} h h'" "cells h e = None \<or> ow h e \<noteq> None"
  shows "keeps_others {l} h h'"
  unfolding keeps_others_def
proof (intro allI impI)
  fix m ys assume m: "m \<notin> {l} \<and> ring h m ys"
  then have "m \<noteq> e" using assms(2) ring_root [of h m ys] ring_cells [of h m ys m] by auto
  then show "ring h' m ys" using m assms(1) by (simp add: keeps_others_def)
qed

lemma keeps_others_trans:
  "keeps_others S h1 h2 \<Longrightarrow> keeps_others S h2 h3 \<Longrightarrow> keeps_others S h1 h3"
  by (simp add: keeps_others_def)

lemma lazyInit_ring: "ring h l xs \<Longrightarrow> lazyInit l h = Some h"
  by (simp add: lazyInit_def get_ring(1) ring_cells ring_ends)

lemma insertValue_ring:
  assumes ok: "heap_ok h" and r: "ring h l (us @ vs)" and a: "a = last (l # us)"
  shows "\<exists>h'. insertValue l v (Some a) h = Some (Some (brk h), h') \<and> heap_ok h' \<and>
      ring h' l (us @ brk h # vs) \<and> keeps_others {l} h h' \<and> vl h' = (vl h)(brk h := v)"
proof -
  let ?e = "brk h" and ?h = "snd (alloc v h)"
  have fresh: "cells h ?e = None" using ok unfolding heap_ok_def by blast
  have al: "fst (alloc v h) = ?e" by (simp add: alloc_def)
  have h: "nx ?h = (nx h)(?e := None)" "pv ?h = (pv h)(?e := None)" "ow ?h = (ow h)(?e := None)"
    "vl ?h = (vl h)(?e := v)" "lens ?h = lens h" "cells ?h ?e \<noteq> None"
    by (simp_all add: alloc_def nx_def pv_def ow_def vl_def fun_eq_iff)
  have nn: "nx h ?e = None" "pv h ?e = None" "ow h ?e = None"
    using fresh by (simp_all add: nx_def pv_def ow_def)
  then have same: "nx ?h = nx h" "pv ?h = pv h" "ow ?h = ow h" using h by auto
  have rings: "ring ?h m ys \<longleftrightarrow> ring h m ys" for m ys
    by (simp add: ring_def same h(5))
  have "?e \<noteq> l" using fresh ring_cells [OF r, of l] by auto
  then obtain h' where h': "list_insert l (Some ?e) (Some a) ?h = Some h'" "ring h' l (us @ ?e # vs)"
      "vl h' = vl ?h" "dom (cells h') = dom (cells ?h)" "brk h' = brk ?h" "keeps_others {l, ?e} ?h h'"
    using insert_ring [of ?h l us vs ?e a] r a h(6) same(3) nn(3) rings by auto
  have "keeps_others {l, ?e} h h'" using h'(6) by (simp add: keeps_others_def rings)
  then have "keeps_others {l} h h'" using keeps_others_insert fresh by blast
  moreover have "heap_ok h'"
  proof -
    have "cells h' x \<noteq> None \<longleftrightarrow> x = ?e \<or> cells h x \<noteq> None" for x
      using h'(4) [unfolded set_eq_iff, rule_format, of x] by (simp add: alloc_def dom_def)
    then show ?thesis using ok h'(5) by (auto simp: heap_ok_def alloc_def less_Suc_eq)
  qed
  ultimately show ?thesis
    using h' al h(4) by (intro exI [of _ h']) (simp add: insertValue_def split_beta)
qed

datatype 'v list_op =
    OpPushFront "'v option"
  | OpPushBack "'v option"
  | OpInsertBefore "'v option" addr
  | OpInsertAfter "'v option" addr
  | OpRemove addr
  | OpMoveToFront addr
  | OpMoveToBack addr
  | OpMoveBefore addr addr
  | OpMoveAfter addr addr

fun run_list_op :: "addr \<Rightarrow> 'v list_op \<Rightarrow> 'v ring_heap \<Rightarrow> 'v ring_heap option" where
  "run_list_op l (OpPushFront v) h = map_option snd (PushFront l v h)"
| "run_list_op l (OpPushBack v) h = map_option snd (PushBack l v h)"
| "run_list_op l (OpInsertBefore v m) h = map_option snd (InsertBefore l v (Some m) h)"
| "run_list_op l (OpInsertAfter v m) h = map_option snd (InsertAfter l v (Some m) h)"
| "run_list_op l (OpRemove e) h = map_option snd (list_Remove l (Some e) h)"
| "run_list_op l (OpMoveToFront e) h = MoveToFront l (Some e) h"
| "run_list_op l (OpMoveToBack e) h = MoveToBack l (Some e) h"
| "run_list_op l (OpMoveBefore e m) h = MoveBefore l (Some e) (Some m) h"
| "run_list_op l (OpMoveAfter e m) h = MoveAfter l (Some e) (Some m) h"

text \<open>What the operations promise, on the list of the elements; \<open>n\<close> is the new element.\<close>

definition insert_before :: "'a \<Rightarrow> 'a \<Rightarrow> 'a list \<Rightarrow> 'a list" where
  "insert_before m n xs = takeWhile (\<lambda>x. x \<noteq> m) xs @ n # dropWhile (\<lambda>x. x \<noteq> m) xs"

definition insert_after :: "'a \<Rightarrow> 'a \<Rightarrow> 'a list \<Rightarrow> 'a list" where
  "insert_after m n xs = takeWhile (\<lambda>x. x \<noteq> m) xs @ m # n # tl (dropWhile (\<lambda>x. x \<noteq> m) xs)"

fun spec_list_op :: "addr \<Rightarrow> 'v list_op \<Rightarrow> addr list \<Rightarrow> addr list" where
  "spec_list_op n (OpPushFront v) xs = n # xs"
| "spec_list_op n (OpPushBack v) xs = xs @ [n]"
| "spec_list_op n (OpInsertBefore v m) xs = (if m \<in> set xs then insert_before m n xs else xs)"
| "spec_list_op n (OpInsertAfter v m) xs = (if m \<in> set xs then insert_after m n xs else xs)"
| "spec_list_op n (OpRemove e) xs = remove1 e xs"
| "spec_list_op n (OpMoveToFront e) xs = (if e \<in> set xs then e # remove1 e xs else xs)"
| "spec_list_op n (OpMoveToBack e) xs = (if e \<in> set xs then remove1 e xs @ [e] else xs)"
| "spec_list_op n (OpMoveBefore e m) xs =
     (if e \<in> set xs \<and> m \<in> set xs \<and> e \<noteq> m then insert_before m e (remove1 e xs) else xs)"
| "spec_list_op n (OpMoveAfter e m) xs =
     (if e \<in> set xs \<and> m \<in> set xs \<and> e \<noteq> m then insert_after m e (remove1 e xs) else xs)"

fun op_elems :: "'v list_op \<Rightarrow> addr set" where
  "op_elems (OpInsertBefore v m) = {m}"
| "op_elems (OpInsertAfter v m) = {m}"
| "op_elems (OpRemove e) = {e}"
| "op_elems (OpMoveToFront e) = {e}"
| "op_elems (OpMoveToBack e) = {e}"
| "op_elems (OpMoveBefore e m) = {e, m}"
| "op_elems (OpMoveAfter e m) = {e, m}"
| "op_elems _ = {}"

definition op_result :: "'v ring_heap \<Rightarrow> addr \<Rightarrow> addr list \<Rightarrow> 'v ring_heap \<Rightarrow> bool" where
  "op_result h l ys h' \<longleftrightarrow> heap_ok h' \<and> ring h' l ys \<and> keeps_others {l} h h' \<and>
     (\<forall>a. cells h a \<noteq> None \<longrightarrow> vl h' a = vl h a)"

lemma op_result_refl: "heap_ok h \<Longrightarrow> ring h l xs \<Longrightarrow> op_result h l xs h"
  by (simp add: op_result_def keeps_others_def)

lemma op_result_same_dom:
  assumes "heap_ok h" "ring h' l ys" "vl h' = vl h" "dom (cells h') = dom (cells h)" "brk h' = brk h"
    "keeps_others {l, e} h h'" "ow h e = Some l"
  shows "op_result h l ys h'"
proof -
  have "cells h' a \<noteq> None \<longleftrightarrow> cells h a \<noteq> None" for a
    using assms(4) by (metis domIff)
  then have "heap_ok h'" using assms(1,5) by (simp add: heap_ok_def)
  moreover have "keeps_others {l} h h'"
    using keeps_others_insert [OF assms(6)] assms(7) by simp
  ultimately show ?thesis using assms(2,3) by (simp add: op_result_def)
qed

lemma op_result_insert:
  assumes "heap_ok h" "heap_ok h'" "ring h' l ys" "keeps_others {l} h h'" "vl h' = (vl h)(brk h := v)"
  shows "op_result h l ys h'"
  using assms by (auto simp: op_result_def heap_ok_def)

lemma split_at:
  assumes "m \<in> set xs"
  shows "xs = takeWhile (\<lambda>x. x \<noteq> m) xs @ m # tl (dropWhile (\<lambda>x. x \<noteq> m) xs)"
    "dropWhile (\<lambda>x. x \<noteq> m) xs = m # tl (dropWhile (\<lambda>x. x \<noteq> m) xs)"
proof -
  show *: "dropWhile (\<lambda>x. x \<noteq> m) xs = m # tl (dropWhile (\<lambda>x. x \<noteq> m) xs)"
    using assms by (induction xs) auto
  show "xs = takeWhile (\<lambda>x. x \<noteq> m) xs @ m # tl (dropWhile (\<lambda>x. x \<noteq> m) xs)"
    using takeWhile_dropWhile_id [of "\<lambda>x. x \<noteq> m" xs] * by simp
qed

lemma last_remove1: "last (l # ts) \<noteq> e \<Longrightarrow> last (l # remove1 e ts) = last (l # ts)"
  by (induction ts arbitrary: l) (auto split: if_splits)

lemma PushFront_ring:
  assumes "heap_ok h" "ring h l xs"
  shows "\<exists>h'. PushFront l v h = Some (Some (brk h), h') \<and> op_result h l (brk h # xs) h' \<and> vl h' (brk h) = v"
  using insertValue_ring [OF assms(1), of l "[]" xs l v] assms op_result_insert [OF assms(1)]
  by (fastforce simp: PushFront_def lazyInit_ring)

lemma PushBack_ring:
  assumes "heap_ok h" "ring h l xs"
  shows "\<exists>h'. PushBack l v h = Some (Some (brk h), h') \<and> op_result h l (xs @ [brk h]) h' \<and> vl h' (brk h) = v"
  using insertValue_ring [OF assms(1), of l xs "[]" "last (l # xs)" v] assms op_result_insert [OF assms(1)]
  by (fastforce simp: PushBack_def lazyInit_ring get_ring ring_cells ring_ends)

lemma InsertBefore_ring:
  assumes "heap_ok h" "ring h l xs" "m \<in> set xs"
  shows "\<exists>h'. InsertBefore l v (Some m) h = Some (Some (brk h), h') \<and>
           op_result h l (insert_before m (brk h) xs) h' \<and> vl h' (brk h) = v"
proof -
  obtain us vs where xs: "xs = us @ m # vs" and us: "us = takeWhile (\<lambda>x. x \<noteq> m) xs"
      and vs: "m # vs = dropWhile (\<lambda>x. x \<noteq> m) xs"
    using split_at [OF assms(3)] by metis
  have r: "ring h l (us @ m # vs)" using assms(2) xs by simp
  have m: "cells h m \<noteq> None" "ow h m = Some l" "pv h m = Some (last (l # us))"
    using ring_cells [OF assms(2)] ring_ow [OF assms(2)] ring_at(1) [OF r] assms(3) by auto
  have "insert_before m (brk h) xs = us @ brk h # m # vs" by (simp add: insert_before_def us vs)
  moreover obtain h' where "insertValue l v (Some (last (l # us))) h = Some (Some (brk h), h')"
      "heap_ok h'" "ring h' l (us @ brk h # m # vs)" "keeps_others {l} h h'" "vl h' = (vl h)(brk h := v)"
    using insertValue_ring [OF assms(1) r refl, of v] by blast
  ultimately show ?thesis
    using m op_result_insert [OF assms(1)] by (simp add: InsertBefore_def get_ring)
qed

lemma InsertAfter_ring:
  assumes "heap_ok h" "ring h l xs" "m \<in> set xs"
  shows "\<exists>h'. InsertAfter l v (Some m) h = Some (Some (brk h), h') \<and>
           op_result h l (insert_after m (brk h) xs) h' \<and> vl h' (brk h) = v"
proof -
  obtain us vs where xs: "xs = (us @ [m]) @ vs" and us: "us = takeWhile (\<lambda>x. x \<noteq> m) xs"
      and vs: "vs = tl (dropWhile (\<lambda>x. x \<noteq> m) xs)"
    using split_at [OF assms(3)] by (metis append.assoc append_Cons append_Nil)
  have r: "ring h l ((us @ [m]) @ vs)" using assms(2) xs by simp
  have m: "cells h m \<noteq> None" "ow h m = Some l" "m = last (l # us @ [m])"
    using ring_cells [OF assms(2)] ring_ow [OF assms(2)] assms(3) by auto
  have "insert_after m (brk h) xs = us @ m # brk h # vs" by (simp add: insert_after_def us vs)
  moreover obtain h' where "insertValue l v (Some m) h = Some (Some (brk h), h')"
      "heap_ok h'" "ring h' l (us @ m # brk h # vs)" "keeps_others {l} h h'" "vl h' = (vl h)(brk h := v)"
    using insertValue_ring [OF assms(1) r m(3), of v] by auto
  ultimately show ?thesis
    using m op_result_insert [OF assms(1)] by (simp add: InsertAfter_def get_ring)
qed

lemma Remove_ring:
  assumes "heap_ok h" "ring h l xs" "cells h e \<noteq> None"
  shows "\<exists>h'. list_Remove l (Some e) h = Some (vl h e, h') \<and> op_result h l (remove1 e xs) h'"
proof (cases "e \<in> set xs")
  case True
  then obtain us vs where xs: "xs = us @ e # vs" "e \<notin> set us" by (metis split_list_first)
  then obtain h' where h': "list_remove l (Some e) h = Some h'" "ring h' l (us @ vs)" "ow h' e = None"
      "vl h' = vl h" "dom (cells h') = dom (cells h)" "brk h' = brk h" "keeps_others {l, e} h h'"
    using remove_ring [of h l us e vs] assms(2) by blast
  have "ow h e = Some l" using ring_ow [OF assms(2)] True by simp
  moreover have "cells h' e \<noteq> None" using h'(5) assms(3) by (metis domIff)
  moreover have "remove1 e xs = us @ vs" using xs by (simp add: remove1_append)
  ultimately show ?thesis
    using h' assms op_result_same_dom [OF assms(1) h'(2,4,5,6,7)]
    by (simp add: list_Remove_def get_ring)
next
  case False
  then have "ow h e \<noteq> Some l" using ring_ow [OF assms(2)] by simp
  then show ?thesis
    using assms False op_result_refl [of h l xs]
    by (auto simp: list_Remove_def get_ring remove1_idem)
qed

lemma move_to:
  assumes "heap_ok h" "ring h l xs" "e \<in> set xs" "remove1 e xs = ps @ qs" "a = last (l # ps)"
  shows "\<exists>h'. list_move (Some e) (Some a) h = Some h' \<and> op_result h l (ps @ e # qs) h'"
proof -
  obtain us vs where xs: "xs = us @ e # vs" "e \<notin> set us" using assms(3) by (metis split_list_first)
  then have "us @ vs = ps @ qs" using assms(4) by (simp add: remove1_append)
  then show ?thesis
    using move_ring [of h l us e vs ps qs a] assms(1,2,5) xs(1) ring_ow [OF assms(2), of e] assms(3)
      op_result_same_dom [OF assms(1)] by blast
qed

lemma MoveToFront_ring:
  assumes "heap_ok h" "ring h l xs" "e \<in> set xs"
  shows "\<exists>h'. MoveToFront l (Some e) h = Some h' \<and> op_result h l (e # remove1 e xs) h'"
proof -
  have c: "cells h e \<noteq> None" "cells h l \<noteq> None" "ow h e = Some l"
    using ring_cells [OF assms(2)] ring_ow [OF assms(2)] assms(3) by auto
  have l: "l \<noteq> e" using ring_root_notin [OF assms(2)] assms(3) by auto
  show ?thesis
  proof (cases "hd (xs @ [l]) = e")
    case True
    then have "e # remove1 e xs = xs" using l by (cases xs) auto
    then show ?thesis
      using True c op_result_refl [OF assms(1,2)]
      by (simp add: MoveToFront_def get_ring ring_ends [OF assms(2)])
  next
    case False
    then show ?thesis
      using move_to [OF assms, of "[]" _ l] c
      by (auto simp: MoveToFront_def get_ring ring_ends [OF assms(2)])
  qed
qed

lemma MoveToBack_ring:
  assumes "heap_ok h" "ring h l xs" "e \<in> set xs"
  shows "\<exists>h'. MoveToBack l (Some e) h = Some h' \<and> op_result h l (remove1 e xs @ [e]) h'"
proof -
  have c: "cells h e \<noteq> None" "cells h l \<noteq> None" "ow h e = Some l"
    using ring_cells [OF assms(2)] ring_ow [OF assms(2)] assms(3) by auto
  have l: "l \<noteq> e" "distinct xs" using ringE(2) [OF assms(2)] assms(3) by auto
  show ?thesis
  proof (cases "last (l # xs) = e")
    case True
    then have "remove1 e xs @ [e] = xs"
      using l by (cases xs rule: rev_cases) (auto simp: remove1_append)
    then show ?thesis
      using True c op_result_refl [OF assms(1,2)]
      by (simp add: MoveToBack_def get_ring ring_ends [OF assms(2)] del: last.simps)
  next
    case False
    then show ?thesis
      using move_to [OF assms, of "remove1 e xs" "[]" "last (l # xs)"] c last_remove1 [OF False]
      by (auto simp: MoveToBack_def get_ring ring_ends [OF assms(2)] simp del: last.simps)
  qed
qed

lemma takeWhile_remove1: "e \<noteq> m \<Longrightarrow> takeWhile (\<lambda>x. x \<noteq> m) (remove1 e xs) =
    (if e \<in> set (takeWhile (\<lambda>x. x \<noteq> m) xs) then remove1 e (takeWhile (\<lambda>x. x \<noteq> m) xs)
     else takeWhile (\<lambda>x. x \<noteq> m) xs)"
  by (induction xs) auto

lemma MoveBefore_ring:
  assumes "heap_ok h" "ring h l xs" "e \<in> set xs" "m \<in> set xs" "e \<noteq> m"
  shows "\<exists>h'. MoveBefore l (Some e) (Some m) h = Some h' \<and>
           op_result h l (insert_before m e (remove1 e xs)) h'"
proof -
  let ?us = "takeWhile (\<lambda>x. x \<noteq> m) xs" and ?ps = "takeWhile (\<lambda>x. x \<noteq> m) (remove1 e xs)"
  have c: "cells h e \<noteq> None" "cells h m \<noteq> None" "ow h e = Some l" "ow h m = Some l"
    using ring_cells [OF assms(2)] ring_ow [OF assms(2)] assms(3,4) by auto
  have d: "distinct xs" "l \<noteq> e" using ringE(2) [OF assms(2)] assms(3) by auto
  have pm: "pv h m = Some (last (l # ?us))"
    using ring_at(1) [of h l ?us m] assms(2) split_at(1) [OF assms(4)] by metis
  have ps: "?ps = remove1 e ?us" using takeWhile_remove1 [OF assms(5), of xs] by (simp add: remove1_idem)
  show ?thesis
  proof (cases "last (l # ?us) = e")
    case True
    then obtain ts where us: "?us = ts @ [e]"
      using d(2) by (cases ?us rule: rev_cases) auto
    obtain vs where xs: "xs = ts @ e # m # vs"
      using split_at(1) [OF assms(4)] us by (metis append.assoc append_Cons append_Nil)
    have "distinct (ts @ e # m # vs)" using d(1) xs by simp
    then have "e \<notin> set ts" "m \<notin> set ts" by auto
    then have "remove1 e xs = ts @ m # vs" "takeWhile (\<lambda>x. x \<noteq> m) (ts @ m # vs) = ts"
      "dropWhile (\<lambda>x. x \<noteq> m) (ts @ m # vs) = m # vs"
      by (auto simp: xs remove1_append takeWhile_append dropWhile_append)
    then have "insert_before m e (remove1 e xs) = xs"
      by (simp add: insert_before_def xs)
    then show ?thesis
      using True c pm op_result_refl [OF assms(1,2)] assms(5)
      by (simp add: MoveBefore_def get_ring list_move_def del: last.simps)
  next
    case False
    have "remove1 e xs = ?ps @ dropWhile (\<lambda>x. x \<noteq> m) (remove1 e xs)" by simp
    then show ?thesis
      using move_to [OF assms(1-3), of ?ps "dropWhile (\<lambda>x. x \<noteq> m) (remove1 e xs)" "last (l # ?us)"]
        last_remove1 [OF False] c pm assms(5)
      by (auto simp: MoveBefore_def get_ring insert_before_def ps simp del: last.simps)
  qed
qed

lemma MoveAfter_ring:
  assumes "heap_ok h" "ring h l xs" "e \<in> set xs" "m \<in> set xs" "e \<noteq> m"
  shows "\<exists>h'. MoveAfter l (Some e) (Some m) h = Some h' \<and>
           op_result h l (insert_after m e (remove1 e xs)) h'"
proof -
  have c: "cells h e \<noteq> None" "cells h m \<noteq> None" "ow h e = Some l" "ow h m = Some l"
    using ring_cells [OF assms(2)] ring_ow [OF assms(2)] assms(3,4) by auto
  let ?ps = "takeWhile (\<lambda>x. x \<noteq> m) (remove1 e xs)" and ?qs = "tl (dropWhile (\<lambda>x. x \<noteq> m) (remove1 e xs))"
  have "m \<in> set (remove1 e xs)" using assms(4,5) by (simp add: in_set_remove1)
  from split_at(1) [OF this] have "remove1 e xs = (?ps @ [m]) @ ?qs" by simp
  then show ?thesis
    using move_to [OF assms(1-3), of "?ps @ [m]" ?qs m] c assms(5)
    by (auto simp: MoveAfter_def get_ring insert_after_def)
qed


definition empty_heap :: "'v ring_heap" where
  "empty_heap = \<lparr>cells = (\<lambda>_. None), lens = (\<lambda>_. 0), brk = 0\<rparr>"

lemma list_New_ring:
  assumes ok: "heap_ok h" and fresh: "\<And>x. ow h x \<noteq> Some (brk h)"
  shows "\<exists>h'. list_New h = Some (brk h, h') \<and> brk h' = Suc (brk h) \<and> heap_ok h' \<and> ring h' (brk h) [] \<and>
           keeps_others {brk h} h h'"
proof -
  let ?l = "brk h"
  define h' where "h' = h\<lparr>cells := (cells h)(?l \<mapsto>
      \<lparr>nxt = Some ?l, prv = Some ?l, owner = None, Value = None\<rparr>), brk := Suc ?l, lens := (lens h)(?l := 0)\<rparr>"
  have new: "list_New h = Some (?l, h')"
    by (simp add: list_New_def alloc_def list_Init_def upd_cell_def h'_def)
  have c: "cells h x \<noteq> None \<longleftrightarrow> x < ?l" for x using ok by (simp add: heap_ok_def)
  have rest: "nx h' = (nx h)(?l := Some ?l)" "pv h' = (pv h)(?l := Some ?l)" "ow h' = (ow h)(?l := None)"
    "lens h' = (lens h)(?l := 0)"
    by (simp_all add: h'_def nx_def pv_def ow_def fun_eq_iff)
  have ow: "ow h x = Some m \<Longrightarrow> x < ?l" for x m
    using c [of x] by (auto simp: ow_def bind_eq_Some_conv)
  have "keeps_others {?l} h h'"
    unfolding keeps_others_def
  proof (intro allI impI)
    fix m ys assume m: "m \<notin> {?l} \<and> ring h m ys"
    then have "?l \<notin> set ys" using ring_cells [of h m ys ?l] c [of ?l] by auto
    then show "ring h' m ys"
      using m ow [of ?l m] by (intro ring_frame [of h m ys h']) (auto simp: rest)
  qed
  moreover have "ring h' ?l []" using fresh by (simp add: ring_def lk_def rest)
  moreover have "heap_ok h'" using ok by (auto simp: heap_ok_def h'_def less_Suc_eq)
  ultimately show ?thesis using new by (auto simp: h'_def)
qed


text \<open>Walking a list from \<^verbatim>\<open>Front\<close> by \<^verbatim>\<open>Next\<close>, and from \<^verbatim>\<open>Back\<close> by \<^verbatim>\<open>Prev\<close>, meets its elements in order.\<close>

lemma list_ends:
  assumes "ring h l xs"
  shows "list_Front l h = Some (if xs = [] then None else Some (hd xs))"
    "list_Back l h = Some (if xs = [] then None else Some (last xs))"
    "list_Len l h = int (length xs)"
  using ringE(3) [OF assms] ring_ends [OF assms] ring_cells [OF assms, of l]
  by (simp_all add: list_Front_def list_Back_def list_Len_def get_ring)

lemma elem_neighbours:
  assumes "ring h l (us @ x # vs)"
  shows "elem_Next (Some x) h = Some (if vs = [] then None else Some (hd vs))"
    "elem_Prev (Some x) h = Some (if us = [] then None else Some (last us))"
proof -
  have "cells h x \<noteq> None" "ow h x = Some l"
    using ring_cells [OF assms, of x] ring_ow [OF assms, of x] by auto
  moreover have "vs \<noteq> [] \<Longrightarrow> hd vs \<noteq> l" "us \<noteq> [] \<Longrightarrow> last us \<noteq> l"
    using ring_root_notin [OF assms] hd_in_set [of vs] last_in_set [of us] by auto
  ultimately show "elem_Next (Some x) h = Some (if vs = [] then None else Some (hd vs))"
    "elem_Prev (Some x) h = Some (if us = [] then None else Some (last us))"
    using ring_at [OF assms] by (auto simp: elem_Next_def elem_Prev_def get_ring hd_append)
qed

lemma pushBack_loop_ring:
  assumes "heap_ok h" "ring h l xs" "ring h m (us @ vs)" "l \<noteq> m"
  shows "\<exists>h' ns. pushBack_loop l (length vs) (if vs = [] then None else Some (hd vs)) h = Some h' \<and>
           heap_ok h' \<and> ring h' l (xs @ ns) \<and> ring h' m (us @ vs) \<and> map (vl h') ns = map (vl h) vs \<and>
           (\<forall>a. cells h a \<noteq> None \<longrightarrow> cells h' a \<noteq> None \<and> vl h' a = vl h a)"
  using assms
proof (induction vs arbitrary: h xs us)
  case Nil
  then show ?case by (auto intro: exI [of _ "[]"])
next
  case (Cons v vs)
  have cv: "cells h x \<noteq> None" if "x \<in> set vs" for x
    using ring_cells [OF Cons.prems(3), of x] that by simp
  have v: "cells h v \<noteq> None" using ring_cells [OF Cons.prems(3), of v] by simp
  obtain h1 where h1: "insertValue l (vl h v) (Some (last (l # xs))) h = Some (Some (brk h), h1)"
      "heap_ok h1" "ring h1 l (xs @ [brk h])" "keeps_others {l} h h1" "vl h1 = (vl h)(brk h := vl h v)"
    using insertValue_ring [of h l xs "[]" "last (l # xs)" "vl h v"] Cons.prems by auto
  have m1: "ring h1 m ((us @ [v]) @ vs)"
    using h1(4) Cons.prems(3,4) by (auto simp: keeps_others_def)
  obtain h' ns where ih: "pushBack_loop l (length vs) (if vs = [] then None else Some (hd vs)) h1 = Some h'"
      "heap_ok h'" "ring h' l ((xs @ [brk h]) @ ns)" "ring h' m ((us @ [v]) @ vs)"
      "map (vl h') ns = map (vl h1) vs" "\<forall>a. cells h1 a \<noteq> None \<longrightarrow> cells h' a \<noteq> None \<and> vl h' a = vl h1 a"
    using Cons.IH [OF h1(2,3) m1 Cons.prems(4)] by blast
  have fresh: "cells h (brk h) = None" using Cons.prems(1) unfolding heap_ok_def by blast
  have grow: "cells h1 a \<noteq> None" if "cells h a \<noteq> None" for a
  proof -
    have "brk h < brk h1" using h1(2,3) ring_cells [OF h1(3), of "brk h"] by (simp add: heap_ok_def)
    then show ?thesis using that Cons.prems(1) h1(2) unfolding heap_ok_def by (meson less_trans)
  qed
  have new: "cells h1 (brk h) \<noteq> None" using ring_cells [OF h1(3), of "brk h"] by simp
  have "map (vl h1) vs = map (vl h) vs" using cv [of "brk h"] fresh by (auto simp: h1(5))
  then have "map (vl h') (brk h # ns) = map (vl h) (v # vs)"
    using ih(5,6) new by (simp add: h1(5))
  moreover have "pushBack_loop l (length (v # vs)) (Some v) h = Some h'"
    using ih(1) h1(1) v ring_cells [OF Cons.prems(2), of l] ring_ends(2) [OF Cons.prems(2)]
      elem_neighbours(1) [of h1 m us v vs] m1
    by (simp add: get_ring del: last.simps)
  moreover have "cells h' a \<noteq> None \<and> vl h' a = vl h a" if "cells h a \<noteq> None" for a
    using ih(6) grow [OF that] that fresh by (auto simp: h1(5))
  ultimately show ?case
    using ih by (intro exI [of _ h'] exI [of _ "brk h # ns"]) auto
qed

lemma PushBackList_ring:
  assumes "heap_ok h" "ring h l xs" "ring h m ys" "l \<noteq> m"
  shows "\<exists>h' ns. PushBackList l m h = Some h' \<and> heap_ok h' \<and> ring h' l (xs @ ns) \<and> ring h' m ys \<and>
           map (vl h') ns = map (vl h) ys"
  using pushBack_loop_ring [of h l xs m "[]" ys] assms
  by (auto simp: PushBackList_def lazyInit_ring list_ends)

end
