(* ===== verification/Lfu_Cache.thy ===== *)
theory Lfu_Cache
  imports Ring_List "HOL-Library.AList"
begin

text \<open>
  \<^verbatim>\<open>pkg/algorithm/lru/lru.go\<close>: the cache of the buckets, which evicts the least frequently used keys.
  Its two levels of linked lists are used through the operations that \<open>Ring_List\<close> refines to plain
  lists, so a list is the list of its elements here; a node is identified by its number, and the
  node of an entry in its bucket by the entry's key.  The map of the entries is an association
  list.  The results that follow a node to a list it is not in (\<open>None\<close>) are never reached.
\<close>

record 'v cacheEntry =
  ce_value :: 'v
  freqNode :: "nat option"

record 'k listEntry =
  le_node :: nat
  le_entries :: "'k list"
  le_freq :: int

record ('k, 'v) cache =
  UpperBound :: int
  LowerBound :: int
  lfu_values :: "('k \<times> 'v cacheEntry) list"
  lfu_freqs :: "'k listEntry list"
  lfu_len :: int
  lfu_fresh :: nat
  EvictionChannel :: "(nat \<times> ('k \<times> 'v) list) option"

definition lfu_New :: "int \<Rightarrow> ('k, 'v) cache" where
  "lfu_New cap =
     \<lparr>UpperBound = (if cap > 0 then cap else 0), LowerBound = (if cap > 0 then cap else 0),
      lfu_values = [], lfu_freqs = [], lfu_len = 0, lfu_fresh = 0, EvictionChannel = None\<rparr>"

definition lfu_Has :: "'k \<Rightarrow> ('k, 'v) cache \<Rightarrow> bool" where
  "lfu_Has key c \<longleftrightarrow> map_of (lfu_values c) key \<noteq> None"

definition lfu_Peek :: "'k \<Rightarrow> ('k, 'v) cache \<Rightarrow> 'v option" where
  "lfu_Peek key c = map_option ce_value (map_of (lfu_values c) key)"

definition lfu_Len :: "('k, 'v) cache \<Rightarrow> int" where
  "lfu_Len c = lfu_len c"

text \<open>The node with a number and its neighbour, as the list of the buckets has them.\<close>

definition node_at :: "nat \<Rightarrow> 'k listEntry list \<Rightarrow> 'k listEntry option" where
  "node_at n fs = List.find (\<lambda>b. le_node b = n) fs"

definition node_Next :: "nat \<Rightarrow> 'k listEntry list \<Rightarrow> 'k listEntry option" where
  "node_Next n fs = (case dropWhile (\<lambda>b. le_node b \<noteq> n) fs of _ # b # _ \<Rightarrow> Some b | _ \<Rightarrow> None)"

definition node_InsertAfter :: "'k listEntry \<Rightarrow> nat \<Rightarrow> 'k listEntry list \<Rightarrow> 'k listEntry list" where
  "node_InsertAfter li n fs =
     (case dropWhile (\<lambda>b. le_node b \<noteq> n) fs of
        [] \<Rightarrow> fs
      | b # bs \<Rightarrow> takeWhile (\<lambda>b. le_node b \<noteq> n) fs @ b # li # bs)"

definition GetFrequency :: "'k \<Rightarrow> ('k, 'v) cache \<Rightarrow> int option" where
  "GetFrequency key c =
     (case map_of (lfu_values c) key of
        Some e \<Rightarrow> do { n \<leftarrow> freqNode e; li \<leftarrow> node_at n (lfu_freqs c); Some (le_freq li) }
      | None \<Rightarrow> Some 0)"

text \<open>\<^verbatim>\<open>Keys\<close>, up to the order of the iteration over the map.\<close>

definition lfu_Keys :: "('k, 'v) cache \<Rightarrow> 'k list" where
  "lfu_Keys c = map fst (lfu_values c)"

definition remEntry :: "nat \<Rightarrow> 'k \<Rightarrow> ('k, 'v) cache \<Rightarrow> ('k, 'v) cache" where
  "remEntry place key c =
     c\<lparr>lfu_freqs := filter (\<lambda>b. \<not> (le_node b = place \<and> le_entries b = []))
          (map (\<lambda>b. if le_node b = place then b\<lparr>le_entries := remove1 key (le_entries b)\<rparr> else b)
            (lfu_freqs c))\<rparr>"

definition increment :: "'k \<Rightarrow> ('k, 'v) cache \<Rightarrow> ('k, 'v) cache option" where
  "increment key c =
     do {
       e \<leftarrow> map_of (lfu_values c) key;
       let currentPlace = freqNode e;
       (nextFreq, nextPlace) \<leftarrow>
         (case currentPlace of
            None \<Rightarrow> Some (1, (case lfu_freqs c of [] \<Rightarrow> None | b # _ \<Rightarrow> Some b))
          | Some n \<Rightarrow>
              do { li \<leftarrow> node_at n (lfu_freqs c);
                   Some (le_freq li + 1, node_Next n (lfu_freqs c)) });
       let (place, c) =
         (if (case nextPlace of None \<Rightarrow> True | Some b \<Rightarrow> le_freq b \<noteq> nextFreq) then
            (let n = lfu_fresh c; li = \<lparr>le_node = n, le_entries = [], le_freq = nextFreq\<rparr>
             in (n, c\<lparr>lfu_fresh := Suc n,
                      lfu_freqs := (case currentPlace of
                                      Some p \<Rightarrow> node_InsertAfter li p (lfu_freqs c)
                                    | None \<Rightarrow> li # lfu_freqs c)\<rparr>))
          else (le_node (the nextPlace), c));
       let c = c\<lparr>lfu_values := AList.update key (e\<lparr>freqNode := Some place\<rparr>) (lfu_values c),
                 lfu_freqs := map (\<lambda>b. if le_node b = place
                                       then b\<lparr>le_entries := le_entries b @ [key]\<rparr> else b) (lfu_freqs c)\<rparr>;
       Some (case currentPlace of None \<Rightarrow> c | Some p \<Rightarrow> remEntry p key c)
     }"

definition lfu_Get :: "'k \<Rightarrow> ('k, 'v) cache \<Rightarrow> ('v option \<times> ('k, 'v) cache) option" where
  "lfu_Get key c =
     (case map_of (lfu_values c) key of
        Some e \<Rightarrow> do { c \<leftarrow> increment key c; Some (Some (ce_value e), c) }
      | None \<Rightarrow> Some (None, c))"

text \<open>A send in a \<^verbatim>\<open>select\<close> with a default: the eviction is dropped when the channel is full.\<close>

definition try_send :: "'k \<times> 'v \<Rightarrow> ('k, 'v) cache \<Rightarrow> ('k, 'v) cache" where
  "try_send x c =
     (case EvictionChannel c of
        None \<Rightarrow> c
      | Some (cap, q) \<Rightarrow> if length q < cap then c\<lparr>EvictionChannel := Some (cap, q @ [x])\<rparr> else c)"

fun evict_bucket :: "nat \<Rightarrow> 'k list \<Rightarrow> int \<Rightarrow> int \<Rightarrow> ('k, 'v) cache \<Rightarrow> (int \<times> ('k, 'v) cache) option" where
  "evict_bucket place [] evicted count c = Some (evicted, c)"
| "evict_bucket place (key # keys) evicted count c =
     (if evicted < count then
        do {
          e \<leftarrow> map_of (lfu_values c) key;
          let c = try_send (key, ce_value e) c;
          let c = c\<lparr>lfu_values := AList.delete key (lfu_values c)\<rparr>;
          let c = remEntry place key c;
          evict_bucket place keys (evicted + 1) count (c\<lparr>lfu_len := lfu_len c - 1\<rparr>)
        }
      else Some (evicted, c))"

partial_function (option) evict_loop :: "int \<Rightarrow> int \<Rightarrow> ('k, 'v) cache \<Rightarrow> (int \<times> ('k, 'v) cache) option" where
  "evict_loop evicted count c =
     (case lfu_freqs c of
        [] \<Rightarrow> Some (evicted, c)
      | li # _ \<Rightarrow>
          if evicted < count then
            do { r \<leftarrow> evict_bucket (le_node li) (le_entries li) evicted count c;
                 evict_loop (fst r) count (snd r) }
          else Some (evicted, c))"

definition lfu_evict :: "int \<Rightarrow> ('k, 'v) cache \<Rightarrow> (int \<times> ('k, 'v) cache) option" where
  "lfu_evict count c = evict_loop 0 count c"

definition lfu_Set :: "'k \<Rightarrow> 'v \<Rightarrow> ('k, 'v) cache \<Rightarrow> ('k, 'v) cache option" where
  "lfu_Set key v c =
     (case map_of (lfu_values c) key of
        Some e \<Rightarrow> increment key (c\<lparr>lfu_values := AList.update key (e\<lparr>ce_value := v\<rparr>) (lfu_values c)\<rparr>)
      | None \<Rightarrow>
          do {
            c \<leftarrow> increment key
                  (c\<lparr>lfu_values := AList.update key \<lparr>ce_value = v, freqNode = None\<rparr> (lfu_values c)\<rparr>);
            let c = c\<lparr>lfu_len := lfu_len c + 1\<rparr>;
            (if UpperBound c > 0 \<and> LowerBound c > 0 \<and> lfu_len c > UpperBound c
             then map_option snd (lfu_evict (lfu_len c - LowerBound c) c)
             else Some c)
          })"

definition lfu_Remove :: "'k \<Rightarrow> ('k, 'v) cache \<Rightarrow> (bool \<times> ('k, 'v) cache) option" where
  "lfu_Remove key c =
     (case map_of (lfu_values c) key of
        Some e \<Rightarrow>
          do { n \<leftarrow> freqNode e;
               let c = c\<lparr>lfu_values := AList.delete key (lfu_values c)\<rparr>;
               let c = remEntry n key c;
               Some (True, c\<lparr>lfu_len := lfu_len c - 1\<rparr>) }
      | None \<Rightarrow> Some (False, c))"

definition lfu_Purge :: "('k, 'v) cache \<Rightarrow> ('k, 'v) cache" where
  "lfu_Purge c = c\<lparr>lfu_values := [], lfu_freqs := [], lfu_len := 0\<rparr>"

text \<open>The two nested loops of \<^verbatim>\<open>TopK\<close> visit the buckets and their keys from the back; \<open>None\<close> is the
  panic of a negative capacity.\<close>

fun topk_loop :: "int \<Rightarrow> 'k list \<Rightarrow> 'k list \<Rightarrow> 'k list" where
  "topk_loop k keys [] = keys"
| "topk_loop k keys (x # xs) =
     (if k \<le> int (length (keys @ [x])) then keys @ [x] else topk_loop k (keys @ [x]) xs)"

definition TopK :: "int \<Rightarrow> ('k, 'v) cache \<Rightarrow> 'k list option" where
  "TopK k c =
     (if k < 0 then None
      else Some (topk_loop k [] (concat (map (\<lambda>b. rev (le_entries b)) (rev (lfu_freqs c))))))"

subsection \<open>The order of the entries\<close>

text \<open>The keys with their frequencies, from the next to be evicted to the last.\<close>

definition order_of :: "'k listEntry list \<Rightarrow> ('k \<times> int) list" where
  "order_of fs = concat (map (\<lambda>b. map (\<lambda>k. (k, le_freq b)) (le_entries b)) fs)"

definition holds :: "'k listEntry list \<Rightarrow> 'k \<Rightarrow> nat \<Rightarrow> bool" where
  "holds fs k n \<longleftrightarrow> (\<exists>b\<in>set fs. le_node b = n \<and> k \<in> set (le_entries b))"

definition buckets_ok :: "nat \<Rightarrow> 'k listEntry list \<Rightarrow> bool" where
  "buckets_ok fresh fs \<longleftrightarrow>
     distinct (map le_node fs) \<and> (\<forall>b\<in>set fs. le_node b < fresh) \<and>
     sorted_wrt (<) (map le_freq fs) \<and> (\<forall>b\<in>set fs. 1 \<le> le_freq b) \<and>
     (\<forall>b\<in>set fs. le_entries b \<noteq> []) \<and> distinct (concat (map le_entries fs))"

definition linked :: "('k \<times> 'v cacheEntry) list \<Rightarrow> 'k listEntry list \<Rightarrow> bool" where
  "linked vs fs \<longleftrightarrow> distinct (map fst vs) \<and>
     (\<forall>k. case map_of vs k of
            None \<Rightarrow> (\<forall>n. \<not> holds fs k n)
          | Some e \<Rightarrow> (\<exists>n. freqNode e = Some n \<and> (\<forall>m. holds fs k m \<longleftrightarrow> m = n)))"

definition lfu_inv :: "('k, 'v) cache \<Rightarrow> bool" where
  "lfu_inv c \<longleftrightarrow> buckets_ok (lfu_fresh c) (lfu_freqs c) \<and> linked (lfu_values c) (lfu_freqs c) \<and>
     lfu_len c = int (length (lfu_values c))"

lemma order_of_simps [simp]:
  "order_of [] = []"
  "order_of (b # fs) = map (\<lambda>k. (k, le_freq b)) (le_entries b) @ order_of fs"
  "order_of (fs @ gs) = order_of fs @ order_of gs"
  by (simp_all add: order_of_def)

lemma holds_simps [simp]:
  "\<not> holds [] k n"
  "holds (b # fs) k n \<longleftrightarrow> le_node b = n \<and> k \<in> set (le_entries b) \<or> holds fs k n"
  "holds (fs @ gs) k n \<longleftrightarrow> holds fs k n \<or> holds gs k n"
  by (auto simp: holds_def)

lemma map_fst_order: "map fst (order_of fs) = concat (map le_entries fs)"
  by (induction fs) (auto simp: comp_def)

lemma set_snd_order: "x \<in> set (order_of fs) \<Longrightarrow> \<exists>b\<in>set fs. snd x = le_freq b \<and> fst x \<in> set (le_entries b)"
  by (auto simp: order_of_def)

text \<open>The operations on nodes at a known place of the list.\<close>

lemma node_ops:
  fixes b :: "'k listEntry"
  assumes "n \<notin> le_node ` set us" "le_node b = n"
  shows "node_at n (us @ b # vs) = Some b"
    "node_Next n (us @ b # vs) = (case vs of [] \<Rightarrow> None | x # _ \<Rightarrow> Some x)"
    "node_InsertAfter li n (us @ b # vs) = us @ b # li # vs"
proof -
  have d: "dropWhile (\<lambda>b. le_node b \<noteq> n) (us @ b # vs) = b # vs"
    "takeWhile (\<lambda>b. le_node b \<noteq> n) (us @ b # vs) = us"
    using assms by (induction us) auto
  show "node_at n (us @ b # vs) = Some b"
    using assms by (induction us) (auto simp: node_at_def)
  show "node_Next n (us @ b # vs) = (case vs of [] \<Rightarrow> None | x # _ \<Rightarrow> Some x)"
    by (simp add: node_Next_def d split: list.split)
  show "node_InsertAfter li n (us @ b # vs) = us @ b # li # vs"
    by (simp add: node_InsertAfter_def d)
qed

lemma map_upd_node:
  assumes "n \<notin> le_node ` set us" "n \<notin> le_node ` set vs" "le_node b = n"
  shows "map (\<lambda>b. if le_node b = n then f b else b) (us @ b # vs) = us @ f b # vs"
proof -
  have "map (\<lambda>b. if le_node b = n then f b else b) ws = ws" if "n \<notin> le_node ` set ws" for ws
    using that by (induction ws) auto
  then show ?thesis using assms by simp
qed

definition without :: "'k \<Rightarrow> 'k listEntry \<Rightarrow> 'k listEntry list" where
  "without k b = (if remove1 k (le_entries b) = [] then []
                  else [b\<lparr>le_entries := remove1 k (le_entries b)\<rparr>])"

lemma remEntry_at:
  assumes "lfu_freqs c = us @ b # vs" "n \<notin> le_node ` set us" "n \<notin> le_node ` set vs" "le_node b = n"
  shows "remEntry n k c = c\<lparr>lfu_freqs := us @ without k b @ vs\<rparr>"
proof -
  have "filter (\<lambda>b. \<not> (le_node b = n \<and> le_entries b = [])) us = us"
    "filter (\<lambda>b. \<not> (le_node b = n \<and> le_entries b = [])) vs = vs"
    using assms(2,3) by (force simp: filter_id_conv)+
  then show ?thesis
    using assms by (simp add: remEntry_def map_upd_node without_def del: map_append list.map)
qed

lemma remove1_filter: "k \<notin> set (remove1 k xs) \<Longrightarrow> remove1 k xs = filter (\<lambda>x. x \<noteq> k) xs"
  by (induction xs) (auto intro!: filter_True [symmetric])

lemma order_without:
  "k \<notin> set (remove1 k (le_entries b)) \<Longrightarrow>
     order_of (without k b) = filter (\<lambda>x. fst x \<noteq> k) (map (\<lambda>k. (k, le_freq b)) (le_entries b))"
  by (simp add: without_def filter_map comp_def remove1_filter)

text \<open>What \<^verbatim>\<open>increment\<close> does to the order: the key moves behind the keys used at most as often.\<close>

definition touch :: "'k \<Rightarrow> int \<Rightarrow> ('k \<times> int) list \<Rightarrow> ('k \<times> int) list" where
  "touch k f ord =
     (let r = filter (\<lambda>x. fst x \<noteq> k) ord
      in takeWhile (\<lambda>x. snd x \<le> f) r @ (k, f) # dropWhile (\<lambda>x. snd x \<le> f) r)"

text \<open>The buckets after a key was added to the bucket of frequency \<open>f\<close> in front of \<open>vs\<close>.\<close>

definition add_key :: "nat \<Rightarrow> 'k \<Rightarrow> int \<Rightarrow> 'k listEntry list \<Rightarrow> 'k listEntry list" where
  "add_key n k f vs =
     (case vs of
        b # bs \<Rightarrow> if le_freq b = f then b\<lparr>le_entries := le_entries b @ [k]\<rparr> # bs
                  else \<lparr>le_node = n, le_entries = [k], le_freq = f\<rparr> # vs
      | [] \<Rightarrow> [\<lparr>le_node = n, le_entries = [k], le_freq = f\<rparr>])"

definition add_node :: "nat \<Rightarrow> int \<Rightarrow> 'k listEntry list \<Rightarrow> nat" where
  "add_node n f vs = (case vs of b # bs \<Rightarrow> if le_freq b = f then le_node b else n | [] \<Rightarrow> n)"

lemma order_add_key:
  assumes "sorted_wrt (<) (map le_freq vs)" "\<forall>b\<in>set vs. f \<le> le_freq b" "k \<notin> fst ` set (order_of vs)"
    "\<forall>x\<in>set us. snd x \<le> f \<and> fst x \<noteq> k"
  shows "us @ order_of (add_key n k f vs) = touch k f (us @ order_of vs)"
proof -
  have nk: "filter (\<lambda>x. fst x \<noteq> k) us = us" "filter (\<lambda>x. fst x \<noteq> k) (order_of vs) = order_of vs"
    using assms(3,4) by (force simp: filter_id_conv)+
  have hi: "takeWhile (\<lambda>x. snd x \<le> f) (order_of ws) = []" "dropWhile (\<lambda>x. snd x \<le> f) (order_of ws) = order_of ws"
    if "\<forall>b\<in>set ws. f < le_freq b" for ws :: "'a listEntry list"
  proof -
    have "\<forall>x\<in>set (order_of ws). \<not> snd x \<le> f" using that by (force dest: set_snd_order)
    then show "takeWhile (\<lambda>x. snd x \<le> f) (order_of ws) = []" "dropWhile (\<lambda>x. snd x \<le> f) (order_of ws) = order_of ws"
      by (cases "order_of ws"; simp)+
  qed
  have lo: "takeWhile (\<lambda>x. snd x \<le> f) (xs @ ys) = xs @ takeWhile (\<lambda>x. snd x \<le> f) ys"
      "dropWhile (\<lambda>x. snd x \<le> f) (xs @ ys) = dropWhile (\<lambda>x. snd x \<le> f) ys"
    if "\<forall>x\<in>set xs. snd x \<le> f" for xs ys :: "('a \<times> int) list"
    using that by (simp_all add: takeWhile_append2 dropWhile_append2)
  have us: "\<forall>x\<in>set us. snd x \<le> f" using assms(4) by blast
  show ?thesis
  proof (cases vs)
    case Nil
    have "takeWhile (\<lambda>x. snd x \<le> f) us = us" "dropWhile (\<lambda>x. snd x \<le> f) us = []" using us by simp_all
    note all = this
    show ?thesis unfolding touch_def Let_def Nil order_of_simps append_Nil2 nk all
      by (simp add: add_key_def)
  next
    case (Cons b bs)
    have bs: "\<forall>b'\<in>set bs. le_freq b < le_freq b'" using assms(1) Cons by simp
    show ?thesis
    proof (cases "le_freq b = f")
      case True
      then have "\<forall>b\<in>set bs. f < le_freq b" using bs by simp
      then show ?thesis
        using True us nk Cons hi [of bs]
        by (simp add: touch_def add_key_def Let_def lo)
    next
      case False
      then have "\<forall>b\<in>set vs. f < le_freq b" using assms(2) bs Cons by fastforce
      then show ?thesis
        using False us nk Cons hi [of vs]
        by (simp add: touch_def add_key_def Let_def lo)
    qed
  qed
qed

lemma map_upd_other:
  "n \<notin> le_node ` set ws \<Longrightarrow> map (\<lambda>b. if le_node b = n then f b else b) ws = ws"
  by (induction ws) auto

definition next_fresh :: "nat \<Rightarrow> int \<Rightarrow> 'k listEntry list \<Rightarrow> nat" where
  "next_fresh n f vs = (case vs of b # bs \<Rightarrow> if le_freq b = f then n else Suc n | [] \<Rightarrow> Suc n)"

lemma increment_new:
  assumes "map_of (lfu_values c) k = Some e" "freqNode e = None" "buckets_ok (lfu_fresh c) (lfu_freqs c)"
  shows "increment k c = Some (c\<lparr>lfu_fresh := next_fresh (lfu_fresh c) 1 (lfu_freqs c),
      lfu_values := AList.update k (e\<lparr>freqNode := Some (add_node (lfu_fresh c) 1 (lfu_freqs c))\<rparr>) (lfu_values c),
      lfu_freqs := add_key (lfu_fresh c) k 1 (lfu_freqs c)\<rparr>)"
proof (cases "lfu_freqs c")
  case Nil
  then show ?thesis
    using assms by (simp add: increment_def add_key_def add_node_def next_fresh_def Let_def)
next
  case (Cons b bs)
  then have n: "le_node b \<notin> le_node ` set bs" "lfu_fresh c \<notin> le_node ` set bs" "le_node b < lfu_fresh c"
    using assms(3) by (auto simp: buckets_ok_def)
  show ?thesis
    using assms Cons n(3)
    by (simp add: increment_def add_key_def add_node_def next_fresh_def Let_def
        map_upd_other [OF n(1)] map_upd_other [OF n(2)])
qed

lemma increment_old:
  assumes e: "map_of (lfu_values c) k = Some e" "freqNode e = Some (le_node b)"
    and ok: "buckets_ok (lfu_fresh c) (lfu_freqs c)" and fs: "lfu_freqs c = us @ b # vs"
  shows "increment k c = Some (c\<lparr>lfu_fresh := next_fresh (lfu_fresh c) (le_freq b + 1) vs,
      lfu_values := AList.update k
        (e\<lparr>freqNode := Some (add_node (lfu_fresh c) (le_freq b + 1) vs)\<rparr>) (lfu_values c),
      lfu_freqs := us @ without k b @ add_key (lfu_fresh c) k (le_freq b + 1) vs\<rparr>)"
proof -
  let ?n = "lfu_fresh c" and ?f = "le_freq b + 1"
  have n: "le_node b \<notin> le_node ` set us" "le_node b \<notin> le_node ` set vs" "?n \<notin> le_node ` set us"
      "?n \<notin> le_node ` set vs" "?n \<noteq> le_node b"
    using ok fs by (auto simp: buckets_ok_def)
  note ops = node_ops [OF n(1) refl]
  show ?thesis
  proof (cases "\<exists>b2 vs'. vs = b2 # vs' \<and> le_freq b2 = ?f")
    case True
    then obtain b2 vs' where vs: "vs = b2 # vs'" "le_freq b2 = ?f" by blast
    then have n2: "le_node b2 \<notin> le_node ` set us" "le_node b2 \<noteq> le_node b" "le_node b2 \<notin> le_node ` set vs'"
      using ok fs by (auto simp: buckets_ok_def)
    show ?thesis
      using e fs vs n n2
      by (simp add: increment_def ops Let_def next_fresh_def add_node_def add_key_def
          map_upd_other [OF n2(1)] map_upd_other [OF n2(3)] remEntry_at [where us = us and b = b])
  next
    case False
    then have "(case node_Next (le_node b) (us @ b # vs) of None \<Rightarrow> True | Some b2 \<Rightarrow> le_freq b2 \<noteq> ?f)"
      "next_fresh ?n ?f vs = Suc ?n" "add_node ?n ?f vs = ?n"
      "add_key ?n k ?f vs = \<lparr>le_node = ?n, le_entries = [k], le_freq = ?f\<rparr> # vs"
      by (auto simp: ops(2) next_fresh_def add_node_def add_key_def split: list.splits)
    then show ?thesis
      using e fs n
      by (simp add: increment_def ops(1,3) Let_def map_upd_other [OF n(3)] map_upd_other [OF n(4)]
          remEntry_at [where us = us and b = b])
  qed
qed

subsection \<open>The invariant\<close>

lemma keys_without: "distinct (le_entries b) \<Longrightarrow> set (concat (map le_entries (without k b))) = set (le_entries b) - {k}"
  by (auto simp: without_def set_remove1_eq)
    (metis Diff_iff empty_iff list.set(1) set_remove1_eq singletonD)

lemma holds_without: "distinct (le_entries b) \<Longrightarrow>
    holds (without k b) k' m \<longleftrightarrow> m = le_node b \<and> k' \<in> set (le_entries b) \<and> k' \<noteq> k"
proof -
  assume "distinct (le_entries b)"
  then have "set (remove1 k (le_entries b)) = set (le_entries b) - {k}" by (rule set_remove1_eq)
  then show ?thesis by (cases "remove1 k (le_entries b) = []") (auto simp: without_def)
qed

lemma holds_add_key: "holds (add_key n k f vs) k' m \<longleftrightarrow> holds vs k' m \<or> k' = k \<and> m = add_node n f vs"
  by (cases vs) (auto simp: add_key_def add_node_def)

lemma buckets_ok_without:
  assumes "buckets_ok n (us @ b # vs)" "k \<in> set (le_entries b)"
  shows "buckets_ok n (us @ without k b @ vs)" "k \<notin> set (concat (map le_entries (us @ without k b @ vs)))"
proof -
  have d: "distinct (le_entries b)" "k \<notin> set (remove1 k (le_entries b))"
    using assms(1) by (auto simp: buckets_ok_def)
  have "set (remove1 k (le_entries b)) \<subseteq> set (le_entries b)" by (rule set_remove1_subset)
  then show "buckets_ok n (us @ without k b @ vs)"
    using assms(1) d unfolding buckets_ok_def without_def
    by (auto simp: sorted_wrt_append)
  show "k \<notin> set (concat (map le_entries (us @ without k b @ vs)))"
    using assms d unfolding buckets_ok_def without_def by auto
qed

lemma distinct_insert_key:
  "distinct (as @ es @ vs) \<Longrightarrow> k \<notin> set (as @ es @ vs) \<Longrightarrow> distinct (as @ es @ k # vs)"
  by auto

lemma buckets_ok_add:
  assumes ok: "buckets_ok n (us @ vs)" and k: "k \<notin> set (concat (map le_entries (us @ vs)))"
    and f: "1 \<le> f" "\<forall>b\<in>set us. le_freq b < f" "\<forall>b\<in>set vs. f \<le> le_freq b"
  shows "buckets_ok (next_fresh n f vs) (us @ add_key n k f vs)"
proof -
  have keys: "distinct (concat (map le_entries (us @ add_key n k f vs)))"
  proof (cases vs)
    case Nil
    then show ?thesis
      using distinct_insert_key [of "concat (map le_entries us)" "[]" "[]" k] ok k
      by (simp add: add_key_def buckets_ok_def)
  next
    case (Cons b2 vs')
    then show ?thesis
      using distinct_insert_key [of "concat (map le_entries us)" "le_entries b2" "concat (map le_entries vs')" k]
        distinct_insert_key [of "concat (map le_entries us)" "[]" "concat (map le_entries vs)" k] ok k
      by (simp add: add_key_def buckets_ok_def)
  qed
  show ?thesis
  proof (cases "\<exists>b2 vs'. vs = b2 # vs' \<and> le_freq b2 = f")
    case True
    then obtain b2 vs' where vs: "vs = b2 # vs'" "le_freq b2 = f" by blast
    let ?b = "b2\<lparr>le_entries := le_entries b2 @ [k]\<rparr>"
    have add: "next_fresh n f vs = n" "add_key n k f vs = ?b # vs'"
      using vs by (simp_all add: next_fresh_def add_key_def)
    have "map le_node (us @ ?b # vs') = map le_node (us @ vs)" "map le_freq (us @ ?b # vs') = map le_freq (us @ vs)"
      using vs by simp_all
    then show ?thesis
      using ok keys unfolding buckets_ok_def add by (simp add: vs(1) del: map_append)
  next
    case False
    then have add: "next_fresh n f vs = Suc n" "add_key n k f vs = \<lparr>le_node = n, le_entries = [k], le_freq = f\<rparr> # vs"
      by (auto simp: next_fresh_def add_key_def split: list.splits)
    have "\<forall>b\<in>set vs. f < le_freq b"
    proof (cases vs)
      case (Cons b2 vs')
      then have "f < le_freq b2" using False f(3) by force
      then show ?thesis using ok Cons by (fastforce simp: buckets_ok_def sorted_wrt_append)
    qed simp
    then show ?thesis
      using ok keys f unfolding buckets_ok_def add
      by (auto simp: sorted_wrt_append less_Suc_eq simp del: concat_append)
  qed
qed

lemma linked_at:
  "linked vs fs \<Longrightarrow>
     (case map_of vs k of None \<Rightarrow> \<forall>n. \<not> holds fs k n
      | Some e \<Rightarrow> \<exists>n. freqNode e = Some n \<and> (\<forall>m. holds fs k m \<longleftrightarrow> m = n))"
  unfolding linked_def by blast

lemma linkedD:
  "linked vs fs \<Longrightarrow> map_of vs k = None \<Longrightarrow> \<not> holds fs k n"
  "linked vs fs \<Longrightarrow> map_of vs k = Some e \<Longrightarrow> \<exists>n. freqNode e = Some n \<and> (\<forall>m. holds fs k m \<longleftrightarrow> m = n)"
  using linked_at [of vs fs k] by simp_all

lemma linked_update:
  assumes "linked vs fs" "\<And>k' m. k' \<noteq> k \<Longrightarrow> holds fs' k' m \<longleftrightarrow> holds fs k' m"
    "\<And>m. holds fs' k m \<longleftrightarrow> m = n" "freqNode e = Some n"
  shows "linked (AList.update k e vs) fs'"
  unfolding linked_def
proof (intro conjI allI)
  show "distinct (map fst (AList.update k e vs))"
    using assms(1) by (simp add: linked_def distinct_update)
  fix k'
  show "case map_of (AList.update k e vs) k' of None \<Rightarrow> \<forall>n. \<not> holds fs' k' n
        | Some e \<Rightarrow> \<exists>n. freqNode e = Some n \<and> (\<forall>m. holds fs' k' m \<longleftrightarrow> m = n)"
    using assms(2-4) linkedD [OF assms(1), of k']
    by (cases "k' = k"; cases "map_of vs k'") (simp_all add: update_conv')
qed

lemma linked_delete:
  assumes "linked vs fs" "\<And>k' m. k' \<noteq> k \<Longrightarrow> holds fs' k' m \<longleftrightarrow> holds fs k' m" "\<And>m. \<not> holds fs' k m"
  shows "linked (AList.delete k vs) fs'"
  unfolding linked_def
proof (intro conjI allI)
  show "distinct (map fst (AList.delete k vs))"
    using assms(1) by (simp add: linked_def distinct_delete)
  fix k'
  show "case map_of (AList.delete k vs) k' of None \<Rightarrow> \<forall>n. \<not> holds fs' k' n
        | Some e \<Rightarrow> \<exists>n. freqNode e = Some n \<and> (\<forall>m. holds fs' k' m \<longleftrightarrow> m = n)"
    using assms(2,3) linkedD [OF assms(1), of k']
    by (cases "k' = k"; cases "map_of vs k'") (simp_all add: delete_conv')
qed

text \<open>Where an entry of the map is in the buckets.\<close>

lemma lfu_inv_node:
  assumes "lfu_inv c" "map_of (lfu_values c) k = Some e"
  obtains us b vs where "lfu_freqs c = us @ b # vs" "freqNode e = Some (le_node b)" "k \<in> set (le_entries b)"
proof -
  from assms obtain n where n: "freqNode e = Some n" "holds (lfu_freqs c) k n"
    using linkedD(2) by (metis lfu_inv_def)
  then obtain b where b: "b \<in> set (lfu_freqs c)" "le_node b = n" "k \<in> set (le_entries b)"
    by (auto simp: holds_def)
  then obtain us vs where "lfu_freqs c = us @ b # vs" by (metis split_list)
  with n b that show thesis by auto
qed

definition freq_of :: "'k \<Rightarrow> ('k, 'v) cache \<Rightarrow> int" where
  "freq_of k c = (case map_of (order_of (lfu_freqs c)) k of Some f \<Rightarrow> f | None \<Rightarrow> 0)"

lemma distinct_order: "buckets_ok n fs \<Longrightarrow> distinct (map fst (order_of fs))"
  by (simp add: buckets_ok_def map_fst_order)

lemma freq_of_bucket:
  assumes "buckets_ok n (lfu_freqs c)" "lfu_freqs c = us @ b # vs" "k \<in> set (le_entries b)"
  shows "freq_of k c = le_freq b"
proof -
  have "(k, le_freq b) \<in> set (order_of (lfu_freqs c))" using assms(2,3) by simp
  then have "map_of (order_of (lfu_freqs c)) k = Some (le_freq b)"
    using distinct_order [OF assms(1)] by simp
  then show ?thesis by (simp add: freq_of_def)
qed

lemma freq_of_new:
  assumes "lfu_inv c" "map_of (lfu_values c) k = None"
  shows "freq_of k c = 0" "k \<notin> set (concat (map le_entries (lfu_freqs c)))"
proof -
  have nh: "\<not> holds (lfu_freqs c) k n" for n
    using assms linkedD(1) by (metis lfu_inv_def)
  then show *: "k \<notin> set (concat (map le_entries (lfu_freqs c)))"
    by (auto simp: holds_def)
  then have "k \<notin> fst ` set (order_of (lfu_freqs c))"
    by (metis list.set_map map_fst_order)
  then have "map_of (order_of (lfu_freqs c)) k = None" by (simp add: map_of_eq_None_iff)
  then show "freq_of k c = 0" by (simp add: freq_of_def)
qed

lemma holds_split:
  assumes "buckets_ok n (us @ b # vs)" "k \<in> set (le_entries b)"
  shows "holds us k m \<longleftrightarrow> False" "holds vs k m \<longleftrightarrow> False"
  using assms by (auto simp: buckets_ok_def holds_def)

lemma update_twice: "AList.update k e' (AList.update k e vs) = AList.update k e' vs"
  by (induction vs) auto

lemma length_alist_update: "length (AList.update k e vs) = (if map_of vs k = None then Suc (length vs) else length vs)"
  by (induction vs) auto

lemma length_alist_delete:
  "distinct (map fst vs) \<Longrightarrow> map_of vs k \<noteq> None \<Longrightarrow> Suc (length (AList.delete k vs)) = length vs"
proof (induction vs)
  case (Cons x vs)
  then show ?case
    by (cases "fst x = k") (auto split: if_splits)
qed simp

definition same_setup :: "('k, 'v) cache \<Rightarrow> ('k, 'v) cache \<Rightarrow> bool" where
  "same_setup c c' \<longleftrightarrow> UpperBound c' = UpperBound c \<and> LowerBound c' = LowerBound c"

lemma increment_known:
  assumes inv: "lfu_inv c" and e: "map_of (lfu_values c) k = Some e"
  shows "\<exists>c'. increment k c = Some c' \<and> lfu_inv c' \<and> same_setup c c' \<and> lfu_len c' = lfu_len c \<and>
      EvictionChannel c' = EvictionChannel c \<and>
      order_of (lfu_freqs c') = touch k (freq_of k c + 1) (order_of (lfu_freqs c)) \<and>
      (\<forall>k'. lfu_Peek k' c' = lfu_Peek k' c)"
proof -
  from lfu_inv_node [OF inv e] obtain us b vs where
    fs: "lfu_freqs c = us @ b # vs" and node: "freqNode e = Some (le_node b)" and k: "k \<in> set (le_entries b)"
    by blast
  let ?f = "le_freq b + 1" and ?n = "lfu_fresh c"
  have ok: "buckets_ok ?n (us @ b # vs)" using inv fs by (simp add: lfu_inv_def)
  have okc: "buckets_ok ?n (lfu_freqs c)" using inv by (simp add: lfu_inv_def)
  note inc = increment_old [OF e node okc fs]
  let ?fs = "us @ without k b @ add_key ?n k ?f vs"
  have wk: "buckets_ok ?n ((us @ without k b) @ vs)" "k \<notin> set (concat (map le_entries ((us @ without k b) @ vs)))"
    using buckets_ok_without [OF ok k] by simp_all
  have freqs: "\<forall>b'\<in>set (us @ without k b). le_freq b' < ?f" "\<forall>b'\<in>set vs. ?f \<le> le_freq b'" "1 \<le> ?f"
    using ok by (auto simp: buckets_ok_def sorted_wrt_append without_def)
  have ok': "buckets_ok (next_fresh ?n ?f vs) ?fs"
    using buckets_ok_add [OF wk freqs(3,1,2)] by simp
  have d: "distinct (le_entries b)" "sorted_wrt (<) (map le_freq vs)"
    using ok by (auto simp: buckets_ok_def sorted_wrt_append)
  have link: "linked (AList.update k (e\<lparr>freqNode := Some (add_node ?n ?f vs)\<rparr>) (lfu_values c)) ?fs"
  proof (rule linked_update)
    show "linked (lfu_values c) (us @ b # vs)" using inv fs by (simp add: lfu_inv_def)
    show "holds ?fs k' m \<longleftrightarrow> holds (us @ b # vs) k' m" if "k' \<noteq> k" for k' m
      using that d(1) by (auto simp: holds_without holds_add_key)
    show "holds ?fs k m \<longleftrightarrow> m = add_node ?n ?f vs" for m
      using d(1) holds_split [OF ok k] by (auto simp: holds_without holds_add_key)
  qed simp
  have order: "order_of ?fs = touch k (freq_of k c + 1) (order_of (lfu_freqs c))"
  proof -
    let ?us = "order_of us @ order_of (without k b)"
    have nk: "\<forall>x\<in>set (order_of us). fst x \<noteq> k" "\<forall>x\<in>set (order_of vs). fst x \<noteq> k"
      using wk(2) by (auto dest: set_snd_order)
    have "k \<notin> fst ` set (order_of vs)" using nk(2) by auto
    moreover have "snd x \<le> ?f \<and> fst x \<noteq> k" if "x \<in> set ?us" for x
    proof -
      have "x \<in> set (order_of (us @ without k b))" using that by simp
      from set_snd_order [OF this] show ?thesis using freqs(1) wk(2) by fastforce
    qed
    then have "\<forall>x\<in>set ?us. snd x \<le> ?f \<and> fst x \<noteq> k" by blast
    ultimately have "?us @ order_of (add_key ?n k ?f vs) = touch k ?f (?us @ order_of vs)"
      by (rule order_add_key [OF d(2) freqs(2)])
    moreover have "k \<notin> set (remove1 k (le_entries b))" using d(1) by simp
    then have "filter (\<lambda>x. fst x \<noteq> k) (?us @ order_of vs) = filter (\<lambda>x. fst x \<noteq> k) (order_of (lfu_freqs c))"
      using nk by (simp add: fs order_without)
    ultimately show ?thesis
      using freq_of_bucket [OF okc fs k] by (simp add: touch_def)
  qed
  have "lfu_Peek k' (c\<lparr>lfu_fresh := next_fresh ?n ?f vs,
      lfu_values := AList.update k (e\<lparr>freqNode := Some (add_node ?n ?f vs)\<rparr>) (lfu_values c), lfu_freqs := ?fs\<rparr>) =
      lfu_Peek k' c" for k'
    using e by (simp add: lfu_Peek_def update_conv')
  then show ?thesis
    using inc ok' link order inv e
    by (simp add: lfu_inv_def same_setup_def length_alist_update)
qed

lemma increment_fresh:
  assumes inv: "lfu_inv c" and new: "map_of (lfu_values c) k = None"
  shows "\<exists>c'. increment k (c\<lparr>lfu_values := AList.update k \<lparr>ce_value = v, freqNode = None\<rparr> (lfu_values c)\<rparr>) = Some c' \<and>
      lfu_inv (c'\<lparr>lfu_len := lfu_len c' + 1\<rparr>) \<and> same_setup c c' \<and> lfu_len c' = lfu_len c \<and>
      EvictionChannel c' = EvictionChannel c \<and>
      order_of (lfu_freqs c') = touch k 1 (order_of (lfu_freqs c)) \<and>
      (\<forall>k'. lfu_Peek k' c' = (if k' = k then Some v else lfu_Peek k' c))"
proof -
  let ?e = "\<lparr>ce_value = v, freqNode = None\<rparr>" and ?n = "lfu_fresh c" and ?fs = "lfu_freqs c"
  let ?c = "c\<lparr>lfu_values := AList.update k ?e (lfu_values c)\<rparr>"
  have ok: "buckets_ok ?n ?fs" using inv by (simp add: lfu_inv_def)
  have k: "k \<notin> set (concat (map le_entries ?fs))" using freq_of_new [OF inv new] by simp
  have inc: "increment k ?c = Some (?c\<lparr>lfu_fresh := next_fresh ?n 1 ?fs,
      lfu_values := AList.update k (?e\<lparr>freqNode := Some (add_node ?n 1 ?fs)\<rparr>) (lfu_values ?c),
      lfu_freqs := add_key ?n k 1 ?fs\<rparr>)"
    using increment_new [of ?c k ?e] ok by (simp add: update_conv')
  have freqs: "\<forall>b\<in>set ?fs. 1 \<le> le_freq b" "sorted_wrt (<) (map le_freq ?fs)"
    using ok by (simp_all add: buckets_ok_def)
  have "buckets_ok (next_fresh ?n 1 ?fs) (add_key ?n k 1 ?fs)"
    using buckets_ok_add [of ?n "[]" ?fs k 1] ok k freqs by simp
  moreover have "linked (AList.update k (?e\<lparr>freqNode := Some (add_node ?n 1 ?fs)\<rparr>) (lfu_values c)) (add_key ?n k 1 ?fs)"
  proof (rule linked_update)
    show "linked (lfu_values c) ?fs" using inv by (simp add: lfu_inv_def)
    then show "holds (add_key ?n k 1 ?fs) k m \<longleftrightarrow> m = add_node ?n 1 ?fs" for m
      using linkedD(1) [OF _ new] by (simp add: holds_add_key)
  qed (simp_all add: holds_add_key)
  moreover have "k \<notin> fst ` set (order_of ?fs)" using k by (metis list.set_map map_fst_order)
  then have "order_of (add_key ?n k 1 ?fs) = touch k 1 (order_of ?fs)"
    using order_add_key [OF freqs(2,1), of k "[]" ?n] by simp
  ultimately show ?thesis
    using inc inv new
    by (simp add: lfu_inv_def same_setup_def length_alist_update update_twice lfu_Peek_def update_conv')
qed

subsection \<open>Removal and eviction\<close>

lemma filter_order_bucket:
  assumes "buckets_ok n (us @ b # vs)" "k \<in> set (le_entries b)"
  shows "order_of (us @ without k b @ vs) = filter (\<lambda>x. fst x \<noteq> k) (order_of (us @ b # vs))"
proof -
  have "k \<notin> set (concat (map le_entries us))" "k \<notin> set (concat (map le_entries vs))"
      "k \<notin> set (remove1 k (le_entries b))"
    using assms by (auto simp: buckets_ok_def)
  moreover from this have "filter (\<lambda>x. fst x \<noteq> k) (order_of us) = order_of us"
      "filter (\<lambda>x. fst x \<noteq> k) (order_of vs) = order_of vs"
    by (auto simp: filter_id_conv dest: set_snd_order)
  ultimately show ?thesis by (simp add: order_without)
qed

lemma remove_known:
  assumes inv: "lfu_inv c" and e: "map_of (lfu_values c) k = Some e" and fs: "lfu_freqs c = us @ b # vs"
    and b: "freqNode e = Some (le_node b)" "k \<in> set (le_entries b)"
  shows "remEntry (le_node b) k (c\<lparr>lfu_values := AList.delete k (lfu_values c)\<rparr>) =
      c\<lparr>lfu_values := AList.delete k (lfu_values c), lfu_freqs := us @ without k b @ vs\<rparr>"
    "lfu_inv (c\<lparr>lfu_values := AList.delete k (lfu_values c), lfu_freqs := us @ without k b @ vs,
       lfu_len := lfu_len c - 1\<rparr>)"
proof -
  have ok: "buckets_ok (lfu_fresh c) (us @ b # vs)" using inv fs by (simp add: lfu_inv_def)
  then have n: "le_node b \<notin> le_node ` set us" "le_node b \<notin> le_node ` set vs" "distinct (le_entries b)"
    by (auto simp: buckets_ok_def)
  show "remEntry (le_node b) k (c\<lparr>lfu_values := AList.delete k (lfu_values c)\<rparr>) =
      c\<lparr>lfu_values := AList.delete k (lfu_values c), lfu_freqs := us @ without k b @ vs\<rparr>"
    using remEntry_at [of "c\<lparr>lfu_values := AList.delete k (lfu_values c)\<rparr>", OF _ n(1,2) refl] fs by simp
  have "linked (AList.delete k (lfu_values c)) (us @ without k b @ vs)"
  proof (rule linked_delete)
    show "linked (lfu_values c) (us @ b # vs)" using inv fs by (simp add: lfu_inv_def)
    show "holds (us @ without k b @ vs) k' m \<longleftrightarrow> holds (us @ b # vs) k' m" if "k' \<noteq> k" for k' m
      using that n(3) by (auto simp: holds_without)
    show "\<not> holds (us @ without k b @ vs) k m" for m
      using holds_split [OF ok b(2)] n(3) by (auto simp: holds_without)
  qed
  moreover have "buckets_ok (lfu_fresh c) (us @ without k b @ vs)"
    by (rule buckets_ok_without(1) [OF ok b(2)])
  moreover have "Suc (length (AList.delete k (lfu_values c))) = length (lfu_values c)"
    using length_alist_delete [of "lfu_values c" k] inv e by (simp add: lfu_inv_def linked_def)
  ultimately show "lfu_inv (c\<lparr>lfu_values := AList.delete k (lfu_values c), lfu_freqs := us @ without k b @ vs,
       lfu_len := lfu_len c - 1\<rparr>)"
    using inv by (simp add: lfu_inv_def)
qed

text \<open>What a full channel lets through.\<close>

definition sent :: "(nat \<times> 'a list) option \<Rightarrow> 'a list \<Rightarrow> (nat \<times> 'a list) option" where
  "sent ch xs = (case ch of None \<Rightarrow> None | Some (cap, q) \<Rightarrow> Some (cap, q @ take (cap - length q) xs))"

lemma sent_Nil [simp]: "sent ch [] = ch"
  by (auto simp: sent_def split: option.splits)

lemma sent_sent [simp]: "sent (sent ch xs) ys = sent ch (xs @ ys)"
  by (auto simp: sent_def min_def split: option.splits)

lemma try_send_eq: "try_send x c = c\<lparr>EvictionChannel := sent (EvictionChannel c) [x]\<rparr>"
  by (auto simp: try_send_def sent_def take_Cons' split: option.splits)

lemma lfu_inv_channel [simp]: "lfu_inv (c\<lparr>EvictionChannel := ch\<rparr>) \<longleftrightarrow> lfu_inv c"
  by (simp add: lfu_inv_def)

lemma lfu_Peek_inv:
  assumes "lfu_inv c"
  shows "lfu_Peek k c = None \<longleftrightarrow> k \<notin> fst ` set (order_of (lfu_freqs c))"
proof (cases "map_of (lfu_values c) k")
  case None
  have "k \<notin> fst ` set (order_of (lfu_freqs c))"
    unfolding list.set_map [symmetric] map_fst_order by (rule freq_of_new(2) [OF assms None])
  then show ?thesis using None by (simp add: lfu_Peek_def)
next
  case (Some e)
  from lfu_inv_node [OF assms Some] obtain us b vs where
    "lfu_freqs c = us @ b # vs" "k \<in> set (le_entries b)" by blast
  then have "(k, le_freq b) \<in> set (order_of (lfu_freqs c))" by simp
  then have "k \<in> fst ` set (order_of (lfu_freqs c))" by (rule rev_image_eqI) simp
  then show ?thesis using Some by (simp add: lfu_Peek_def)
qed

definition evictions :: "('k, 'v) cache \<Rightarrow> 'k list \<Rightarrow> ('k \<times> 'v) list" where
  "evictions c ks = map (\<lambda>k. (k, the (lfu_Peek k c))) ks"

lemma evictions_append: "evictions c (xs @ ys) = evictions c xs @ evictions c ys"
  by (simp add: evictions_def)

definition evicted_to :: "('k, 'v) cache \<Rightarrow> nat \<Rightarrow> ('k, 'v) cache \<Rightarrow> bool" where
  "evicted_to c m c' \<longleftrightarrow>
     (let ks = take m (map fst (order_of (lfu_freqs c))) in
      lfu_inv c' \<and> same_setup c c' \<and> lfu_len c' = lfu_len c - int (length ks) \<and>
      order_of (lfu_freqs c') = drop m (order_of (lfu_freqs c)) \<and>
      (\<forall>k. lfu_Peek k c' = (if k \<in> set ks then None else lfu_Peek k c)) \<and>
      EvictionChannel c' = sent (EvictionChannel c) (evictions c ks))"

lemma evicted_toD:
  "evicted_to c m c' \<Longrightarrow> lfu_inv c'"
  "evicted_to c m c' \<Longrightarrow> order_of (lfu_freqs c') = drop m (order_of (lfu_freqs c))"
  by (simp_all add: evicted_to_def Let_def)

lemma evicted_to_0 [simp]: "lfu_inv c \<Longrightarrow> evicted_to c 0 c"
  by (simp add: evicted_to_def same_setup_def evictions_def)

lemma evicted_to_trans:
  assumes "evicted_to c m c1" "evicted_to c1 n c2" "lfu_inv c"
  shows "evicted_to c (m + n) c2"
proof -
  let ?ks = "map fst (order_of (lfu_freqs c))"
  have c1: "map fst (order_of (lfu_freqs c1)) = drop m ?ks"
    using assms(1) by (simp add: evicted_to_def Let_def drop_map)
  have sp: "take (m + n) ?ks = take m ?ks @ take n (drop m ?ks)" by (rule take_add)
  have "distinct ?ks" using assms(3) distinct_order by (auto simp: lfu_inv_def)
  then have "set (take m ?ks) \<inter> set (take n (drop m ?ks)) = {}"
    by (metis append_take_drop_id disjoint_iff distinct_append in_set_takeD)
  then have "evictions c1 (take n (drop m ?ks)) = evictions c (take n (drop m ?ks))"
    using assms(1) by (auto simp: evictions_def evicted_to_def Let_def)
  then show ?thesis
    using assms(1,2) unfolding evicted_to_def Let_def c1 sp
    by (auto simp: same_setup_def evictions_append add.commute)
qed

lemma filter_neq_head: "distinct (k # ks) \<Longrightarrow> filter (\<lambda>x. x \<noteq> k) (k # ks) = ks"
  by (auto simp: filter_id_conv)

lemma evict_one:
  assumes inv: "lfu_inv c" and fs: "lfu_freqs c = li # rest" "le_entries li = k # ks"
    and e: "map_of (lfu_values c) k = Some e"
  defines "c1 \<equiv> try_send (k, ce_value e) c"
  defines "c2 \<equiv> remEntry (le_node li) k (c1\<lparr>lfu_values := AList.delete k (lfu_values c1)\<rparr>)"
  shows "evicted_to c 1 (c2\<lparr>lfu_len := lfu_len c2 - 1\<rparr>)"
    "lfu_freqs c2 = (if ks = [] then rest else li\<lparr>le_entries := ks\<rparr> # rest)"
proof -
  have inv1: "lfu_inv c1" and c1: "c1 = c\<lparr>EvictionChannel := sent (EvictionChannel c) [(k, ce_value e)]\<rparr>"
    using inv by (simp_all add: c1_def try_send_eq)
  have e1: "map_of (lfu_values c1) k = Some e" and fs1: "lfu_freqs c1 = [] @ li # rest"
    using e fs by (simp_all add: c1)
  have "holds (lfu_freqs c) k (le_node li)" using fs by simp
  then have node: "freqNode e = Some (le_node li)"
    using linkedD(2) [of "lfu_values c" "lfu_freqs c" k e] inv e by (auto simp: lfu_inv_def)
  have k: "k \<in> set (le_entries li)" using fs by simp
  note rk = remove_known [OF inv1 e1 fs1 node k]
  have c2: "c2 = c1\<lparr>lfu_values := AList.delete k (lfu_values c1), lfu_freqs := without k li @ rest\<rparr>"
    using rk(1) by (simp add: c2_def)
  show "lfu_freqs c2 = (if ks = [] then rest else li\<lparr>le_entries := ks\<rparr> # rest)"
    by (simp add: c2 without_def fs)
  have "lfu_inv (c2\<lparr>lfu_len := lfu_len c2 - 1\<rparr>)" using rk(2) by (simp add: c2)
  moreover have "order_of (lfu_freqs c2) = drop 1 (order_of (lfu_freqs c))"
    by (simp add: c2 without_def fs)
  moreover have "lfu_Peek k' c2 = (if k' = k then None else lfu_Peek k' c)" for k'
    by (simp add: lfu_Peek_def c2 c1 delete_conv')
  moreover have "lfu_Peek k c = Some (ce_value e)" using e by (simp add: lfu_Peek_def)
  ultimately show "evicted_to c 1 (c2\<lparr>lfu_len := lfu_len c2 - 1\<rparr>)"
    unfolding evicted_to_def Let_def
    by (simp add: same_setup_def c2 c1 fs evictions_def lfu_Peek_def e)
qed

lemma evict_bucket_evicts:
  assumes "lfu_inv c" "lfu_freqs c = (if keys = [] then rest else li\<lparr>le_entries := keys\<rparr> # rest)"
  shows "\<exists>c'. evict_bucket (le_node li) keys ev cnt c = Some (ev + int (min (nat (cnt - ev)) (length keys)), c') \<and>
      evicted_to c (min (nat (cnt - ev)) (length keys)) c'"
  using assms
proof (induction keys arbitrary: ev c)
  case (Cons k ks)
  let ?li = "li\<lparr>le_entries := k # ks\<rparr>"
  show ?case
  proof (cases "ev < cnt")
    case False
    then show ?thesis using Cons.prems(1) by simp
  next
    case True
    have fs: "lfu_freqs c = ?li # rest" "le_entries ?li = k # ks" using Cons.prems(2) by simp_all
    then have "lfu_Peek k c \<noteq> None" using lfu_Peek_inv [OF Cons.prems(1), of k] by auto
    then obtain e where e: "map_of (lfu_values c) k = Some e" by (auto simp: lfu_Peek_def)
    define c1 where "c1 = try_send (k, ce_value e) c"
    define c2 where "c2 = remEntry (le_node ?li) k (c1\<lparr>lfu_values := AList.delete k (lfu_values c1)\<rparr>)"
    note one = evict_one [OF Cons.prems(1) fs e, folded c1_def, folded c2_def]
    let ?c = "c2\<lparr>lfu_len := lfu_len c2 - 1\<rparr>"
    have "lfu_inv ?c" using evicted_toD(1) [OF one(1)] .
    moreover have "lfu_freqs ?c = (if ks = [] then rest else li\<lparr>le_entries := ks\<rparr> # rest)" using one(2) by simp
    ultimately obtain c' where
      c': "evict_bucket (le_node li) ks (ev + 1) cnt ?c =
             Some (ev + 1 + int (min (nat (cnt - (ev + 1))) (length ks)), c')"
        "evicted_to ?c (min (nat (cnt - (ev + 1))) (length ks)) c'"
      using Cons.IH [of ?c "ev + 1"] by blast
    have m: "min (nat (cnt - ev)) (length (k # ks)) = 1 + min (nat (cnt - (ev + 1))) (length ks)"
      using True by auto
    have "evict_bucket (le_node li) (k # ks) ev cnt c = evict_bucket (le_node li) ks (ev + 1) cnt ?c"
      using True e by (simp add: c1_def c2_def Let_def)
    then show ?thesis
      unfolding m using c' evicted_to_trans [OF one(1) c'(2) Cons.prems(1)] by simp
  qed
qed simp

lemma evict_loop_evicts:
  assumes "lfu_inv c"
  shows "\<exists>c'. evict_loop ev cnt c =
        Some (ev + int (min (nat (cnt - ev)) (length (order_of (lfu_freqs c)))), c') \<and>
      evicted_to c (min (nat (cnt - ev)) (length (order_of (lfu_freqs c)))) c'"
  using assms
proof (induction "length (order_of (lfu_freqs c))" arbitrary: ev c rule: less_induct)
  case less
  show ?case
  proof (cases "lfu_freqs c")
    case Nil
    then show ?thesis using less.prems by (subst evict_loop.simps) simp
  next
    case (Cons li rest)
    show ?thesis
    proof (cases "ev < cnt")
      case False
      then show ?thesis using Cons less.prems by (subst evict_loop.simps) simp
    next
      case True
      let ?m = "min (nat (cnt - ev)) (length (le_entries li))"
      have ne: "le_entries li \<noteq> []" using less.prems Cons by (simp add: lfu_inv_def buckets_ok_def)
      then obtain c1 where c1: "evict_bucket (le_node li) (le_entries li) ev cnt c = Some (ev + int ?m, c1)"
          "evicted_to c ?m c1"
        using evict_bucket_evicts [OF less.prems, of "le_entries li" rest li ev cnt] Cons by auto
      have inv1: "lfu_inv c1" and o1: "order_of (lfu_freqs c1) = drop ?m (order_of (lfu_freqs c))"
        using evicted_toD [OF c1(2)] .
      have "length (order_of (lfu_freqs c1)) < length (order_of (lfu_freqs c))"
        using o1 True ne Cons by simp
      from less.hyps [OF this inv1, of "ev + int ?m"] obtain c2 where
        c2: "evict_loop (ev + int ?m) cnt c1 = Some (ev + int ?m +
            int (min (nat (cnt - (ev + int ?m))) (length (order_of (lfu_freqs c1)))), c2)"
          "evicted_to c1 (min (nat (cnt - (ev + int ?m))) (length (order_of (lfu_freqs c1)))) c2"
        by blast
      have len: "length (le_entries li) \<le> length (order_of (lfu_freqs c))" using Cons by simp
      have m: "min (nat (cnt - ev)) (length (order_of (lfu_freqs c))) =
          ?m + min (nat (cnt - (ev + int ?m))) (length (order_of (lfu_freqs c1)))"
      proof -
        have "nat (cnt - (ev + int ?m)) = nat (cnt - ev) - ?m" by (simp add: nat_diff_distrib' algebra_simps)
        moreover have "length (order_of (lfu_freqs c1)) = length (order_of (lfu_freqs c)) - ?m"
          by (simp only: o1 length_drop)
        moreover have "min a l = min a n + min (a - min a n) (l - min a n)" if "n \<le> l" for a l n :: nat
          using that by linarith
        ultimately show ?thesis using len by presburger
      qed
      have "evict_loop ev cnt c = evict_loop (ev + int ?m) cnt c1"
        using Cons True c1(1) by (subst evict_loop.simps) simp
      then show ?thesis
        unfolding m using c2 evicted_to_trans [OF c1(2) c2(2) less.prems] by simp
    qed
  qed
qed

subsection \<open>The specification\<close>

text \<open>The cache as a user sees it: the keys in eviction order with their frequencies, and the values.\<close>

type_synonym ('k, 'v) view = "('k \<times> int) list \<times> ('k \<rightharpoonup> 'v)"

definition view :: "('k, 'v) cache \<Rightarrow> ('k, 'v) view" where
  "view c = (order_of (lfu_freqs c), \<lambda>k. lfu_Peek k c)"

datatype ('k, 'v) lfu_op = LGet 'k | LSet 'k 'v | LRemove 'k | LEvict int | LPurge

fun run_lfu :: "('k, 'v) lfu_op \<Rightarrow> ('k, 'v) cache \<Rightarrow> ('k, 'v) cache option" where
  "run_lfu (LGet k) c = map_option snd (lfu_Get k c)"
| "run_lfu (LSet k v) c = lfu_Set k v c"
| "run_lfu (LRemove k) c = map_option snd (lfu_Remove k c)"
| "run_lfu (LEvict n) c = map_option snd (lfu_evict n c)"
| "run_lfu LPurge c = Some (lfu_Purge c)"

definition uses :: "('k \<times> int) list \<Rightarrow> 'k \<Rightarrow> int" where
  "uses ord k = (case map_of ord k of Some f \<Rightarrow> f | None \<Rightarrow> 0)"

definition spec_evict :: "nat \<Rightarrow> ('k, 'v) view \<Rightarrow> ('k, 'v) view" where
  "spec_evict m w =
     (drop m (fst w), \<lambda>k. if k \<in> set (take m (map fst (fst w))) then None else snd w k)"

fun spec_lfu :: "int \<Rightarrow> int \<Rightarrow> ('k, 'v) lfu_op \<Rightarrow> ('k, 'v) view \<Rightarrow> ('k, 'v) view" where
  "spec_lfu ub lb (LGet k) w =
     (if snd w k = None then w else (touch k (uses (fst w) k + 1) (fst w), snd w))"
| "spec_lfu ub lb (LSet k v) w =
     (let w' = (touch k (uses (fst w) k + 1) (fst w), (snd w)(k \<mapsto> v))
      in if snd w k = None \<and> 0 < ub \<and> 0 < lb \<and> ub < int (length (fst w'))
         then spec_evict (nat (int (length (fst w')) - lb)) w' else w')"
| "spec_lfu ub lb (LRemove k) w = (filter (\<lambda>x. fst x \<noteq> k) (fst w), (snd w)(k := None))"
| "spec_lfu ub lb (LEvict n) w = spec_evict (nat n) w"
| "spec_lfu ub lb LPurge w = ([], Map.empty)"

lemma uses_freq_of [simp]: "uses (order_of (lfu_freqs c)) k = freq_of k c"
  by (simp add: uses_def freq_of_def)

lemma lfu_len_order:
  assumes "lfu_inv c"
  shows "lfu_len c = int (length (order_of (lfu_freqs c)))"
proof -
  have d: "distinct (map fst (lfu_values c))" "distinct (map fst (order_of (lfu_freqs c)))"
    using assms distinct_order by (auto simp: lfu_inv_def linked_def)
  have "k \<in> set (map fst (lfu_values c)) \<longleftrightarrow> k \<in> set (map fst (order_of (lfu_freqs c)))" for k
    using lfu_Peek_inv [OF assms, of k] by (auto simp: lfu_Peek_def map_of_eq_None_iff)
  then have "set (map fst (lfu_values c)) = set (map fst (order_of (lfu_freqs c)))" by blast
  then have "length (lfu_values c) = length (order_of (lfu_freqs c))"
    using d by (metis distinct_card length_map)
  then show ?thesis using assms by (simp add: lfu_inv_def)
qed

lemma evict_view:
  assumes "lfu_inv c"
  shows "\<exists>c' n. lfu_evict cnt c = Some (n, c') \<and> n = int (min (nat cnt) (length (order_of (lfu_freqs c)))) \<and>
      lfu_inv c' \<and> same_setup c c' \<and> view c' = spec_evict (nat cnt) (view c)"
proof -
  let ?o = "order_of (lfu_freqs c)" let ?m = "min (nat cnt) (length ?o)"
  obtain c' where c': "lfu_evict cnt c = Some (int ?m, c')" "evicted_to c ?m c'"
    using evict_loop_evicts [OF assms, of 0 cnt] by (auto simp: lfu_evict_def)
  have "drop ?m ?o = drop (nat cnt) ?o" "take ?m (map fst ?o) = take (nat cnt) (map fst ?o)"
    by (simp_all add: min_def)
  then show ?thesis
    using c' by (auto simp: evicted_to_def Let_def view_def spec_evict_def)
qed

lemma remove_view:
  assumes inv: "lfu_inv c"
  shows "\<exists>c'. lfu_Remove k c = Some (lfu_Has k c, c') \<and> lfu_inv c' \<and> same_setup c c' \<and>
      view c' = (filter (\<lambda>x. fst x \<noteq> k) (fst (view c)), (snd (view c))(k := None))"
proof (cases "map_of (lfu_values c) k")
  case None
  have "k \<notin> fst ` set (order_of (lfu_freqs c))"
    using lfu_Peek_inv [OF inv, of k] None by (simp add: lfu_Peek_def)
  then have "filter (\<lambda>x. fst x \<noteq> k) (order_of (lfu_freqs c)) = order_of (lfu_freqs c)"
    by (auto simp: filter_id_conv)
  then show ?thesis
    using inv None by (simp add: lfu_Remove_def lfu_Has_def same_setup_def view_def lfu_Peek_def fun_eq_iff)
next
  case (Some e)
  from lfu_inv_node [OF inv Some] obtain us b vs where
    fs: "lfu_freqs c = us @ b # vs" and b: "freqNode e = Some (le_node b)" "k \<in> set (le_entries b)" by blast
  note rk = remove_known [OF inv Some fs b]
  have "buckets_ok (lfu_fresh c) (us @ b # vs)" using inv fs by (simp add: lfu_inv_def)
  note ord = filter_order_bucket [OF this b(2)]
  show ?thesis
    using Some b(1) rk ord
    by (simp add: lfu_Remove_def lfu_Has_def same_setup_def view_def lfu_Peek_def fun_eq_iff fs delete_conv')
qed

lemma lfu_Get_view:
  assumes inv: "lfu_inv c"
  shows "\<exists>c'. lfu_Get k c = Some (lfu_Peek k c, c') \<and> lfu_inv c' \<and> same_setup c c' \<and>
      view c' = spec_lfu (UpperBound c) (LowerBound c) (LGet k) (view c)"
proof (cases "map_of (lfu_values c) k")
  case None
  then show ?thesis using inv by (simp add: lfu_Get_def lfu_Peek_def same_setup_def view_def)
next
  case (Some e)
  then show ?thesis
    using increment_known [OF inv Some] by (auto simp: lfu_Get_def lfu_Peek_def view_def)
qed

lemma lfu_Set_view:
  assumes inv: "lfu_inv c"
  shows "\<exists>c'. lfu_Set k v c = Some c' \<and> lfu_inv c' \<and> same_setup c c' \<and>
      view c' = spec_lfu (UpperBound c) (LowerBound c) (LSet k v) (view c)"
proof (cases "map_of (lfu_values c) k")
  case (Some e)
  let ?c = "c\<lparr>lfu_values := AList.update k (e\<lparr>ce_value := v\<rparr>) (lfu_values c)\<rparr>"
  have e': "map_of (lfu_values ?c) k = Some (e\<lparr>ce_value := v\<rparr>)" by (simp add: update_conv')
  obtain n where "freqNode e = Some n" "\<forall>m. holds (lfu_freqs c) k m \<longleftrightarrow> m = n"
    using linkedD(2) [of "lfu_values c" "lfu_freqs c" k e] inv Some by (auto simp: lfu_inv_def)
  then have inv': "lfu_inv ?c"
    using inv Some linked_update [of "lfu_values c" "lfu_freqs c" k "lfu_freqs c" n "e\<lparr>ce_value := v\<rparr>"]
    by (simp add: lfu_inv_def length_alist_update)
  obtain c' where c': "increment k ?c = Some c'" "lfu_inv c'" "same_setup ?c c'"
      "order_of (lfu_freqs c') = touch k (freq_of k ?c + 1) (order_of (lfu_freqs c))"
      "\<forall>k'. lfu_Peek k' c' = lfu_Peek k' ?c"
    using increment_known [OF inv' e'] by auto
  have "lfu_Peek k' ?c = (if k' = k then Some v else lfu_Peek k' c)" for k'
    by (simp add: lfu_Peek_def update_conv')
  then have "view c' = (touch k (freq_of k c + 1) (order_of (lfu_freqs c)), (snd (view c))(k \<mapsto> v))"
    using c'(4,5) by (auto simp: view_def freq_of_def fun_eq_iff)
  then show ?thesis
    using c'(1-3) Some
    by (simp add: lfu_Set_def same_setup_def Let_def view_def lfu_Peek_def)
next
  case None
  obtain c1 where c1: "increment k (c\<lparr>lfu_values := AList.update k \<lparr>ce_value = v, freqNode = None\<rparr> (lfu_values c)\<rparr>) = Some c1"
      "lfu_inv (c1\<lparr>lfu_len := lfu_len c1 + 1\<rparr>)" "same_setup c c1" "lfu_len c1 = lfu_len c"
      "order_of (lfu_freqs c1) = touch k 1 (order_of (lfu_freqs c))"
      "\<forall>k'. lfu_Peek k' c1 = (if k' = k then Some v else lfu_Peek k' c)"
    using increment_fresh [OF inv None, of v] by blast
  let ?c = "c1\<lparr>lfu_len := lfu_len c1 + 1\<rparr>"
  have len: "lfu_len ?c = int (length (touch k 1 (order_of (lfu_freqs c))))"
    using lfu_len_order [OF c1(2)] c1(5) by simp
  have vw: "view ?c = (touch k 1 (order_of (lfu_freqs c)), (snd (view c))(k \<mapsto> v))"
    using c1(5,6) by (auto simp: view_def lfu_Peek_def fun_eq_iff)
  have f: "freq_of k c = 0" "lfu_Peek k c = None"
    using freq_of_new(1) [OF inv None] None by (simp_all add: lfu_Peek_def)
  then have w: "fst (view c) = order_of (lfu_freqs c)" "snd (view c) k = None" "uses (fst (view c)) k = 0"
    by (simp_all add: view_def)
  have spec: "spec_lfu ub lb (LSet k v) (view c) =
      (if 0 < ub \<and> 0 < lb \<and> ub < lfu_len ?c then spec_evict (nat (lfu_len ?c - lb)) (view ?c) else view ?c)" for ub lb
    unfolding vw len by (simp add: Let_def w f)
  have ss: "same_setup c ?c" using c1(3) by (simp add: same_setup_def)
  show ?thesis
  proof (cases "UpperBound c > 0 \<and> LowerBound c > 0 \<and> lfu_len ?c > UpperBound c")
    case True
    obtain c2 n where c2: "lfu_evict (lfu_len ?c - LowerBound c) ?c = Some (n, c2)" "lfu_inv c2"
        "same_setup ?c c2" "view c2 = spec_evict (nat (lfu_len ?c - LowerBound c)) (view ?c)"
      using evict_view [OF c1(2), of "lfu_len ?c - LowerBound c"] by blast
    have "lfu_Set k v c = Some c2"
      using True None c1(1,3) c2(1) by (simp add: lfu_Set_def same_setup_def)
    then show ?thesis
      unfolding spec using c2(2-4) True ss by (auto simp: same_setup_def)
  next
    case False
    then have "lfu_Set k v c = Some ?c"
      using None c1(1,3) by (auto simp: lfu_Set_def same_setup_def)
    then show ?thesis
      unfolding spec using False c1(2) ss by auto
  qed
qed

lemma run_lfu_view:
  assumes "lfu_inv c"
  shows "\<exists>c'. run_lfu op c = Some c' \<and> lfu_inv c' \<and>
           UpperBound c' = UpperBound c \<and> LowerBound c' = LowerBound c \<and>
           view c' = spec_lfu (UpperBound c) (LowerBound c) op (view c)"
proof (cases op)
  case (LGet k)
  then show ?thesis using lfu_Get_view [OF assms, of k] by (fastforce simp: same_setup_def)
next
  case (LSet k v)
  then show ?thesis using lfu_Set_view [OF assms, of k v] by (simp only: run_lfu.simps same_setup_def) blast
next
  case (LRemove k)
  then show ?thesis using remove_view [OF assms, of k] by (fastforce simp: same_setup_def)
next
  case (LEvict n)
  then show ?thesis using evict_view [OF assms, of n] by (fastforce simp: same_setup_def)
next
  case LPurge
  then show ?thesis
    using assms by (simp add: lfu_Purge_def lfu_inv_def buckets_ok_def linked_def view_def lfu_Peek_def)
qed

text \<open>C22: On every cache that satisfies the invariant (buckets of strictly increasing frequency, none
  empty, each key in exactly one bucket, the node of every entry right, the length right) each
  operation returns, keeps the invariant, and does to the keys in eviction order and to the values
  what the specification of a least-frequently-used cache with first-in-first-out ties says.
\<close>
theorem lfu_refines:
  assumes "lfu_inv c"
  shows "\<exists>c'. run_lfu op c = Some c' \<and> lfu_inv c' \<and>
           UpperBound c' = UpperBound c \<and> LowerBound c' = LowerBound c \<and>
           view c' = spec_lfu (UpperBound c) (LowerBound c) op (view c)"
  by (rule run_lfu_view [OF assms])

lemma lfu_inv_New [simp]: "lfu_inv (lfu_New cap)"
  by (simp add: lfu_New_def lfu_inv_def buckets_ok_def linked_def)

lemma lfu_refines_witness:
  "\<exists>c'. run_lfu (LSet ''a'' (1 :: int)) (lfu_New 2) = Some c' \<and> lfu_inv c' \<and>
     fst (view c') = [(''a'', 1)] \<and> snd (view c') ''a'' = Some 1"
proof -
  have "view (lfu_New 2 :: (string, int) cache) = ([], Map.empty)"
    by (simp add: lfu_New_def view_def lfu_Peek_def fun_eq_iff)
  then have "spec_lfu (UpperBound (lfu_New 2 :: (string, int) cache)) (LowerBound (lfu_New 2 :: (string, int) cache))
      (LSet ''a'' 1) (view (lfu_New 2 :: (string, int) cache)) = ([(''a'', 1)], [''a'' \<mapsto> 1])"
    by (simp add: touch_def uses_def lfu_New_def Let_def)
  then show ?thesis
    using lfu_refines [OF lfu_inv_New, of "LSet ''a'' (1 :: int)" 2] by (metis fst_conv fun_upd_same snd_conv)
qed

fun run_lfus :: "('k, 'v) lfu_op list \<Rightarrow> ('k, 'v) cache \<Rightarrow> ('k, 'v) cache option" where
  "run_lfus [] c = Some c"
| "run_lfus (op # ops) c = do { c \<leftarrow> run_lfu op c; run_lfus ops c }"

lemma length_touch: "length (touch k f ord) = Suc (length (filter (\<lambda>x. fst x \<noteq> k) ord))"
  using arg_cong [OF takeWhile_dropWhile_id, of length "\<lambda>x. snd x \<le> f" "filter (\<lambda>x. fst x \<noteq> k) ord"]
  unfolding touch_def Let_def length_append by simp

lemma length_touch_known: "k \<in> fst ` set ord \<Longrightarrow> length (touch k f ord) \<le> length ord"
  using length_filter_less [of _ ord "\<lambda>x. fst x \<noteq> k"] by (fastforce simp: length_touch)

lemma spec_lfu_bound:
  assumes "lfu_inv c" "0 < cap" "int (length (fst (view c))) \<le> cap"
  shows "int (length (fst (spec_lfu cap cap op (view c)))) \<le> cap"
proof -
  have known: "length (touch k f (fst (view c))) \<le> length (fst (view c))" if "snd (view c) k \<noteq> None" for k f
    using that lfu_Peek_inv [OF assms(1), of k] by (intro length_touch_known) (auto simp: view_def)
  have any: "length (touch k f (fst (view c))) \<le> Suc (length (fst (view c)))" for k f
    by (simp add: length_touch)
  show ?thesis
  proof (cases op)
    case (LSet k v)
    then show ?thesis
      using known [of k] any [of k] assms(2,3)
      by (auto simp: Let_def spec_evict_def) (meson dual_order.trans of_nat_mono)
  next
    case (LGet k)
    then show ?thesis using known [of k] assms(3) by (auto intro: dual_order.trans of_nat_mono)
  next
    case (LRemove k)
    then show ?thesis using order_trans [OF of_nat_mono [OF length_filter_le] assms(3)] by simp
  qed (use assms in \<open>auto simp: spec_evict_def\<close>)
qed

text \<open>C23: Whatever sequence of operations a cache created with a positive capacity goes through, none
  of them fails or runs forever, the invariant holds, the cache never holds more keys than its
  capacity, and its length is the number of its keys.
\<close>
theorem lfu_bounded:
  assumes "0 < cap"
  shows "\<exists>c'. run_lfus ops (lfu_New cap) = Some c' \<and> lfu_inv c' \<and> lfu_Len c' \<le> cap \<and>
           int (length (lfu_Keys c')) = lfu_Len c'"
proof -
  have "\<exists>c'. run_lfus ops c = Some c' \<and> lfu_inv c' \<and> lfu_len c' \<le> cap"
    if "lfu_inv c" "UpperBound c = cap" "LowerBound c = cap" "lfu_len c \<le> cap" for c
    using that
  proof (induction ops arbitrary: c)
    case (Cons op ops)
    obtain c1 where c1: "run_lfu op c = Some c1" "lfu_inv c1" "UpperBound c1 = cap" "LowerBound c1 = cap"
        "view c1 = spec_lfu cap cap op (view c)"
      using run_lfu_view [OF Cons.prems(1), of op] Cons.prems by auto
    have "lfu_len c1 \<le> cap"
      using spec_lfu_bound [OF Cons.prems(1) assms, of op, folded c1(5)] lfu_len_order [OF Cons.prems(1)]
        lfu_len_order [OF c1(2)] Cons.prems(4) by (simp add: view_def)
    then show ?case using Cons.IH [OF c1(2-4)] c1(1) by simp
  qed simp
  moreover have "UpperBound (lfu_New cap) = cap" "LowerBound (lfu_New cap) = cap" "lfu_len (lfu_New cap) \<le> cap"
    using assms by (simp_all add: lfu_New_def)
  ultimately obtain c' where "run_lfus ops (lfu_New cap) = Some c'" "lfu_inv c'" "lfu_len c' \<le> cap"
    using lfu_inv_New by blast
  then show ?thesis by (auto simp: lfu_Len_def lfu_Keys_def lfu_inv_def)
qed

lemma lfu_bounded_witness:
  "\<exists>c'. run_lfus [LSet ''a'' (1 :: int), LSet ''b'' 2, LGet ''a'', LSet ''c'' 3] (lfu_New 2) = Some c' \<and>
     lfu_Len c' \<le> 2"
  using lfu_bounded [of 2 "[LSet ''a'' (1 :: int), LSet ''b'' 2, LGet ''a'', LSet ''c'' 3]"] by auto

text \<open>C24: A new key does not survive its own insertion into a full cache whose keys were all used
  twice: \<^verbatim>\<open>Set\<close> inserts it with frequency one and the eviction that follows removes the least
  frequently used key, which is the new one, so the cache is unchanged.
\<close>
theorem lfu_Set_evicts_new:
  assumes inv: "lfu_inv c" and new: "\<not> lfu_Has k c"
    and full: "0 < UpperBound c" "LowerBound c = UpperBound c" "lfu_Len c = UpperBound c"
    and hot: "\<forall>x\<in>set (order_of (lfu_freqs c)). 2 \<le> snd x"
  shows "\<exists>c'. lfu_Set k v c = Some c' \<and> view c' = view c"
proof -
  let ?o = "order_of (lfu_freqs c)"
  have k: "lfu_Peek k c = None" using new by (simp add: lfu_Has_def lfu_Peek_def)
  have "k \<notin> fst ` set ?o" using lfu_Peek_inv [OF inv] k by blast
  then have filt: "filter (\<lambda>x. fst x \<noteq> k) ?o = ?o" by (auto simp: filter_id_conv)
  have "takeWhile (\<lambda>x. snd x \<le> 1) ?o = [] \<and> dropWhile (\<lambda>x. snd x \<le> 1) ?o = ?o"
    using hot by (cases ?o) auto
  then have t: "touch k 1 ?o = (k, 1) # ?o" by (simp add: touch_def filt)
  have f: "freq_of k c = 0"
    using freq_of_new(1) [OF inv] new by (simp add: lfu_Has_def)
  have len: "int (length ?o) = UpperBound c" using lfu_len_order [OF inv] full(3) by (simp add: lfu_Len_def)
  have "spec_lfu (UpperBound c) (LowerBound c) (LSet k v) (view c) = view c"
    using full len k by (auto simp: view_def Let_def f t spec_evict_def fun_eq_iff)
  then show ?thesis using lfu_Set_view [OF inv, of k v] by auto
qed

lemma GetFrequency_freq_of:
  assumes "lfu_inv c"
  shows "GetFrequency k c = Some (freq_of k c)"
proof (cases "map_of (lfu_values c) k")
  case None
  then show ?thesis using freq_of_new(1) [OF assms None] by (simp add: GetFrequency_def)
next
  case (Some e)
  from lfu_inv_node [OF assms Some] obtain us b vs where
    fs: "lfu_freqs c = us @ b # vs" "freqNode e = Some (le_node b)" "k \<in> set (le_entries b)" by blast
  have ok: "buckets_ok (lfu_fresh c) (lfu_freqs c)" using assms by (simp add: lfu_inv_def)
  then have "le_node b \<notin> le_node ` set us" using fs(1) by (auto simp: buckets_ok_def)
  then show ?thesis
    using Some fs node_ops(1) [of "le_node b" us b vs] freq_of_bucket [OF ok fs(1,3)]
    by (simp add: GetFrequency_def)
qed

lemma lfu_Has_Peek: "lfu_Has k c \<longleftrightarrow> lfu_Peek k c \<noteq> None"
  by (simp add: lfu_Has_def lfu_Peek_def)

lemma first_Set:
  "\<exists>c. lfu_Set ''a'' (1 :: int) (lfu_New 1) = Some c \<and> lfu_inv c \<and> UpperBound c = 1 \<and> LowerBound c = 1 \<and>
     view c = ([(''a'', 1)], [''a'' \<mapsto> 1])"
proof -
  let ?n = "lfu_New 1 :: (string, int) cache"
  have "view ?n = ([], Map.empty)" "UpperBound ?n = 1" "LowerBound ?n = 1"
    by (simp_all add: lfu_New_def view_def lfu_Peek_def fun_eq_iff)
  then show ?thesis
    using run_lfu_view [of ?n "LSet ''a'' 1"] by (auto simp: touch_def uses_def)
qed

lemma lfu_Set_evicts_new_witness:
  "\<exists>c c'. run_lfus [LSet ''a'' (1 :: int), LGet ''a''] (lfu_New 1) = Some c \<and>
     lfu_Set ''b'' 2 c = Some c' \<and> \<not> lfu_Has ''b'' c' \<and> lfu_Has ''a'' c'"
proof -
  obtain c1 where c1: "lfu_Set ''a'' (1 :: int) (lfu_New 1) = Some c1" "lfu_inv c1" "UpperBound c1 = 1"
      "LowerBound c1 = 1" "view c1 = ([(''a'', 1)], [''a'' \<mapsto> 1])"
    using first_Set by blast
  obtain c where c: "run_lfu (LGet ''a'') c1 = Some c" "lfu_inv c" "UpperBound c = 1" "LowerBound c = 1"
      "view c = ([(''a'', 2)], [''a'' \<mapsto> 1])"
    using run_lfu_view [OF c1(2), of "LGet ''a''"] c1(3-5) by (auto simp: touch_def uses_def)
  have o: "order_of (lfu_freqs c) = [(''a'', 2)]" "\<not> lfu_Has ''b'' c"
    using arg_cong [OF c(5), of fst] fun_cong [OF arg_cong [OF c(5), of snd], of "''b''"]
    by (simp_all add: view_def lfu_Has_Peek)
  have "lfu_Len c = 1" using lfu_len_order [OF c(2)] o by (simp add: lfu_Len_def)
  then obtain c' where c': "lfu_Set ''b'' 2 c = Some c'" "view c' = view c"
    using lfu_Set_evicts_new [OF c(2) o(2), of 2] c(3,4) o(1) by auto
  have "lfu_Peek x c' = [''a'' \<mapsto> 1] x" for x
    using fun_cong [OF arg_cong [OF c'(2), of snd], of x] fun_cong [OF arg_cong [OF c(5), of snd], of x]
    by (simp add: view_def)
  then have "\<not> lfu_Has ''b'' c' \<and> lfu_Has ''a'' c'" by (simp add: lfu_Has_Peek)
  moreover have "run_lfu (LSet ''a'' 1) (lfu_New 1) = Some c1" using c1(1) by simp
  then have "run_lfus [LSet ''a'' 1, LGet ''a''] (lfu_New 1) = Some c"
    using c(1) by (simp del: run_lfu.simps)
  ultimately show ?thesis using c'(1) by blast
qed

lemma topk_loop_take:
  "topk_loop k keys xs = (if xs = [] then keys else keys @ take (max 1 (nat k - length keys)) xs)"
proof (induction xs arbitrary: keys)
  case (Cons x xs)
  show ?case
  proof (cases "k \<le> int (length (keys @ [x]))")
    case True
    then have "max 1 (nat k - length keys) = 1" by auto
    then show ?thesis using True by simp
  next
    case False
    then have "max 1 (nat k - length keys) = Suc (max 1 (nat k - length (keys @ [x])))" by auto
    then show ?thesis using False Cons by simp
  qed
qed simp

lemma rev_order_keys: "concat (map (\<lambda>b. rev (le_entries b)) (rev fs)) = rev (map fst (order_of fs))"
  by (induction fs) (simp_all add: comp_def)

lemma sorted_order: "buckets_ok n fs \<Longrightarrow> sorted (map snd (order_of fs))"
proof (induction fs)
  case (Cons b fs)
  then have "sorted (map snd (order_of fs))" "\<forall>b'\<in>set fs. le_freq b < le_freq b'"
    by (auto simp: buckets_ok_def)
  moreover from this have "\<forall>x\<in>set (order_of fs). le_freq b \<le> snd x"
    by (fastforce dest: set_snd_order)
  ultimately show ?case by (auto simp: sorted_append comp_def map_replicate_const)
qed simp

text \<open>\<^verbatim>\<open>TopK\<close> of a non-negative \<open>k\<close> returns the \<open>k\<close> last keys of the eviction order, latest first (one key
  for \<open>k = 0\<close>), and no key of the cache that it leaves out was used more often than one that it
  returns.
\<close>
theorem TopK_most_used:
  assumes "lfu_inv c" "0 \<le> k"
  shows "\<exists>ks. TopK k c = Some ks \<and>
           ks = take (max 1 (nat k)) (rev (map fst (order_of (lfu_freqs c)))) \<and>
           (\<forall>x y. x \<in> set ks \<and> lfu_Has y c \<and> y \<notin> set ks \<longrightarrow>
              (\<exists>f g. GetFrequency y c = Some f \<and> GetFrequency x c = Some g \<and> f \<le> g))"
proof -
  let ?o = "order_of (lfu_freqs c)" and ?m = "max 1 (nat k)"
  let ?ks = "take ?m (rev (map fst ?o))"
  have ok: "buckets_ok (lfu_fresh c) (lfu_freqs c)" using assms by (simp add: lfu_inv_def)
  have eq: "TopK k c = Some ?ks"
    using assms(2) by (simp add: TopK_def topk_loop_take rev_order_keys)
  have le: "freq_of y c \<le> freq_of x c" if "x \<in> set ?ks" "lfu_Has y c" "y \<notin> set ?ks" for x y
  proof -
    let ?n = "length ?o - ?m"
    have ks: "set ?ks = set (drop ?n (map fst ?o))" by (simp only: take_rev set_rev length_map)
    have split: "?o = take ?n ?o @ drop ?n ?o" by simp
    have x: "x \<in> fst ` set (drop ?n ?o)" and y: "y \<notin> fst ` set (drop ?n ?o)"
      using that(1,3) by (simp_all only: ks drop_map list.set_map not_False_eq_True)
    obtain f where f: "(x, f) \<in> set (drop ?n ?o)" using x by auto
    have "y \<in> fst ` set ?o"
      using lfu_Peek_inv [OF assms(1), of y] that(2) by (auto simp: lfu_Has_def lfu_Peek_def)
    then obtain g where g0: "(y, g) \<in> set ?o" by auto
    have "(y, g) \<notin> set (drop ?n ?o)" using y by (metis fst_conv image_eqI)
    then have g: "(y, g) \<in> set (take ?n ?o)" using g0 split by (metis Un_iff set_append)
    have "sorted (map snd (take ?n ?o) @ map snd (drop ?n ?o))"
      using sorted_order [OF ok] by (simp flip: map_append)
    then have "g \<le> f" using f g by (force simp: sorted_append)
    moreover have "freq_of x c = f"
      using f distinct_order [OF ok] map_of_is_SomeI [of ?o x f] by (auto simp: freq_of_def dest: in_set_dropD)
    moreover have "freq_of y c = g"
      using g0 distinct_order [OF ok] by (simp add: freq_of_def)
    ultimately show ?thesis by simp
  qed
  show ?thesis
    using eq le GetFrequency_freq_of [OF assms(1)] by blast
qed

lemma TopK_most_used_witness:
  "\<exists>c. lfu_Set ''a'' (1 :: int) (lfu_New 1) = Some c \<and> TopK 3 c = Some [''a'']"
proof -
  obtain c where c: "lfu_Set ''a'' (1 :: int) (lfu_New 1) = Some c" "lfu_inv c"
      "view c = ([(''a'', 1)], [''a'' \<mapsto> 1])"
    using first_Set by blast
  then have "order_of (lfu_freqs c) = [(''a'', 1)]" by (simp add: view_def)
  then show ?thesis using TopK_most_used [OF c(2), of 3] c(1) by simp
qed

end
