(* ===== verification/Hash_Ring.thy ===== *)
theory Hash_Ring
  imports Go_Std "HOL-Library.Word" "HOL-Library.AList" "HOL-Library.Monad_Syntax" "HOL-Library.Multiset"
begin

unbundle bit_operations_syntax

text \<open>
  \<^verbatim>\<open>storage/selector/hashring\<close>: the consistent-hashing circle (\<^verbatim>\<open>consistent.go\<close>) and the selector of a
  bucket that uses it (\<^verbatim>\<open>hashring.go\<close>).  Maps are association lists; the order in which Go visits a
  map is the argument \<open>ord\<close>, of which only \<open>map_order\<close> is known.  \<open>None\<close> is a panic in the operations that
  build a circle; the operations that look up return an error as \<open>Inl\<close>, and those with a loop are
  \<open>None\<close> when the loop never ends.
\<close>

subsection \<open>consistent.go\<close>

record hr_node =
  ID :: string
  Weight :: int

datatype hr_err = ErrEmptyCircle | HrPanic

record 'a consistent =
  circles :: "(32 word \<times> 'a hr_node_scheme) list"
  members :: "string list"
  sortedHashes :: "32 word list"
  NumberOfReplicas :: int
  hr_count :: int
  UseFnv :: bool

definition byte_word :: "char \<Rightarrow> 'a::len word" where
  "byte_word c = word_of_nat (of_char c)"

definition fnv32a :: "string \<Rightarrow> 32 word" where
  "fnv32a s = fold (\<lambda>c h. (h XOR byte_word c) * 16777619) s 2166136261"

definition crc_bit :: "32 word \<Rightarrow> 32 word" where
  "crc_bit c = (if bit c 0 then drop_bit 1 c XOR 0xEDB88320 else drop_bit 1 c)"

definition ChecksumIEEE :: "string \<Rightarrow> 32 word" where
  "ChecksumIEEE s = NOT (fold (\<lambda>b c. (crc_bit ^^ 8) (c XOR byte_word b)) s (NOT 0))"

definition hashKeyFnv :: "string \<Rightarrow> 32 word" where
  "hashKeyFnv key = fnv32a key"

definition hashKeyCRC32 :: "string \<Rightarrow> 32 word" where
  "hashKeyCRC32 key =
     (if length key < 64 then
        (let scratch = key @ replicate (64 - length key) (ch 0) in ChecksumIEEE (take (length key) scratch))
      else ChecksumIEEE key)"

definition hashKey :: "'a consistent \<Rightarrow> string \<Rightarrow> 32 word" where
  "hashKey c key = (if UseFnv c then hashKeyFnv key else hashKeyCRC32 key)"

definition eltKey :: "string \<Rightarrow> int \<Rightarrow> int \<Rightarrow> string" where
  "eltKey elt idx weigth = FormatInt idx @ ''|'' @ FormatInt weigth @ ''|'' @ elt"

definition SetNumberOfReplicas :: "int \<Rightarrow> 'a consistent \<Rightarrow> 'a consistent" where
  "SetNumberOfReplicas num c = c\<lparr>NumberOfReplicas := (if num < 1 then 1 else num)\<rparr>"

text \<open>The capacity only decides whether memory is reused, but its quotient panics without replicas.\<close>

definition updateSortedHashes :: "'a consistent \<Rightarrow> 'a consistent option" where
  "updateSortedHashes c =
     (if i64 (NumberOfReplicas c * 4) = 0 then None
      else Some (c\<lparr>sortedHashes := sort (map fst (circles c))\<rparr>))"

text \<open>The points of an element, in the order in which the two loops visit them.\<close>

definition points :: "'a consistent \<Rightarrow> string \<Rightarrow> int \<Rightarrow> 32 word list" where
  "points c elt weigth =
     concat (map (\<lambda>i. map (\<lambda>j. hashKey c (eltKey elt i j)) [0..weigth - 1]) [0..NumberOfReplicas c - 1])"

definition hr_add :: "'a hr_node_scheme \<Rightarrow> int \<Rightarrow> 'a consistent \<Rightarrow> 'a consistent option" where
  "hr_add node weigth c =
     do {
       let elt = ID node;
       let c = c\<lparr>circles := fold (\<lambda>h m. AList.update h node m) (points c elt weigth) (circles c)\<rparr>;
       let c = c\<lparr>members := List.insert elt (members c)\<rparr>;
       c \<leftarrow> updateSortedHashes c;
       Some (c\<lparr>hr_count := i64 (hr_count c + 1)\<rparr>)
     }"

definition hr_remove :: "string \<Rightarrow> int \<Rightarrow> 'a consistent \<Rightarrow> 'a consistent option" where
  "hr_remove elt weigth c =
     do {
       let c = c\<lparr>circles := fold AList.delete (points c elt weigth) (circles c)\<rparr>;
       let c = c\<lparr>members := removeAll elt (members c)\<rparr>;
       c \<leftarrow> updateSortedHashes c;
       Some (c\<lparr>hr_count := i64 (hr_count c - 1)\<rparr>)
     }"

definition elts_of :: "'a hr_node_scheme list \<Rightarrow> (string \<times> 'a hr_node_scheme) list" where
  "elts_of caches = fold (\<lambda>n m. AList.update (ID n) n m) caches []"

fun set_removes :: "string list \<Rightarrow> string list \<Rightarrow> 'a consistent \<Rightarrow> 'a consistent option" where
  "set_removes ids [] c = Some c"
| "set_removes ids (k # ks) c =
     (if k \<in> set ids then set_removes ids ks c
      else do { c \<leftarrow> hr_remove k 1 c; set_removes ids ks c })"

fun set_adds :: "'a hr_node_scheme list \<Rightarrow> 'a consistent \<Rightarrow> 'a consistent option" where
  "set_adds [] c = Some c"
| "set_adds (v # vs) c =
     (if ID v \<in> set (members c) then set_adds vs c
      else do { c \<leftarrow> hr_add v (Weight v) c; set_adds vs c })"

definition hr_Set :: "(string list \<Rightarrow> string list) \<Rightarrow> ('a hr_node_scheme list \<Rightarrow> 'a hr_node_scheme list) \<Rightarrow>
    'a hr_node_scheme list \<Rightarrow> 'a consistent \<Rightarrow> 'a consistent option" where
  "hr_Set kord ord caches c =
     (let elts = map snd (elts_of caches) in
      do { c \<leftarrow> set_removes (map ID elts) (kord (members c)) c;
           set_adds (ord elts) c })"

definition hr_Members :: "(string list \<Rightarrow> string list) \<Rightarrow> 'a consistent \<Rightarrow> string list" where
  "hr_Members kord c = kord (members c)"

definition NewConsistent :: "(string list \<Rightarrow> string list) \<Rightarrow> ('a hr_node_scheme list \<Rightarrow> 'a hr_node_scheme list) \<Rightarrow>
    'a hr_node_scheme list \<Rightarrow> int \<Rightarrow> 'a consistent option" where
  "NewConsistent kord ord caches replicas =
     hr_Set kord ord caches
       \<lparr>circles = [], members = [], sortedHashes = [], NumberOfReplicas = replicas, hr_count = 0,
        UseFnv = True\<rparr>"

definition hr_search :: "'a consistent \<Rightarrow> 32 word \<Rightarrow> nat" where
  "hr_search c key =
     (let i = sort_Search (length (sortedHashes c)) (\<lambda>x. sortedHashes c ! x > key)
      in if i \<ge> length (sortedHashes c) then 0 else i)"

text \<open>The node at an index; \<open>None\<close> is an index out of range or a nil node.\<close>

definition node_of :: "'a consistent \<Rightarrow> nat \<Rightarrow> 'a hr_node_scheme option" where
  "node_of c i =
     (if i < length (sortedHashes c) then map_of (circles c) (sortedHashes c ! i) else None)"

definition hr_Get :: "'a consistent \<Rightarrow> string \<Rightarrow> hr_err + 'a hr_node_scheme" where
  "hr_Get c name =
     (if circles c = [] then Inl ErrEmptyCircle
      else
        (case node_of c (hr_search c (hashKey c name)) of
           None \<Rightarrow> Inl HrPanic
         | Some node \<Rightarrow> Inr node))"

definition sliceContainsMember :: "'a hr_node_scheme list \<Rightarrow> 'a hr_node_scheme \<Rightarrow> bool" where
  "sliceContainsMember ns member \<longleftrightarrow> (\<exists>m\<in>set ns. ID m = ID member)"

partial_function (option) getN_loop :: "'a consistent \<Rightarrow> int \<Rightarrow> nat \<Rightarrow> nat \<Rightarrow> 'a hr_node_scheme list \<Rightarrow>
    (hr_err + 'a hr_node_scheme list) option" where
  "getN_loop c n start i res =
     (if i = start then Some (Inr res)
      else
        (let i = (if i \<ge> length (sortedHashes c) then 0 else i) in
         case node_of c i of
           None \<Rightarrow> Some (Inl HrPanic)
         | Some elem \<Rightarrow>
             (let res = (if sliceContainsMember res elem then res else res @ [elem]) in
              if int (length res) = n then Some (Inr res) else getN_loop c n start (i + 1) res)))"

definition GetN :: "'a consistent \<Rightarrow> string \<Rightarrow> int \<Rightarrow> (hr_err + 'a hr_node_scheme list) option" where
  "GetN c name n =
     (if circles c = [] then Some (Inl ErrEmptyCircle)
      else
        (let n = (if hr_count c < n then hr_count c else n);
             start = hr_search c (hashKey c name)
         in if n < 0 then Some (Inl HrPanic)
            else
              (case node_of c start of
                 None \<Rightarrow> Some (Inl HrPanic)
               | Some elem \<Rightarrow>
                   if 1 = n then Some (Inr [elem]) else getN_loop c n start (start + 1) [elem])))"

subsection \<open>hashring.go\<close>

record hr_bucket = hr_node +
  UseAllow :: bool
  HasBad :: bool

definition DefaultReplicas :: int where
  "DefaultReplicas = 20"

record 'a balancer =
  bal_buckets :: "'a hr_bucket_scheme list"
  replicas :: int
  hashring :: "('a hr_bucket_ext) consistent option"

definition Rebuild :: "(string list \<Rightarrow> string list) \<Rightarrow> ('a hr_bucket_scheme list \<Rightarrow> 'a hr_bucket_scheme list) \<Rightarrow>
    'a hr_bucket_scheme list \<Rightarrow> 'a balancer \<Rightarrow> 'a balancer option" where
  "Rebuild kord ord buckets b =
     do { r \<leftarrow> NewConsistent kord ord buckets (replicas b);
          Some (b\<lparr>bal_buckets := buckets, hashring := Some r\<rparr>) }"

definition WithReplicas :: "int \<Rightarrow> 'a balancer \<Rightarrow> 'a balancer" where
  "WithReplicas n b = b\<lparr>replicas := n\<rparr>"

definition hr_New :: "(string list \<Rightarrow> string list) \<Rightarrow> ('a hr_bucket_scheme list \<Rightarrow> 'a hr_bucket_scheme list) \<Rightarrow>
    'a hr_bucket_scheme list \<Rightarrow> ('a balancer \<Rightarrow> 'a balancer) list \<Rightarrow> 'a balancer option" where
  "hr_New kord ord buckets opts =
     Rebuild kord ord buckets
       (fold (\<lambda>f b. f b) opts \<lparr>bal_buckets = buckets, replicas = DefaultReplicas, hashring = None\<rparr>)"

text \<open>\<open>Some (Inr None)\<close> is the nil bucket.\<close>

fun select_loop :: "('a hr_bucket_ext) consistent \<Rightarrow> string \<Rightarrow> nat \<Rightarrow> nat \<Rightarrow>
    (hr_err + 'a hr_bucket_scheme option) option" where
  "select_loop r name i 0 = Some (Inr None)"
| "select_loop r name i (Suc k) =
     (case GetN r name (int i) of
        None \<Rightarrow> None
      | Some (Inl HrPanic) \<Rightarrow> Some (Inl HrPanic)
      | Some (Inl ErrEmptyCircle) \<Rightarrow> Some (Inr None)
      | Some (Inr groups) \<Rightarrow>
          if length groups < i then Some (Inl HrPanic)
          else
            (let bucket = groups ! (i - 1) in
             if UseAllow bucket \<and> \<not> HasBad bucket then Some (Inr (Some bucket))
             else select_loop r name (i + 1) k))"

definition Select :: "'a balancer \<Rightarrow> string \<Rightarrow> (hr_err + 'a hr_bucket_scheme option) option" where
  "Select b name =
     (case hashring b of
        None \<Rightarrow> if bal_buckets b = [] then Some (Inr None) else Some (Inl HrPanic)
      | Some r \<Rightarrow> select_loop r name 1 (length (bal_buckets b)))"

subsection \<open>The circle\<close>

definition map_order :: "('x list \<Rightarrow> 'x list) \<Rightarrow> bool" where
  "map_order ord \<longleftrightarrow> (\<forall>xs. mset (ord xs) = mset xs)"

definition ring_ok :: "'a consistent \<Rightarrow> bool" where
  "ring_ok c \<longleftrightarrow> sortedHashes c = sort (map fst (circles c)) \<and> distinct (map fst (circles c))"

definition hashes :: "'a consistent \<Rightarrow> 32 word set" where
  "hashes c = fst ` set (circles c)"

text \<open>The first point clockwise after a position.\<close>

definition successor :: "32 word set \<Rightarrow> 32 word \<Rightarrow> 32 word" where
  "successor H k = (if \<exists>h\<in>H. k < h then Min {h \<in> H. k < h} else Min H)"

lemma successor_cases:
  assumes "finite H" "H \<noteq> {}"
  shows "successor H k \<in> H"
    "k < successor H k \<Longrightarrow> h \<in> H \<Longrightarrow> k < h \<Longrightarrow> successor H k \<le> h"
    "\<not> k < successor H k \<Longrightarrow> h \<in> H \<Longrightarrow> successor H k \<le> h \<and> \<not> k < h"
proof -
  have f: "finite {h \<in> H. k < h}" using assms(1) by simp
  show "successor H k \<in> H"
    using assms Min_in [OF f] Min_in [OF assms] by (auto simp: successor_def)
  show "k < successor H k \<Longrightarrow> h \<in> H \<Longrightarrow> k < h \<Longrightarrow> successor H k \<le> h"
    using f by (auto simp: successor_def intro: Min_le)
  assume n: "\<not> k < successor H k" and h: "h \<in> H"
  have "\<not> (\<exists>h\<in>H. k < h)"
  proof
    assume e: "\<exists>h\<in>H. k < h"
    then have "Min {h \<in> H. k < h} \<in> {h \<in> H. k < h}" by (intro Min_in f) auto
    with e n show False by (simp add: successor_def)
  qed
  then show "successor H k \<le> h \<and> \<not> k < h" using h assms(1) by (auto simp: successor_def)
qed

lemma successor_eqI:
  assumes "finite H" "s \<in> H"
    "k < s \<Longrightarrow> (\<And>h. h \<in> H \<Longrightarrow> k < h \<Longrightarrow> s \<le> h)" "\<not> k < s \<Longrightarrow> (\<And>h. h \<in> H \<Longrightarrow> s \<le> h \<and> \<not> k < h)"
  shows "successor H k = s"
proof (cases "k < s")
  case True
  then have "Min {h \<in> H. k < h} = s" using assms by (intro Min_eqI) auto
  then show ?thesis using True assms(2) by (auto simp: successor_def)
next
  case False
  then have "Min H = s" using assms by (intro Min_eqI) auto
  then show ?thesis using False assms(4) by (auto simp: successor_def)
qed

lemma ring_ok_hashes:
  assumes "ring_ok c"
  shows "sorted (sortedHashes c)" "distinct (sortedHashes c)" "set (sortedHashes c) = hashes c"
    "sortedHashes c = [] \<longleftrightarrow> circles c = []"
  using assms by (simp_all add: ring_ok_def hashes_def flip: length_0_conv)

lemma hr_search_successor:
  assumes ok: "ring_ok c" and ne: "circles c \<noteq> []"
  shows "hr_search c key < length (sortedHashes c)"
    "sortedHashes c ! hr_search c key = successor (hashes c) key"
proof -
  let ?hs = "sortedHashes c" let ?N = "length ?hs" let ?f = "\<lambda>x. ?hs ! x > key"
  let ?i = "sort_Search ?N ?f"
  note hs = ring_ok_hashes [OF ok]
  have N: "0 < ?N" using hs(4) ne by simp
  then show lt: "hr_search c key < ?N" by (auto simp: hr_search_def Let_def)
  have mono: "?f j" if "i \<le> j" "j < ?N" "?f i" for i j
    using that sorted_nth_mono [OF hs(1) that(1,2)] by simp
  have fin: "finite (hashes c)" by (simp add: hashes_def)
  have nth: "h \<in> hashes c \<longleftrightarrow> (\<exists>j<?N. ?hs ! j = h)" for h
    unfolding hs(3) [symmetric] in_set_conv_nth by blast
  show "?hs ! hr_search c key = successor (hashes c) key"
  proof (rule successor_eqI [symmetric, OF fin])
    show "?hs ! hr_search c key \<in> hashes c" using lt nth by blast
  next
    fix h assume k: "key < ?hs ! hr_search c key" and h: "h \<in> hashes c" "key < h"
    from h obtain j where j: "j < ?N" "?hs ! j = h" using nth by blast
    have "hr_search c key \<le> j"
    proof (rule ccontr)
      assume "\<not> hr_search c key \<le> j"
      then have "j < ?i" using k by (auto simp: hr_search_def Let_def split: if_splits)
      then have "\<not> ?f j" using sort_Search_least [of ?N ?f j] mono by blast
      then show False using j h by simp
    qed
    then show "?hs ! hr_search c key \<le> h" using sorted_nth_mono [OF hs(1) _ j(1)] j(2) by blast
  next
    fix h assume k: "\<not> key < ?hs ! hr_search c key" and h: "h \<in> hashes c"
    have "?i = ?N"
    proof (rule ccontr)
      assume "?i \<noteq> ?N"
      then have "?i < ?N" using sort_Search_le [of ?N ?f] by simp
      then show False using k sort_Search_hit [of ?N ?f] by (simp add: hr_search_def Let_def)
    qed
    then have z: "hr_search c key = 0" by (simp add: hr_search_def Let_def)
    from h obtain j where j: "j < ?N" "?hs ! j = h" using nth by blast
    then have "\<not> ?f j" using sort_Search_least [of ?N ?f j] mono \<open>?i = ?N\<close> by simp
    then show "?hs ! hr_search c key \<le> h \<and> \<not> key < h"
      using sorted_nth_mono [OF hs(1) _ j(1), of 0] j(2) z by simp
  qed
qed

lemma map_of_hashes: "h \<in> hashes c \<Longrightarrow> \<exists>n. map_of (circles c) h = Some n"
  using map_of_eq_None_iff [of "circles c" h] by (cases "map_of (circles c) h") (simp_all add: hashes_def)

lemma hr_Get_eq:
  assumes "ring_ok c" "circles c \<noteq> []"
  shows "\<exists>n. hr_Get c name = Inr n \<and> map_of (circles c) (successor (hashes c) (hashKey c name)) = Some n"
proof -
  have "hashes c \<noteq> {}" using assms(2) by (simp add: hashes_def)
  then have "successor (hashes c) (hashKey c name) \<in> hashes c"
    by (intro successor_cases) (simp_all add: hashes_def)
  then show ?thesis
    using map_of_hashes assms(2) hr_search_successor [OF assms]
    by (fastforce simp: hr_Get_def node_of_def)
qed

lemma map_of_fold_points: "map_of (fold (\<lambda>h m. AList.update h n m) hs al) h = (if h \<in> set hs then Some n else map_of al h)"
  by (induction hs arbitrary: al) (auto simp: update_conv')

lemma keys_fold_update:
  "fst ` set (fold (\<lambda>h m. AList.update h n m) hs al) = set hs \<union> fst ` set al"
  by (induction hs arbitrary: al) (auto simp: dom_update)

lemma distinct_fold_update:
  "distinct (map fst al) \<Longrightarrow> distinct (map fst (fold (\<lambda>h m. AList.update h n m) hs al))"
  by (induction hs arbitrary: al) (auto simp: distinct_update)

lemma hr_add_circles:
  assumes "hr_add v w c = Some c'"
  shows "map_of (circles c') h = (if h \<in> set (points c (ID v) w) then Some v else map_of (circles c) h)"
    "hashes c' = set (points c (ID v) w) \<union> hashes c"
    "ring_ok c \<Longrightarrow> ring_ok c'"
    "NumberOfReplicas c' = NumberOfReplicas c" "UseFnv c' = UseFnv c"
    "set (members c') = insert (ID v) (set (members c))" "hr_count c' = i64 (hr_count c + 1)"
proof -
  have c': "c' = c\<lparr>circles := fold (\<lambda>h m. AList.update h v m) (points c (ID v) w) (circles c),
      members := List.insert (ID v) (members c),
      sortedHashes := sort (map fst (fold (\<lambda>h m. AList.update h v m) (points c (ID v) w) (circles c))),
      hr_count := i64 (hr_count c + 1)\<rparr>"
    using assms by (simp add: hr_add_def updateSortedHashes_def Let_def split: if_splits)
  show "map_of (circles c') h = (if h \<in> set (points c (ID v) w) then Some v else map_of (circles c) h)"
    "hashes c' = set (points c (ID v) w) \<union> hashes c"
    "ring_ok c \<Longrightarrow> ring_ok c'"
    "NumberOfReplicas c' = NumberOfReplicas c" "UseFnv c' = UseFnv c"
    "set (members c') = insert (ID v) (set (members c))" "hr_count c' = i64 (hr_count c + 1)"
    by (simp_all add: c' map_of_fold_points hashes_def keys_fold_update ring_ok_def distinct_fold_update)
qed

lemma hr_add_returns: "i64 (NumberOfReplicas c * 4) \<noteq> 0 \<Longrightarrow> hr_add v w c \<noteq> None"
  by (simp add: hr_add_def updateSortedHashes_def Let_def)

lemma hashKey_cong: "UseFnv c' = UseFnv c \<Longrightarrow> hashKey c' = hashKey c"
  by (simp add: hashKey_def fun_eq_iff)

lemma points_cong:
  "NumberOfReplicas c' = NumberOfReplicas c \<Longrightarrow> UseFnv c' = UseFnv c \<Longrightarrow> points c' = points c"
  by (simp add: points_def hashKey_cong [of c' c] fun_eq_iff)

text \<open>C28: Consistent hashing moves little: when a node is added to a circle, every name is afterwards
  served either by the new node or by the node that served it before, also when points collide.
\<close>
theorem hr_add_disruption:
  assumes ok: "ring_ok c" "circles c \<noteq> []" and add: "hr_add v w c = Some c'"
  shows "hr_Get c' name = Inr v \<or> hr_Get c' name = hr_Get c name"
proof -
  let ?k = "hashKey c name" and ?P = "set (points c (ID v) w)"
  note a = hr_add_circles [OF add]
  have H: "finite (hashes c)" "hashes c \<noteq> {}" using ok(2) by (auto simp: hashes_def)
  have "hashes c' \<noteq> {}" using a(2) H by auto
  then have ne': "circles c' \<noteq> []" by (auto simp: hashes_def)
  have H': "finite (hashes c')" "hashes c' \<noteq> {}" using a(2) H by auto
  let ?s = "successor (hashes c') ?k"
  obtain n' where n': "hr_Get c' name = Inr n'" "map_of (circles c') ?s = Some n'"
    using hr_Get_eq [OF a(3) [OF ok(1)] ne', of name] hashKey_cong [OF a(5)] by auto
  obtain n where n: "hr_Get c name = Inr n" "map_of (circles c) (successor (hashes c) ?k) = Some n"
    using hr_Get_eq [OF ok, of name] by auto
  show ?thesis
  proof (cases "?s \<in> ?P")
    case True
    then show ?thesis using n' a(1) by simp
  next
    case False
    then have "?s \<in> hashes c" using successor_cases(1) [OF H', of ?k] a(2) by simp
    then have "successor (hashes c) ?k = ?s"
      using successor_cases(2,3) [OF H', of ?k] a(2) by (intro successor_eqI H) auto
    then show ?thesis using n n' a(1) False by simp
  qed
qed

definition one_node :: hr_node where
  "one_node = \<lparr>ID = ''a'', Weight = 1\<rparr>"

definition one_ring :: "unit consistent" where
  "one_ring = \<lparr>circles = [(fnv32a ''0|0|a'', one_node)], members = [''a''],
     sortedHashes = [fnv32a ''0|0|a''], NumberOfReplicas = 1, hr_count = 1, UseFnv = True\<rparr>"

lemma hr_add_disruption_witness:
  "let b = \<lparr>ID = ''b'', Weight = 1\<rparr> in
   \<exists>c'. hr_add b 1 one_ring = Some c' \<and> (hr_Get c' ''x'' = Inr b \<or> hr_Get c' ''x'' = Inr one_node)"
proof -
  let ?b = "\<lparr>ID = ''b'', Weight = 1\<rparr>"
  have ok: "ring_ok one_ring" "circles one_ring \<noteq> []" by (simp_all add: ring_ok_def one_ring_def)
  have "hr_add ?b 1 one_ring \<noteq> None"
    by (rule hr_add_returns) (simp add: one_ring_def i64_def)
  then obtain c' where c': "hr_add ?b 1 one_ring = Some c'" by blast
  moreover have "hr_Get one_ring ''x'' = Inr one_node"
    using hr_Get_eq [OF ok, of "''x''"] by (auto simp: one_ring_def split: if_splits)
  ultimately show ?thesis using hr_add_disruption [OF ok c', of "''x''"] by (auto simp: Let_def)
qed

lemma set_alist_update: "x \<in> set (AList.update k v al) \<Longrightarrow> x = (k, v) \<or> x \<in> set al"
  by (induction al) (auto split: if_splits)

definition by_id :: "(string \<times> 'a hr_node_scheme) list \<Rightarrow> bool" where
  "by_id al \<longleftrightarrow> distinct (map fst al) \<and> (\<forall>x\<in>set al. fst x = ID (snd x))"

lemma by_id_update: "by_id al \<Longrightarrow> by_id (AList.update (ID n) n al)"
  by (auto simp: by_id_def distinct_update dest!: set_alist_update)

lemma by_id_ids: "by_id al \<Longrightarrow> map ID (map snd al) = map fst al"
  by (simp add: by_id_def)

lemma elts_of_props:
  "set (map snd (elts_of caches)) \<subseteq> set caches" "by_id (elts_of caches)"
  "fst ` set (elts_of caches) = ID ` set caches"
proof -
  have gen: "snd ` set (fold (\<lambda>n m. AList.update (ID n) n m) cs al) \<subseteq> set cs \<union> snd ` set al \<and>
      by_id (fold (\<lambda>n m. AList.update (ID n) n m) cs al) \<and>
      fst ` set (fold (\<lambda>n m. AList.update (ID n) n m) cs al) = ID ` set cs \<union> fst ` set al"
    if "by_id al" for cs and al :: "(string \<times> 'a hr_node_scheme) list"
    using that
  proof (induction cs arbitrary: al)
    case (Cons x cs)
    have "snd ` set (AList.update (ID x) x al) \<subseteq> insert x (snd ` set al)"
      using set_alist_update [of _ "ID x" x al] by force
    moreover note IH = Cons.IH [OF by_id_update [OF Cons.prems], of x]
    ultimately have "snd ` set (fold (\<lambda>n m. AList.update (ID n) n m) (x # cs) al) \<subseteq> set (x # cs) \<union> snd ` set al"
      by simp blast
    with IH show ?case by (simp add: dom_update)
  qed simp
  have "by_id []" by (simp add: by_id_def)
  from gen [OF this, of caches] have "snd ` set (elts_of caches) \<subseteq> set caches \<and> by_id (elts_of caches) \<and>
      fst ` set (elts_of caches) = ID ` set caches"
    unfolding elts_of_def by simp
  then show "set (map snd (elts_of caches)) \<subseteq> set caches" "by_id (elts_of caches)"
    "fst ` set (elts_of caches) = ID ` set caches"
    by simp_all
qed

definition owned :: "'a hr_node_scheme set \<Rightarrow> 'a consistent \<Rightarrow> bool" where
  "owned S c \<longleftrightarrow> (\<forall>h n. map_of (circles c) h = Some n \<longrightarrow> n \<in> S \<and> h \<in> set (points c (ID n) (Weight n)))"

lemma set_adds_circle:
  assumes "set_adds vs c = Some c'" "ring_ok c" "owned S c" "distinct (map ID vs)"
    "set (members c) \<inter> ID ` set vs = {}"
  shows "ring_ok c' \<and> owned (S \<union> set vs) c' \<and> NumberOfReplicas c' = NumberOfReplicas c \<and> UseFnv c' = UseFnv c \<and>
    hashes c' = (\<Union>v\<in>set vs. set (points c (ID v) (Weight v))) \<union> hashes c \<and>
    set (members c') = ID ` set vs \<union> set (members c) \<and>
    (0 \<le> hr_count c \<and> hr_count c + int (length vs) \<le> max_i64 \<longrightarrow> hr_count c' = hr_count c + int (length vs))"
  using assms
proof (induction vs arbitrary: c S)
  case Nil
  then show ?case by simp
next
  case (Cons v vs)
  then obtain c1 where c1: "hr_add v (Weight v) c = Some c1" "set_adds vs c1 = Some c'"
    by (auto simp: bind_eq_Some_conv split: if_splits)
  note a = hr_add_circles [OF c1(1)]
  have pts: "points c1 = points c" using points_cong [OF a(4,5)] .
  have "owned (insert v S) c1"
    using Cons.prems(3) a(1) unfolding owned_def pts by (auto split: if_splits)
  moreover have "set (members c1) \<inter> ID ` set vs = {}" using a(6) Cons.prems(4,5) by auto
  ultimately have IH: "ring_ok c' \<and> owned (insert v S \<union> set vs) c' \<and> NumberOfReplicas c' = NumberOfReplicas c1 \<and>
      UseFnv c' = UseFnv c1 \<and> hashes c' = (\<Union>v\<in>set vs. set (points c1 (ID v) (Weight v))) \<union> hashes c1 \<and>
      set (members c') = ID ` set vs \<union> set (members c1) \<and>
      (0 \<le> hr_count c1 \<and> hr_count c1 + int (length vs) \<le> max_i64 \<longrightarrow> hr_count c' = hr_count c1 + int (length vs))"
    using Cons.IH [OF c1(2) a(3) [OF Cons.prems(2)], of "insert v S"] Cons.prems(4) by simp
  have "hr_count c1 = hr_count c + 1" if "0 \<le> hr_count c" "hr_count c + int (length (v # vs)) \<le> max_i64"
    using a(7) that by (simp add: i64_id is_i64_def)
  with IH show ?case using a pts by (auto simp: Un_assoc)
qed

lemma NewConsistent_circle:
  assumes ord: "map_order kord" "map_order ord" and new: "NewConsistent kord ord caches reps = Some c"
  shows "ring_ok c \<and> owned (set caches) c \<and> NumberOfReplicas c = reps \<and> UseFnv c \<and>
    hashes c = (\<Union>v\<in>snd ` set (elts_of caches). set (points c (ID v) (Weight v))) \<and>
    set (members c) = ID ` set caches \<and>
    (int (length (elts_of caches)) \<le> max_i64 \<longrightarrow> hr_count c = int (length (elts_of caches)))"
proof -
  let ?c0 = "\<lparr>circles = [], members = [], sortedHashes = [], NumberOfReplicas = reps, hr_count = 0,
        UseFnv = True\<rparr> :: 'a consistent"
  let ?vs = "ord (map snd (elts_of caches))"
  have k: "kord [] = []" using ord(1) by (metis map_order_def mset_zero_iff)
  have m: "mset ?vs = mset (map snd (elts_of caches))" using ord(2) by (simp add: map_order_def)
  have vs: "set ?vs = snd ` set (elts_of caches)" "length ?vs = length (elts_of caches)"
    using m by (metis list.set_map set_mset_mset, metis length_map size_mset)
  have "distinct (map fst (elts_of caches))" using elts_of_props(2) [of caches] by (simp add: by_id_def)
  then have "distinct (map ID (map snd (elts_of caches)))" by (simp only: by_id_ids [OF elts_of_props(2)])
  then have d: "distinct (map ID ?vs)"
    using m by (metis mset_map mset_eq_imp_distinct_iff)
  have adds: "set_adds ?vs ?c0 = Some c" using new by (simp add: NewConsistent_def hr_Set_def k Let_def)
  have "ring_ok ?c0" "owned {} ?c0" "hashes ?c0 = {}" by (simp_all add: ring_ok_def owned_def hashes_def)
  note r = set_adds_circle [OF adds this(1,2) d]
  have "points c = points ?c0" using r by (intro points_cong) simp_all
  moreover have "ID ` set ?vs = ID ` set caches"
    using elts_of_props(3) [of caches] vs(1) by_id_ids [OF elts_of_props(2), of caches]
    by (metis list.set_map)
  moreover have "set ?vs \<subseteq> set caches" using elts_of_props(1) [of caches] vs(1) by simp
  ultimately show ?thesis
    using r vs \<open>hashes ?c0 = {}\<close> by (auto simp: owned_def)
qed

text \<open>C27: On a circle built from a list of nodes, whatever order the maps are visited in, \<^verbatim>\<open>Get\<close> returns
  the node of the first point clockwise after the hash of the name (the first of all when there is
  none after it); the points of the circle are exactly those of the nodes, and the node returned
  is one of the given ones and owns the point.
\<close>
theorem hr_Get_clockwise:
  assumes "map_order kord" "map_order ord" "NewConsistent kord ord caches reps = Some c"
    "circles c \<noteq> []"
  shows "\<exists>n. hr_Get c name = Inr n \<and> n \<in> set caches \<and>
           map_of (circles c) (successor (hashes c) (hashKey c name)) = Some n \<and>
           successor (hashes c) (hashKey c name) \<in> set (points c (ID n) (Weight n)) \<and>
           hashes c = (\<Union>v\<in>snd ` set (elts_of caches). set (points c (ID v) (Weight v)))"
proof -
  note nc = NewConsistent_circle [OF assms(1-3)]
  then obtain n where "hr_Get c name = Inr n" "map_of (circles c) (successor (hashes c) (hashKey c name)) = Some n"
    using hr_Get_eq [OF _ assms(4), of name] by blast
  with nc show ?thesis unfolding owned_def by blast
qed

lemma hr_Get_clockwise_witness:
  "\<exists>c. NewConsistent (\<lambda>x. x) (\<lambda>x. x) [one_node] 1 = Some c \<and> hr_Get c ''x'' = Inr one_node"
proof -
  have "\<exists>c. NewConsistent (\<lambda>x. x) (\<lambda>x. x) [one_node] 1 = Some c \<and> circles c \<noteq> []"
    by (simp add: NewConsistent_def hr_Set_def elts_of_def one_node_def hr_add_def updateSortedHashes_def
        i64_def Let_def points_def)
  then obtain c where c: "NewConsistent (\<lambda>x. x) (\<lambda>x. x) [one_node] 1 = Some c" "circles c \<noteq> []" by blast
  then show ?thesis
    using hr_Get_clockwise [OF _ _ c, of "''x''"] by (auto simp: map_order_def)
qed

subsection \<open>Walking the circle\<close>

text \<open>The nodes of all points, clockwise from the point of a name, and the first of each identity.\<close>

definition walk :: "'a consistent \<Rightarrow> string \<Rightarrow> 'a hr_node_scheme list" where
  "walk c name =
     map (\<lambda>h. the (map_of (circles c) h)) (rotate (hr_search c (hashKey c name)) (sortedHashes c))"

definition push_new :: "'a hr_node_scheme \<Rightarrow> 'a hr_node_scheme list \<Rightarrow> 'a hr_node_scheme list" where
  "push_new e res = (if sliceContainsMember res e then res else res @ [e])"

definition firsts :: "'a hr_node_scheme list \<Rightarrow> 'a hr_node_scheme list" where
  "firsts ns = fold push_new ns []"

lemma firsts_snoc: "firsts (ns @ [e]) = push_new e (firsts ns)"
  by (simp add: firsts_def)

lemma contains_ids: "sliceContainsMember ns e \<longleftrightarrow> ID e \<in> ID ` set ns"
  unfolding sliceContainsMember_def image_iff by metis

lemma firsts_ids: "ID ` set (firsts ns) = ID ` set ns" "distinct (map ID (firsts ns))"
proof -
  have "ID ` set (firsts ns) = ID ` set ns \<and> distinct (map ID (firsts ns))"
  proof (induction ns rule: rev_induct)
    case Nil
    then show ?case by (simp add: firsts_def)
  next
    case (snoc n ns)
    then show ?case by (cases "ID n \<in> ID ` set ns") (auto simp: firsts_snoc push_new_def contains_ids)
  qed
  then show "ID ` set (firsts ns) = ID ` set ns" "distinct (map ID (firsts ns))" by simp_all
qed

lemma length_firsts: "length (firsts ns) = card (ID ` set ns)"
  using firsts_ids [of ns] by (metis distinct_card length_map list.set_map)

lemma firsts_append: "\<exists>ys. firsts (ns @ ms) = firsts ns @ ys"
proof (induction ms rule: rev_induct)
  case (snoc m ms)
  then show ?case
    using firsts_snoc [of "ns @ ms" m] by (auto simp: push_new_def)
qed simp

lemma firsts_take_length:
  assumes "length (firsts (take k ns)) = n"
  shows "firsts (take k ns) = take n (firsts ns)"
  using firsts_append [of "take k ns" "drop k ns"] assms by auto

lemma length_firsts_Suc: "k < length ns \<Longrightarrow> firsts (take (Suc k) ns) = push_new (ns ! k) (firsts (take k ns))"
  by (simp add: take_Suc_conv_app_nth firsts_snoc)

lemma firsts_subset: "set (firsts ns) \<subseteq> set ns"
  by (induction ns rule: rev_induct) (auto simp: firsts_snoc push_new_def firsts_def)

lemma node_of_ring:
  assumes "ring_ok c" "i < length (sortedHashes c)"
  shows "node_of c i = Some (the (map_of (circles c) (sortedHashes c ! i)))"
  using assms map_of_hashes [of "sortedHashes c ! i" c] ring_ok_hashes(3) [OF assms(1)]
  by (fastforce simp: node_of_def)

lemma walk_nth:
  assumes "ring_ok c" "k < length (sortedHashes c)"
  shows "node_of c ((hr_search c (hashKey c name) + k) mod length (sortedHashes c)) = Some (walk c name ! k)"
proof -
  let ?i = "(hr_search c (hashKey c name) + k) mod length (sortedHashes c)"
  have "?i < length (sortedHashes c)" using assms(2) by (intro mod_less_divisor) linarith
  then show ?thesis
    using node_of_ring [OF assms(1)] assms(2) by (simp add: walk_def nth_rotate)
qed

lemma length_walk [simp]: "length (walk c name) = length (sortedHashes c)"
  by (simp add: walk_def)

text \<open>The index of the loop before its wrap, when \<open>k\<close> nodes have been seen.\<close>

definition loop_var :: "nat \<Rightarrow> nat \<Rightarrow> nat \<Rightarrow> nat" where
  "loop_var N start k = (start + k - 1) mod N + 1"

lemma loop_var_props:
  assumes "start < N" "1 \<le> k" "k < N"
  shows "loop_var N start k \<noteq> start"
    "(if N \<le> loop_var N start k then 0 else loop_var N start k) = (start + k) mod N"
    "(start + k) mod N + 1 = loop_var N start (Suc k)"
proof -
  show "loop_var N start k \<noteq> start"
    using assms by (cases "start + k - 1 < N") (auto simp: loop_var_def mod_if)
  show "(if N \<le> loop_var N start k then 0 else loop_var N start k) = (start + k) mod N"
    using assms by (cases "start + k - 1 < N"; cases "start + k < N") (auto simp: loop_var_def mod_if)
  show "(start + k) mod N + 1 = loop_var N start (Suc k)"
    by (simp add: loop_var_def)
qed

lemma getN_loop_step:
  assumes "ring_ok c" "hr_search c (hashKey c name) < length (sortedHashes c)" "1 \<le> k" "k < length (sortedHashes c)"
  shows "getN_loop c n (hr_search c (hashKey c name)) (loop_var (length (sortedHashes c)) (hr_search c (hashKey c name)) k)
      (firsts (take k (walk c name))) =
    (if int (length (firsts (take (Suc k) (walk c name)))) = n then Some (Inr (firsts (take (Suc k) (walk c name))))
     else getN_loop c n (hr_search c (hashKey c name))
       (loop_var (length (sortedHashes c)) (hr_search c (hashKey c name)) (Suc k)) (firsts (take (Suc k) (walk c name))))"
  using loop_var_props [OF assms(2-4)] walk_nth [OF assms(1,4), of name] length_firsts_Suc [of k "walk c name"] assms(4)
  by (subst getN_loop.simps) (simp add: push_new_def Let_def)

lemma getN_loop_finds:
  assumes ok: "ring_ok c" "hr_search c (hashKey c name) < length (sortedHashes c)"
    and "1 \<le> k" "k \<le> length (sortedHashes c)"
    and "length (firsts (take k (walk c name))) < n" "n \<le> length (firsts (walk c name))"
  shows "getN_loop c (int n) (hr_search c (hashKey c name))
      (loop_var (length (sortedHashes c)) (hr_search c (hashKey c name)) k) (firsts (take k (walk c name))) =
    Some (Inr (take n (firsts (walk c name))))"
  using assms(3-6)
proof (induction "length (sortedHashes c) - k" arbitrary: k)
  case 0
  then show ?case by simp
next
  case (Suc d)
  let ?r = "firsts (take (Suc k) (walk c name))"
  have k: "k < length (sortedHashes c)" using Suc.hyps(2) by simp
  show ?case
  proof (cases "length ?r = n")
    case True
    then show ?thesis
      using getN_loop_step [OF ok Suc.prems(1) k, of "int n"] firsts_take_length [OF True] by simp
  next
    case False
    have "length ?r \<le> Suc (length (firsts (take k (walk c name))))"
      using k by (simp add: length_firsts_Suc push_new_def)
    then have "length ?r < n" using False Suc.prems(3) by simp
    then show ?thesis
      using getN_loop_step [OF ok Suc.prems(1) k, of "int n"] False Suc.hyps k Suc.prems(4) by simp
  qed
qed

lemma GetN_closest_lemma:
  assumes ok: "ring_ok c" "circles c \<noteq> []" and n: "1 \<le> n" "int n \<le> hr_count c" "n \<le> length (firsts (walk c name))"
  shows "GetN c name (int n) = Some (Inr (take n (firsts (walk c name))))"
proof -
  let ?N = "length (sortedHashes c)" and ?s = "hr_search c (hashKey c name)" and ?w = "walk c name"
  have s: "?s < ?N" using hr_search_successor(1) [OF ok] .
  have w0: "node_of c ?s = Some (?w ! 0)"
    using walk_nth [OF ok(1), of 0 name] s by fastforce
  have t1: "firsts (take 1 ?w) = [?w ! 0]"
    using s by (cases ?w) (auto simp: firsts_def push_new_def sliceContainsMember_def simp flip: length_walk [of c name])
  have lv: "loop_var ?N ?s 1 = ?s + 1" using s by (simp add: loop_var_def)
  show ?thesis
  proof (cases "n = 1")
    case True
    then have "take 1 (firsts ?w) = [?w ! 0]" using firsts_take_length [of 1 ?w 1] t1 by simp
    then show ?thesis using True ok(2) n(2) w0 by (simp add: GetN_def)
  next
    case False
    then have "getN_loop c (int n) ?s (?s + 1) [?w ! 0] = Some (Inr (take n (firsts ?w)))"
      using getN_loop_finds [OF ok(1) s, of 1 n] n lv t1 s by simp
    then show ?thesis using False ok(2) n w0 by (simp add: GetN_def)
  qed
qed

text \<open>C29: When the circle has points of at least \<open>n\<close> distinct nodes, the search for the \<open>n\<close> closest ones
  ends, and returns \<open>n\<close> nodes with distinct identities in the order in which they are met clockwise
  from the name, the first being the one that \<^verbatim>\<open>Get\<close> returns.
\<close>
theorem GetN_closest:
  assumes "ring_ok c" "circles c \<noteq> []" "1 \<le> n" "int n \<le> hr_count c" "n \<le> card (ID ` set (walk c name))"
  shows "\<exists>ns. GetN c name (int n) = Some (Inr ns) \<and> ns = take n (firsts (walk c name)) \<and>
           length ns = n \<and> distinct (map ID ns) \<and> hr_Get c name = Inr (hd ns)"
proof -
  let ?f = "firsts (walk c name)" and ?s = "hr_search c (hashKey c name)"
  have n: "n \<le> length ?f" using assms(5) by (simp add: length_firsts)
  have s: "?s < length (sortedHashes c)" using hr_search_successor(1) [OF assms(1,2)] .
  then obtain x xs where w: "walk c name = x # xs" by (cases "walk c name") (auto simp flip: length_walk [of c name])
  have "node_of c ?s = Some x" using walk_nth [OF assms(1), of 0 name] s w by fastforce
  then have get: "hr_Get c name = Inr x" using assms(2) by (simp add: hr_Get_def)
  have "firsts [x] = [x]" by (simp add: firsts_def push_new_def sliceContainsMember_def)
  then obtain ys where "?f = x # ys" using firsts_append [of "[x]" xs] w by auto
  then have "hd (take n ?f) = x" using assms(3) by (cases n) auto
  moreover have "distinct (map ID (take n ?f))" using firsts_ids(2) by (metis distinct_take take_map)
  ultimately show ?thesis
    using GetN_closest_lemma [OF assms(1-4) n] n get by simp
qed

lemma one_ring_ok: "ring_ok one_ring" "circles one_ring \<noteq> []" "hr_count one_ring = 1"
  by (simp_all add: ring_ok_def one_ring_def)

lemma GetN_closest_witness: "GetN one_ring ''x'' 1 = Some (Inr [one_node])"
proof -
  have "walk one_ring ''x'' = [one_node]" by (simp add: walk_def one_ring_def)
  then show ?thesis
    using GetN_closest [OF one_ring_ok(1,2), of 1 "''x''"] one_ring_ok(3)
    by (simp add: firsts_def push_new_def sliceContainsMember_def)
qed

lemma getN_loop_diverges:
  assumes "ring_ok c" "card (ID ` set (walk c name)) < n" and ne: "sortedHashes c \<noteq> []"
    and start: "1 \<le> i" and res: "distinct (map ID res)" "ID ` set res \<subseteq> ID ` set (walk c name)"
  shows "getN_loop c (int n) 0 i res = None"
proof -
  have node: "e \<in> set (walk c name)" if "node_of c j = Some e" for j e
  proof -
    have j: "j < length (sortedHashes c)" using that by (auto simp: node_of_def split: if_splits)
    then have "e = the (map_of (circles c) (sortedHashes c ! j))" using that node_of_ring [OF assms(1)] by simp
    then show ?thesis using j by (simp add: walk_def)
  qed
  have bound: "length res < n" if "distinct (map ID res)" "ID ` set res \<subseteq> ID ` set (walk c name)" for res
  proof -
    have "length res = card (ID ` set res)" using that(1) by (metis distinct_card length_map list.set_map)
    also have "\<dots> \<le> card (ID ` set (walk c name))" using that(2) by (intro card_mono) simp_all
    finally show ?thesis using assms(2) by simp
  qed
  have "\<not> (c' = c \<and> m = int n \<and> s = 0 \<and> 1 \<le> i' \<and> distinct (map ID r) \<and> ID ` set r \<subseteq> ID ` set (walk c name))"
    if "getN_loop c' m s i' r = Some y" for c' m s i' r y
    using _ that
  proof (rule getN_loop.raw_induct)
    fix F c' m s i' r y
    assume IH: "\<And>c' m s i' r y. F c' m s i' r = Some y \<Longrightarrow>
        \<not> (c' = c \<and> m = int n \<and> s = 0 \<and> 1 \<le> i' \<and> distinct (map ID r) \<and> ID ` set r \<subseteq> ID ` set (walk c name))"
      and F: "(if i' = s then Some (Inr r)
        else let i = if length (sortedHashes c') \<le> i' then 0 else i'
          in case node_of c' i of None \<Rightarrow> Some (Inl HrPanic)
             | Some elem \<Rightarrow> let res = if sliceContainsMember r elem then r else r @ [elem]
                 in if int (length res) = m then Some (Inr res) else F c' m s (i + 1) res) = Some y"
    show "\<not> (c' = c \<and> m = int n \<and> s = 0 \<and> 1 \<le> i' \<and> distinct (map ID r) \<and> ID ` set r \<subseteq> ID ` set (walk c name))"
    proof
      assume h: "c' = c \<and> m = int n \<and> s = 0 \<and> 1 \<le> i' \<and> distinct (map ID r) \<and> ID ` set r \<subseteq> ID ` set (walk c name)"
      define j where "j = (if length (sortedHashes c) \<le> i' then 0 else i')"
      have "j < length (sortedHashes c)" using ne by (auto simp: j_def)
      then obtain e where e: "node_of c j = Some e" using node_of_ring [OF assms(1)] by blast
      let ?r = "push_new e r"
      have r: "distinct (map ID ?r)" "ID ` set ?r \<subseteq> ID ` set (walk c name)"
        using h node [OF e] by (auto simp: push_new_def contains_ids)
      then have "int (length ?r) \<noteq> int n" using bound [of ?r] by simp
      then have "F c (int n) 0 (j + 1) ?r = Some y"
        using F h e by (simp add: Let_def push_new_def flip: j_def)
      then show False using IH [of c "int n" 0 "j + 1" ?r y] r by simp
    qed
  qed
  then show ?thesis using start res by (cases "getN_loop c (int n) 0 i res") blast+
qed

text \<open>C30: The loop of \<^verbatim>\<open>GetN\<close> never ends when the name falls on the first point of the circle and fewer
  than the \<open>n\<close> registered nodes have a point: its index is reset to zero inside the body and then
  incremented, so the comparison with the start never succeeds.
\<close>
theorem GetN_diverges:
  assumes "ring_ok c" "circles c \<noteq> []" "hr_search c (hashKey c name) = 0"
    "int n \<le> hr_count c" "card (ID ` set (walk c name)) < n"
  shows "GetN c name (int n) = None"
proof -
  have hs: "sortedHashes c \<noteq> []" using ring_ok_hashes(4) [OF assms(1)] assms(2) by simp
  then have len: "0 < length (sortedHashes c)" by simp
  then obtain e where e: "node_of c 0 = Some e" using node_of_ring [OF assms(1) len] by blast
  have ne: "walk c name \<noteq> []" using len length_walk [of c name] by (cases "walk c name") simp_all
  have "e = walk c name ! 0" using walk_nth [OF assms(1) len, of name] assms(3) e by simp
  with ne have "ID ` set [e] \<subseteq> ID ` set (walk c name)" by (cases "walk c name") simp_all
  then have loop: "getN_loop c (int n) 0 1 [e] = None"
    using getN_loop_diverges [OF assms(1,5) hs, of 1 "[e]"] by simp
  have "1 \<le> card (ID ` set (walk c name))" using ne by (simp add: Suc_le_eq card_gt_0_iff)
  then have "int n \<noteq> 1" using assms(5) by simp
  then show ?thesis using assms(2-4) e loop by (auto simp: GetN_def)
qed

lemma GetN_diverges_witness:
  "\<exists>c. hr_add \<lparr>ID = ''b'', Weight = 0\<rparr> 0 one_ring = Some c \<and> GetN c ''x'' 2 = None"
proof -
  let ?c = "one_ring\<lparr>members := [''b'', ''a''], hr_count := 2\<rparr>"
  have add: "hr_add \<lparr>ID = ''b'', Weight = 0\<rparr> 0 one_ring = Some ?c"
    by (simp add: hr_add_def points_def updateSortedHashes_def one_ring_def i64_def Let_def List.insert_def
        upto_rec1)
  have c: "ring_ok ?c" "circles ?c \<noteq> []" "hr_count ?c = 2" "walk ?c ''x'' = [one_node]" "length (sortedHashes ?c) = 1"
    by (simp_all add: ring_ok_def one_ring_def walk_def)
  then have "hr_search ?c (hashKey ?c ''x'') = 0" using hr_search_successor(1) [OF c(1,2)] by simp
  then show ?thesis
    using GetN_diverges [OF c(1,2), of "''x''" 2] c(3,4) add by auto
qed

lemma select_loop_finds:
  assumes ok: "ring_ok r" "circles r \<noteq> []" and k: "int (i + k) - 1 \<le> hr_count r"
    "i + k - 1 = length (firsts (walk r name))" "1 \<le> i"
  shows "select_loop r name i k =
    Some (Inr (List.find (\<lambda>b. UseAllow b \<and> \<not> HasBad b) (drop (i - 1) (firsts (walk r name)))))"
  using k
proof (induction k arbitrary: i)
  case (Suc k)
  let ?f = "firsts (walk r name)"
  have i: "i \<le> length ?f" "int i \<le> hr_count r" using Suc.prems by simp_all
  have g: "GetN r name (int i) = Some (Inr (take i ?f))"
    using GetN_closest_lemma [OF ok Suc.prems(3) i(2,1)] .
  have lt: "i - 1 < length ?f" using i Suc.prems(3) by linarith
  have d: "drop (i - 1) ?f = ?f ! (i - 1) # drop i ?f"
    using Cons_nth_drop_Suc [OF lt] Suc.prems(3) by simp
  have "select_loop r name i (Suc k) =
      (if UseAllow (?f ! (i - 1)) \<and> \<not> HasBad (?f ! (i - 1)) then Some (Inr (Some (?f ! (i - 1))))
       else select_loop r name (i + 1) k)"
    using i Suc.prems(3) by (simp add: g Let_def)
  then show ?case
    unfolding d using Suc.IH [of "i + 1"] Suc.prems by simp
qed simp

text \<open>C31: When every bucket has a point on the circle, \<^verbatim>\<open>Select\<close> ends and returns the first bucket,
  clockwise from the object's hash, that has room and is not bad, and nil when there is none.
\<close>
theorem Select_first_usable:
  assumes "hashring b = Some r" "ring_ok r" "circles r \<noteq> []"
    "int (length (bal_buckets b)) \<le> hr_count r" "card (ID ` set (walk r name)) = length (bal_buckets b)"
  shows "Select b name =
           Some (Inr (List.find (\<lambda>x. UseAllow x \<and> \<not> HasBad x) (firsts (walk r name))))"
  using select_loop_finds [OF assms(2,3), of 1 "length (bal_buckets b)" name] assms
  by (simp add: Select_def length_firsts)

definition one_bucket :: hr_bucket where
  "one_bucket = \<lparr>ID = ''a'', Weight = 1, UseAllow = True, HasBad = False\<rparr>"

lemma Select_first_usable_witness:
  "\<exists>b. hr_New (\<lambda>x. x) (\<lambda>x. x) [one_bucket] [WithReplicas 1] = Some b \<and> Select b ''x'' = Some (Inr (Some one_bucket))"
proof -
  have "\<exists>c. NewConsistent (\<lambda>x. x) (\<lambda>x. x) [one_bucket] 1 = Some c \<and> circles c \<noteq> [] \<and> hr_count c = 1"
    by (simp add: NewConsistent_def hr_Set_def elts_of_def one_bucket_def hr_add_def updateSortedHashes_def
        i64_def Let_def points_def)
  then obtain c where c: "NewConsistent (\<lambda>x. x) (\<lambda>x. x) [one_bucket] 1 = Some c" "circles c \<noteq> []" "hr_count c = 1"
    by blast
  have nc: "ring_ok c" "owned {one_bucket} c"
    using NewConsistent_circle [OF _ _ c(1)] by (auto simp: map_order_def)
  have "n = one_bucket" if n: "n \<in> set (walk c ''x'')" for n
  proof -
    obtain h where "h \<in> hashes c" "n = the (map_of (circles c) h)"
      using n ring_ok_hashes(3) [OF nc(1)] by (auto simp: walk_def)
    then show ?thesis using map_of_hashes nc(2) by (fastforce simp: owned_def)
  qed
  moreover have ne: "walk c ''x'' \<noteq> []"
    using ring_ok_hashes(4) [OF nc(1)] c(2) length_walk [of c "''x''"] by (cases "walk c ''x''") auto
  ultimately have set: "set (walk c ''x'') = {one_bucket}" by (cases "walk c ''x''") auto
  have new: "hr_New (\<lambda>x. x) (\<lambda>x. x) [one_bucket] [WithReplicas 1] =
      Some \<lparr>bal_buckets = [one_bucket], replicas = 1, hashring = Some c\<rparr>" (is "_ = Some ?b")
    using c(1) by (simp add: hr_New_def Rebuild_def WithReplicas_def)
  have "set (firsts (walk c ''x'')) = {one_bucket}" "length (firsts (walk c ''x'')) = 1"
    using firsts_subset [of "walk c ''x''"] firsts_ids(1) [of "walk c ''x''"] by (auto simp: set length_firsts)
  then have "firsts (walk c ''x'') = [one_bucket]" by (metis length_Suc_conv length_0_conv One_nat_def list.set_intros(1) singletonD)
  then show ?thesis
    using Select_first_usable [of ?b c "''x''"] new nc(1) c(2,3) set
    by (auto simp: one_bucket_def)
qed

end
