(* ===== verification/Heavy_Keeper.thy ===== *)
theory Heavy_Keeper
  imports Go_Std "HOL-Library.Word" "HOL-Library.Stream" "HOL-Library.Monad_Syntax"
begin

unbundle bit_operations_syntax

text \<open>
  \<^verbatim>\<open>pkg/algorithm/heavykeeper/heavykeeper.go\<close>: the sketch that estimates how often a key was added.
  The outcomes of the comparisons of a random number with a power of the decay are the stream
  \<open>coins\<close> of the state: every theorem holds for all of them.  Counters are \<^verbatim>\<open>uint32\<close> and wrap.
\<close>

record hk_bucket =
  fingerprint :: "64 word"
  hk_cnt :: "32 word"

record heavykeeper =
  hk_buckets :: "hk_bucket list list"
  depth :: int
  width :: int
  coins :: "bool stream"

definition hk_byte :: "char \<Rightarrow> 64 word" where
  "hk_byte c = word_of_nat (of_char c)"

text \<open>FNV-1a of 64 bits.\<close>

definition hk_hash :: "string \<Rightarrow> 64 word" where
  "hk_hash key = fold (\<lambda>c h. (h XOR hk_byte c) * 1099511628211) key 14695981039346656037"

definition hk_hash2 :: "string \<Rightarrow> 64 word" where
  "hk_hash2 key = fold (\<lambda>c h. (h * 16777619) XOR hk_byte c) key 2166136261 XOR 0x9e3779b97f4a7c15"

text \<open>\<open>None\<close> is the panic of a negative length.\<close>

definition hk_New :: "int \<Rightarrow> int \<Rightarrow> bool stream \<Rightarrow> heavykeeper option" where
  "hk_New d w cs =
     (if d < 0 \<or> (0 < d \<and> w < 0) then None
      else Some \<lparr>hk_buckets = replicate (nat d) (replicate (nat w) \<lparr>fingerprint = 0, hk_cnt = 0\<rparr>),
                 depth = d, width = w, coins = cs\<rparr>)"

text \<open>\<open>None\<close> is a division by zero or an index out of range.\<close>

definition hk_idx :: "heavykeeper \<Rightarrow> string \<Rightarrow> nat \<Rightarrow> nat option" where
  "hk_idx hk key i =
     (if word_of_int (width hk) = (0 :: 64 word) then None
      else
        (let j = unat ((hk_hash key + word_of_nat i * hk_hash2 key) mod word_of_int (width hk))
         in if i < length (hk_buckets hk) \<and> j < length (hk_buckets hk ! i) then Some j else None))"

definition bump :: "64 word \<Rightarrow> bool stream \<Rightarrow> hk_bucket \<Rightarrow> hk_bucket \<times> bool stream" where
  "bump fp cs b =
     (if hk_cnt b = 0 then (\<lparr>fingerprint = fp, hk_cnt = 1\<rparr>, cs)
      else if fingerprint b = fp then (b\<lparr>hk_cnt := hk_cnt b + 1\<rparr>, cs)
      else if shd cs then
        (if hk_cnt b - 1 = 0 then \<lparr>fingerprint = fp, hk_cnt = 1\<rparr> else b\<lparr>hk_cnt := hk_cnt b - 1\<rparr>, stl cs)
      else (b, stl cs))"

fun add_rows :: "string \<Rightarrow> nat list \<Rightarrow> heavykeeper \<Rightarrow> heavykeeper option" where
  "add_rows key [] hk = Some hk"
| "add_rows key (i # is) hk =
     do {
       j \<leftarrow> hk_idx hk key i;
       let (b, cs) = bump (hk_hash key) (coins hk) (hk_buckets hk ! i ! j);
       add_rows key is (hk\<lparr>hk_buckets := (hk_buckets hk)[i := (hk_buckets hk ! i)[j := b]], coins := cs\<rparr>)
     }"

definition hk_Add :: "string \<Rightarrow> heavykeeper \<Rightarrow> heavykeeper option" where
  "hk_Add key hk = add_rows key [0..<nat (depth hk)] hk"

fun query_rows :: "string \<Rightarrow> nat list \<Rightarrow> heavykeeper \<Rightarrow> 32 word \<Rightarrow> 32 word option" where
  "query_rows key [] hk mx = Some mx"
| "query_rows key (i # is) hk mx =
     do {
       j \<leftarrow> hk_idx hk key i;
       let b = hk_buckets hk ! i ! j;
       query_rows key is hk (if fingerprint b = hk_hash key \<and> hk_cnt b > mx then hk_cnt b else mx)
     }"

definition Query :: "string \<Rightarrow> heavykeeper \<Rightarrow> 32 word option" where
  "Query key hk = query_rows key [0..<nat (depth hk)] hk 0"

definition hk_Clear :: "heavykeeper \<Rightarrow> heavykeeper" where
  "hk_Clear hk = hk\<lparr>hk_buckets := map (map (\<lambda>b. b\<lparr>hk_cnt := 0, fingerprint := 0\<rparr>)) (hk_buckets hk)\<rparr>"

subsection \<open>The counters\<close>

text \<open>How often a fingerprint was added.\<close>

definition added :: "string list \<Rightarrow> 64 word \<Rightarrow> nat" where
  "added keys fp = length (filter (\<lambda>k. hk_hash k = fp) keys)"

definition hk_shape :: "heavykeeper \<Rightarrow> bool" where
  "hk_shape hk \<longleftrightarrow> 0 < width hk \<and> width hk \<le> max_i64 \<and> 0 \<le> depth hk \<and>
     length (hk_buckets hk) = nat (depth hk) \<and> (\<forall>row\<in>set (hk_buckets hk). length row = nat (width hk))"

definition hk_sound :: "(64 word \<Rightarrow> nat) \<Rightarrow> hk_bucket \<Rightarrow> bool" where
  "hk_sound n b \<longleftrightarrow> unat (hk_cnt b) \<le> n (fingerprint b)"

lemma unat_inc: "unat (x + 1) \<le> unat x + 1" for x :: "'a::len word"
  by (simp add: unat_word_ariths)

lemma unat_dec: "x \<noteq> 0 \<Longrightarrow> unat (x - 1) = unat x - 1" for x :: "'a::len word"
  by (simp add: unat_sub word_le_nat_alt Suc_leI unat_gt_0)

lemma hk_idx_shape:
  assumes "hk_shape hk" "i < nat (depth hk)"
  shows "\<exists>j. hk_idx hk key i = Some j \<and> j < nat (width hk)"
proof -
  let ?w = "word_of_int (width hk) :: 64 word"
  have w: "uint ?w = width hk"
    using assms(1) by (simp add: hk_shape_def uint_word_of_int)
  then have nz: "?w \<noteq> 0" using assms(1) by (auto simp: hk_shape_def)
  let ?x = "hk_hash key + word_of_nat i * hk_hash2 key"
  have "?x mod ?w < ?w" using nz by (simp add: word_mod_less_divisor word_neq_0_conv [symmetric])
  then have "unat (?x mod ?w) < nat (width hk)"
    using w by (metis word_less_nat_alt unat_eq_nat_uint)
  moreover have "length (hk_buckets hk ! i) = nat (width hk)" "i < length (hk_buckets hk)"
    using assms by (simp_all add: hk_shape_def)
  ultimately show ?thesis using nz by (simp add: hk_idx_def Let_def)
qed

definition inc :: "64 word \<Rightarrow> (64 word \<Rightarrow> nat) \<Rightarrow> 64 word \<Rightarrow> nat" where
  "inc fp n x = (if x = fp then n x + 1 else n x)"

lemma bump_sound:
  assumes "hk_sound n b"
  shows "hk_sound (inc fp n) (fst (bump fp cs b))"
proof -
  have "unat (hk_cnt b + 1) \<le> unat (hk_cnt b) + 1" by (rule unat_inc)
  moreover have "unat (hk_cnt b - 1) \<le> unat (hk_cnt b)" if "hk_cnt b \<noteq> 0"
    using unat_dec [OF that] by simp
  ultimately show ?thesis using assms by (auto simp: hk_sound_def bump_def inc_def)
qed

lemma hk_sound_mono: "hk_sound n b \<Longrightarrow> hk_sound (inc fp n) b"
  by (auto simp: hk_sound_def inc_def)

definition rows_sound :: "(64 word \<Rightarrow> nat) \<Rightarrow> heavykeeper \<Rightarrow> bool" where
  "rows_sound n hk \<longleftrightarrow> (\<forall>row\<in>set (hk_buckets hk). \<forall>b\<in>set row. hk_sound n b)"

lemma add_rows_sound:
  assumes "hk_shape hk" "distinct is" "\<forall>i\<in>set is. i < nat (depth hk)"
    "rows_sound (inc (hk_hash key) n) hk"
    "\<forall>i\<in>set is. \<forall>b\<in>set (hk_buckets hk ! i). hk_sound n b"
  shows "\<exists>hk'. add_rows key is hk = Some hk' \<and> hk_shape hk' \<and> depth hk' = depth hk \<and> width hk' = width hk \<and>
    rows_sound (inc (hk_hash key) n) hk'"
  using assms
proof (induction "is" arbitrary: hk)
  case (Cons i "is")
  let ?n = "inc (hk_hash key) n"
  obtain j where j: "hk_idx hk key i = Some j" "j < nat (width hk)"
    using hk_idx_shape [OF Cons.prems(1), of i key] Cons.prems(3) by auto
  have i: "i < length (hk_buckets hk)" "length (hk_buckets hk ! i) = nat (width hk)"
    using Cons.prems(1,3) by (simp_all add: hk_shape_def)
  define b where "b = fst (bump (hk_hash key) (coins hk) (hk_buckets hk ! i ! j))"
  define cs where "cs = snd (bump (hk_hash key) (coins hk) (hk_buckets hk ! i ! j))"
  let ?hk = "hk\<lparr>hk_buckets := (hk_buckets hk)[i := (hk_buckets hk ! i)[j := b]], coins := cs\<rparr>"
  have sb: "hk_sound ?n b"
    unfolding b_def by (rule bump_sound) (use Cons.prems(5) j i in simp)
  have shape: "hk_shape ?hk"
    using Cons.prems(1) i set_update_subset_insert [of "hk_buckets hk" i "(hk_buckets hk ! i)[j := b]"]
    by (fastforce simp: hk_shape_def)
  have row: "\<forall>x\<in>set ((hk_buckets hk ! i)[j := b]). hk_sound ?n x"
    using Cons.prems(5) sb hk_sound_mono set_update_subset_insert [of "hk_buckets hk ! i" j b] by fastforce
  then have rs: "rows_sound ?n ?hk"
    using Cons.prems(4) set_update_subset_insert [of "hk_buckets hk" i "(hk_buckets hk ! i)[j := b]"]
    unfolding rows_sound_def by (simp del: fun_upd_apply) blast
  have un: "\<forall>k\<in>set is. \<forall>x\<in>set (hk_buckets ?hk ! k). hk_sound n x"
  proof (intro ballI)
    fix k x assume "k \<in> set is" "x \<in> set (hk_buckets ?hk ! k)"
    moreover from this have "k \<noteq> i" using Cons.prems(2) by auto
    ultimately show "hk_sound n x" using Cons.prems(5) by simp
  qed
  have d: "distinct is" "\<forall>i\<in>set is. i < nat (depth ?hk)" using Cons.prems(2,3) by simp_all
  obtain hk' where "add_rows key is ?hk = Some hk'" "hk_shape hk'" "depth hk' = depth ?hk"
      "width hk' = width ?hk" "rows_sound ?n hk'"
    using Cons.IH [OF shape d rs un] by blast
  moreover have eq: "add_rows key (i # is) hk = add_rows key is ?hk"
    using j(1) by (simp add: Let_def split_beta b_def cs_def)
  ultimately show ?case unfolding eq by (intro exI [of _ hk']) simp
qed simp

lemma hk_Add_sound:
  assumes "hk_shape hk" "rows_sound n hk"
  shows "\<exists>hk'. hk_Add key hk = Some hk' \<and> hk_shape hk' \<and> depth hk' = depth hk \<and> width hk' = width hk \<and>
    rows_sound (inc (hk_hash key) n) hk'"
  unfolding hk_Add_def
proof (rule add_rows_sound [OF assms(1)])
  show "rows_sound (inc (hk_hash key) n) hk"
    using assms(2) hk_sound_mono unfolding rows_sound_def by blast
  show "\<forall>i\<in>set [0..<nat (depth hk)]. \<forall>b\<in>set (hk_buckets hk ! i). hk_sound n b"
    using assms by (auto simp: rows_sound_def hk_shape_def)
qed simp_all

fun hk_Adds :: "string list \<Rightarrow> heavykeeper \<Rightarrow> heavykeeper option" where
  "hk_Adds [] hk = Some hk"
| "hk_Adds (k # ks) hk = do { hk \<leftarrow> hk_Add k hk; hk_Adds ks hk }"

lemma hk_Adds_sound:
  assumes "hk_shape hk" "rows_sound n hk"
  shows "\<exists>hk'. hk_Adds keys hk = Some hk' \<and> hk_shape hk' \<and> rows_sound (\<lambda>fp. n fp + added keys fp) hk'"
  using assms
proof (induction keys arbitrary: hk n)
  case (Cons k ks)
  obtain hk1 where 1: "hk_Add k hk = Some hk1" "hk_shape hk1" "rows_sound (inc (hk_hash k) n) hk1"
    using hk_Add_sound [OF Cons.prems, of k] by blast
  have "(\<lambda>fp. (inc (hk_hash k) n) fp + added ks fp) = (\<lambda>fp. n fp + added (k # ks) fp)"
    by (auto simp: added_def inc_def)
  then show ?case using Cons.IH [OF 1(2,3)] 1(1) by auto
qed (simp add: added_def)

lemma query_rows_bound:
  assumes "hk_shape hk" "rows_sound n hk" "\<forall>i\<in>set is. i < nat (depth hk)" "unat mx \<le> n (hk_hash key)"
  shows "\<exists>q. query_rows key is hk mx = Some q \<and> unat q \<le> n (hk_hash key) \<and> mx \<le> q \<and>
    (\<forall>i\<in>set is. \<forall>j. hk_idx hk key i = Some j \<and> fingerprint (hk_buckets hk ! i ! j) = hk_hash key \<longrightarrow>
       hk_cnt (hk_buckets hk ! i ! j) \<le> q)"
  using assms(3,4)
proof (induction "is" arbitrary: mx)
  case (Cons i "is")
  obtain j where j: "hk_idx hk key i = Some j" "j < nat (width hk)"
    using hk_idx_shape [OF assms(1), of i key] Cons.prems(1) by auto
  let ?b = "hk_buckets hk ! i ! j"
  let ?m = "if fingerprint ?b = hk_hash key \<and> hk_cnt ?b > mx then hk_cnt ?b else mx"
  have i: "i < length (hk_buckets hk)" using assms(1) Cons.prems(1) by (simp add: hk_shape_def)
  then have row: "hk_buckets hk ! i \<in> set (hk_buckets hk)" by simp
  then have "?b \<in> set (hk_buckets hk ! i)" using assms(1) j(2) by (simp add: hk_shape_def)
  then have "hk_sound n ?b" using assms(2) row by (simp add: rows_sound_def)
  then have "unat ?m \<le> n (hk_hash key)" using Cons.prems(2) by (auto simp: hk_sound_def)
  then obtain q where q: "query_rows key is hk ?m = Some q" "unat q \<le> n (hk_hash key)" "?m \<le> q"
      "\<forall>i\<in>set is. \<forall>j. hk_idx hk key i = Some j \<and> fingerprint (hk_buckets hk ! i ! j) = hk_hash key \<longrightarrow>
         hk_cnt (hk_buckets hk ! i ! j) \<le> q"
    using Cons.IH [of ?m] Cons.prems(1) by auto
  moreover have "mx \<le> q" "fingerprint ?b = hk_hash key \<longrightarrow> hk_cnt ?b \<le> q"
    using q(3) by (auto split: if_splits)
  ultimately show ?case using j(1) by (auto simp: Let_def)
qed simp

lemma hk_New_shape:
  assumes "hk_New d w cs = Some hk" "0 < w" "w \<le> max_i64"
  shows "hk_shape hk" "rows_sound (\<lambda>_. 0) hk" "depth hk = d" "width hk = w"
    "\<forall>row\<in>set (hk_buckets hk). \<forall>b\<in>set row. b = \<lparr>fingerprint = 0, hk_cnt = 0\<rparr>"
  using assms by (auto simp: hk_New_def hk_shape_def rows_sound_def hk_sound_def split: if_splits)

text \<open>What one addition does to the cell of its key in every row.\<close>

lemma hk_idx_update:
  "i < length (hk_buckets hk) \<Longrightarrow>
     hk_idx (hk\<lparr>hk_buckets := (hk_buckets hk)[i := (hk_buckets hk ! i)[j := b]], coins := cs\<rparr>) = hk_idx hk"
  by (auto simp: hk_idx_def fun_eq_iff nth_list_update)

lemma hk_idx_bounds: "hk_idx hk key i = Some j \<Longrightarrow> i < length (hk_buckets hk) \<and> j < length (hk_buckets hk ! i)"
  by (auto simp: hk_idx_def Let_def split: if_splits)

lemma add_rows_cells:
  assumes "add_rows key is hk = Some hk'" "distinct is"
  shows "hk_idx hk' = hk_idx hk \<and> depth hk' = depth hk \<and>
    (\<forall>i j. hk_idx hk key i = Some j \<longrightarrow>
       (if i \<in> set is then \<exists>cs. hk_buckets hk' ! i ! j = fst (bump (hk_hash key) cs (hk_buckets hk ! i ! j))
        else hk_buckets hk' ! i ! j = hk_buckets hk ! i ! j))"
  using assms
proof (induction "is" arbitrary: hk)
  case (Cons i "is")
  then obtain j where j: "hk_idx hk key i = Some j" by (auto simp: bind_eq_Some_conv)
  define b where "b = fst (bump (hk_hash key) (coins hk) (hk_buckets hk ! i ! j))"
  define cs where "cs = snd (bump (hk_hash key) (coins hk) (hk_buckets hk ! i ! j))"
  let ?hk = "hk\<lparr>hk_buckets := (hk_buckets hk)[i := (hk_buckets hk ! i)[j := b]], coins := cs\<rparr>"
  have ib: "i < length (hk_buckets hk)" "j < length (hk_buckets hk ! i)" using hk_idx_bounds [OF j] by simp_all
  have rest: "add_rows key is ?hk = Some hk'" "distinct is"
    using Cons.prems j by (simp_all add: Let_def split_beta b_def cs_def)
  note IH = Cons.IH [OF rest, unfolded hk_idx_update [where j = j and b = b and cs = cs, OF ib(1)]]
  have same: "hk_buckets ?hk ! k ! m = (if k = i \<and> m = j then b else hk_buckets hk ! k ! m)" for k m
    using ib by (simp add: nth_list_update)
  have idx: "hk_idx hk' = hk_idx hk" "depth hk' = depth hk" using IH by simp_all
  have "if a \<in> set (i # is) then \<exists>cs. hk_buckets hk' ! a ! m = fst (bump (hk_hash key) cs (hk_buckets hk ! a ! m))
      else hk_buckets hk' ! a ! m = hk_buckets hk ! a ! m" if am: "hk_idx hk key a = Some m" for a m
  proof -
    have *: "if a \<in> set is then \<exists>cs. hk_buckets hk' ! a ! m = fst (bump (hk_hash key) cs (hk_buckets ?hk ! a ! m))
        else hk_buckets hk' ! a ! m = hk_buckets ?hk ! a ! m"
      using IH am by blast
    show ?thesis
    proof (cases "a = i")
      case True
      then have "m = j" "a \<notin> set is" using am j Cons.prems(2) by simp_all
      then have "hk_buckets hk' ! a ! m = b" using * True unfolding same by simp
      then show ?thesis using True \<open>m = j\<close> by (auto simp: b_def)
    next
      case False
      then show ?thesis using * unfolding same by (auto split: if_splits)
    qed
  qed
  with idx show ?case by blast
qed simp

definition lone :: "string \<Rightarrow> nat \<Rightarrow> heavykeeper \<Rightarrow> bool" where
  "lone key n hk \<longleftrightarrow> (\<forall>i j. i < nat (depth hk) \<and> hk_idx hk key i = Some j \<longrightarrow>
     hk_buckets hk ! i ! j = (if n = 0 then \<lparr>fingerprint = 0, hk_cnt = 0\<rparr>
                              else \<lparr>fingerprint = hk_hash key, hk_cnt = word_of_nat n\<rparr>))"

lemma unat_of_nat32: "n < 2 ^ 32 \<Longrightarrow> unat (word_of_nat n :: 32 word) = n"
  by (simp add: unat_of_nat take_bit_nat_eq_self)

lemma bump_lone:
  assumes "n + 1 < 2 ^ 32"
  shows "fst (bump fp cs (if n = 0 then \<lparr>fingerprint = 0, hk_cnt = 0\<rparr> else \<lparr>fingerprint = fp, hk_cnt = word_of_nat n\<rparr>)) =
    \<lparr>fingerprint = fp, hk_cnt = word_of_nat (n + 1)\<rparr>"
proof -
  have "word_of_nat n \<noteq> (0 :: 32 word)" if "n \<noteq> 0"
    using that assms unat_of_nat32 [of n] by auto
  then show ?thesis by (simp add: bump_def add.commute)
qed

lemma hk_Adds_depth: "hk_Adds keys hk = Some hk' \<Longrightarrow> depth hk' = depth hk"
proof (induction keys arbitrary: hk)
  case (Cons k ks)
  then obtain hk1 where "hk_Add k hk = Some hk1" "hk_Adds ks hk1 = Some hk'"
    by (auto simp: bind_eq_Some_conv)
  then show ?case
    using Cons.IH add_rows_cells [of k "[0..<nat (depth hk)]" hk hk1] by (simp add: hk_Add_def)
qed simp

lemma lone_new:
  assumes "\<forall>row\<in>set (hk_buckets hk). \<forall>b\<in>set row. b = \<lparr>fingerprint = 0, hk_cnt = 0\<rparr>"
  shows "lone key 0 hk"
  unfolding lone_def
proof (intro allI impI)
  fix i j
  assume "i < nat (depth hk) \<and> hk_idx hk key i = Some j"
  then have "hk_buckets hk ! i \<in> set (hk_buckets hk)" "hk_buckets hk ! i ! j \<in> set (hk_buckets hk ! i)"
    using hk_idx_bounds [of hk key i j] by simp_all
  then show "hk_buckets hk ! i ! j = (if (0::nat) = 0 then \<lparr>fingerprint = 0, hk_cnt = 0\<rparr>
                              else \<lparr>fingerprint = hk_hash key, hk_cnt = word_of_nat 0\<rparr>)"
    using assms by simp
qed

lemma lone_Add:
  assumes "lone key n hk" "hk_Add key hk = Some hk'" "n + 1 < 2 ^ 32"
  shows "lone key (n + 1) hk'"
proof -
  note c = add_rows_cells [OF assms(2) [unfolded hk_Add_def]]
  have "hk_buckets hk' ! i ! j = \<lparr>fingerprint = hk_hash key, hk_cnt = word_of_nat (n + 1)\<rparr>"
    if ij: "i < nat (depth hk)" "hk_idx hk key i = Some j" for i j
  proof -
    obtain cs where "hk_buckets hk' ! i ! j = fst (bump (hk_hash key) cs (hk_buckets hk ! i ! j))"
      using c ij by fastforce
    moreover have "hk_buckets hk ! i ! j = (if n = 0 then \<lparr>fingerprint = 0, hk_cnt = 0\<rparr>
        else \<lparr>fingerprint = hk_hash key, hk_cnt = word_of_nat n\<rparr>)"
      using assms(1) ij by (simp add: lone_def)
    ultimately show ?thesis using bump_lone [OF assms(3)] by simp
  qed
  then show ?thesis using c by (simp add: lone_def)
qed

lemma lone_Adds:
  assumes "lone key n hk" "hk_Adds keys hk = Some hk'" "\<forall>k\<in>set keys. k = key" "n + length keys < 2 ^ 32"
  shows "lone key (n + length keys) hk'"
  using assms
proof (induction keys arbitrary: hk n)
  case (Cons k ks)
  then obtain hk1 where "hk_Add key hk = Some hk1" "hk_Adds ks hk1 = Some hk'"
    by (auto simp: bind_eq_Some_conv)
  then show ?case
    using Cons.IH [of "n + 1" hk1] lone_Add [OF Cons.prems(1), of hk1] Cons.prems(3,4) by simp
qed simp

text \<open>C32: The sketch never over-estimates: after any sequence of additions to a new sketch, whatever the
  random numbers are, a query returns, and its answer is at most the number of additions of keys
  with the same fingerprint, wrap-around of the counters included.  It is exact while only one key
  was added, fewer than \<open>2 ^ 32\<close> times.
\<close>
theorem Query_never_over:
  assumes "hk_New d w cs = Some hk0" "0 < d" "0 < w" "w \<le> max_i64"
  shows "\<exists>hk q. hk_Adds keys hk0 = Some hk \<and> Query key hk = Some q \<and>
           unat q \<le> length (filter (\<lambda>k. hk_hash k = hk_hash key) keys) \<and>
           (length keys < 2 ^ 32 \<and> (\<forall>k\<in>set keys. k = key) \<longrightarrow> unat q = length keys)"
proof -
  note new = hk_New_shape [OF assms(1,3,4)]
  obtain hk where hk: "hk_Adds keys hk0 = Some hk" "hk_shape hk" "rows_sound (added keys) hk"
      "depth hk = d"
    using hk_Adds_sound [OF new(1,2), of keys] hk_Adds_depth new(3) by fastforce
  obtain q where q: "Query key hk = Some q" "unat q \<le> added keys (hk_hash key)"
      "\<And>i j. i < nat d \<Longrightarrow> hk_idx hk key i = Some j \<Longrightarrow> fingerprint (hk_buckets hk ! i ! j) = hk_hash key \<Longrightarrow>
         hk_cnt (hk_buckets hk ! i ! j) \<le> q"
    using query_rows_bound [OF hk(2,3), of "[0..<nat (depth hk)]" 0 key] hk(4) by (auto simp: Query_def)
  have "unat q = length keys" if h: "length keys < 2 ^ 32" "\<forall>k\<in>set keys. k = key"
  proof (cases "keys = []")
    case True
    then show ?thesis using q(2) by (simp add: added_def)
  next
    case False
    have "lone key 0 hk0" by (rule lone_new [OF new(5)])
    then have l: "lone key (length keys) hk" using lone_Adds [OF _ hk(1) h(2), of 0] h(1) by simp
    obtain j where j: "hk_idx hk key 0 = Some j" using hk_idx_shape [OF hk(2), of 0 key] assms(2) hk(4) by auto
    have "hk_buckets hk ! 0 ! j = \<lparr>fingerprint = hk_hash key, hk_cnt = word_of_nat (length keys)\<rparr>"
      using l j False assms(2) hk(4) by (simp add: lone_def)
    then have "word_of_nat (length keys) \<le> q" using q(3) [OF _ j] assms(2) by simp
    then have "length keys \<le> unat q"
      using h(1) unat_of_nat32 [of "length keys"] by (simp add: word_le_nat_alt)
    moreover have "unat q \<le> length keys" using q(2) by (simp add: added_def order_trans)
    ultimately show ?thesis by simp
  qed
  then show ?thesis using hk(1) q(1,2) by (auto simp: added_def)
qed

lemma Query_never_over_witness:
  "\<exists>hk0 hk q. hk_New 2 8 (sconst True) = Some hk0 \<and> hk_Adds [''a'', ''a''] hk0 = Some hk \<and>
     Query ''a'' hk = Some q \<and> unat q = 2"
proof -
  obtain hk0 where hk0: "hk_New 2 8 (sconst True) = Some hk0" by (simp add: hk_New_def)
  then show ?thesis using Query_never_over [OF hk0, of "[''a'', ''a'']" "''a''"] by auto
qed

end
