(* ===== verification/Go_Crypto.thy ===== *)
theory Go_Crypto
  imports Go_Std "HOL-Library.Word"
begin

unbundle bit_operations_syntax

text \<open>
  Three functions of Go's library that object identifiers are made with: \<^verbatim>\<open>sha1.Sum\<close> as FIPS 180-4
  defines it, \<^verbatim>\<open>hex.EncodeToString\<close>, and \<^verbatim>\<open>filepath.Join\<close> and \<^verbatim>\<open>filepath.Dir\<close> with their lexical \<^verbatim>\<open>Clean\<close> (on Unix).
\<close>

subsection \<open>SHA-1\<close>

definition rotl32 :: "nat \<Rightarrow> 32 word \<Rightarrow> 32 word" where
  "rotl32 n w = push_bit n w OR drop_bit (32 - n) w"

definition be_word :: "bytes \<Rightarrow> 32 word" where
  "be_word bs = fold (\<lambda>b w. push_bit 8 w OR word_of_nat (of_char b)) bs 0"

definition word_be :: "32 word \<Rightarrow> bytes" where
  "word_be w = map (\<lambda>i. char_of (unat (drop_bit i w) mod 256)) [24, 16, 8, 0]"

definition sha1_pad :: "bytes \<Rightarrow> bytes" where
  "sha1_pad m =
     m @ [CHR 0x80] @ replicate ((119 - length m mod 64) mod 64) (CHR 0x00) @
     map (\<lambda>i. char_of ((8 * length m div 256 ^ i) mod 256)) [7, 6, 5, 4, 3, 2, 1, 0]"

definition sha1_schedule :: "32 word list \<Rightarrow> 32 word list" where
  "sha1_schedule block =
     fold (\<lambda>t ws. ws @ [rotl32 1 (ws ! (t - 3) XOR ws ! (t - 8) XOR ws ! (t - 14) XOR ws ! (t - 16))])
       [16..<80] block"

type_synonym sha1_state = "32 word \<times> 32 word \<times> 32 word \<times> 32 word \<times> 32 word"

definition sha1_round :: "nat \<times> 32 word \<Rightarrow> sha1_state \<Rightarrow> sha1_state" where
  "sha1_round tw st =
     (case (tw, st) of ((t, w), (a, b, c, d, e)) \<Rightarrow>
        let (f, k) =
              (if t < 20 then ((b AND c) OR (NOT b AND d), 0x5A827999)
               else if t < 40 then (b XOR c XOR d, 0x6ED9EBA1)
               else if t < 60 then ((b AND c) OR (b AND d) OR (c AND d), 0x8F1BBCDC)
               else (b XOR c XOR d, 0xCA62C1D6))
        in (rotl32 5 a + f + e + k + w, a, rotl32 30 b, c, d))"

definition sha1_block :: "bytes \<Rightarrow> sha1_state \<Rightarrow> sha1_state" where
  "sha1_block bs st =
     (let ws = sha1_schedule (map (\<lambda>i. be_word (take 4 (drop (4 * i) bs))) [0..<16]);
          (a, b, c, d, e) = st;
          (a', b', c', d', e') = fold sha1_round (zip [0..<80] ws) st
      in (a + a', b + b', c + c', d + d', e + e'))"

definition sha1_Sum :: "bytes \<Rightarrow> bytes" where
  "sha1_Sum m =
     (let p = sha1_pad m;
          (a, b, c, d, e) =
            fold (\<lambda>i. sha1_block (take 64 (drop (64 * i) p))) [0..<length p div 64]
              (0x67452301, 0xEFCDAB89, 0x98BADCFE, 0x10325476, 0xC3D2E1F0)
      in concat (map word_be [a, b, c, d, e]))"

lemma length_sha1_Sum [simp]: "length (sha1_Sum m) = 20"
  by (simp add: sha1_Sum_def Let_def word_be_def split: prod.split)

subsection \<open>Hexadecimal\<close>

definition hex_digit :: "nat \<Rightarrow> char" where
  "hex_digit n = ''0123456789abcdef'' ! n"

fun EncodeToString :: "bytes \<Rightarrow> string" where
  "EncodeToString [] = []"
| "EncodeToString (b # bs) =
     hex_digit (of_char b div 16) # hex_digit (of_char b mod 16) # EncodeToString bs"

lemma length_EncodeToString [simp]: "length (EncodeToString bs) = 2 * length bs"
  by (induction bs) auto

lemma hex_cases: "n < 16 \<Longrightarrow> P (0::nat) \<Longrightarrow> P 1 \<Longrightarrow> P 2 \<Longrightarrow> P 3 \<Longrightarrow> P 4 \<Longrightarrow> P 5 \<Longrightarrow> P 6 \<Longrightarrow> P 7 \<Longrightarrow> P 8 \<Longrightarrow>
    P 9 \<Longrightarrow> P 10 \<Longrightarrow> P 11 \<Longrightarrow> P 12 \<Longrightarrow> P 13 \<Longrightarrow> P 14 \<Longrightarrow> P 15 \<Longrightarrow> P n"
proof -
  assume "n < 16"
  then have "n \<in> {0, 1, 2, 3, 4, 5, 6, 7, 8, 9, 10, 11, 12, 13, 14, 15}" by simp arith
  then show "P 0 \<Longrightarrow> P 1 \<Longrightarrow> P 2 \<Longrightarrow> P 3 \<Longrightarrow> P 4 \<Longrightarrow> P 5 \<Longrightarrow> P 6 \<Longrightarrow> P 7 \<Longrightarrow> P 8 \<Longrightarrow>
    P 9 \<Longrightarrow> P 10 \<Longrightarrow> P 11 \<Longrightarrow> P 12 \<Longrightarrow> P 13 \<Longrightarrow> P 14 \<Longrightarrow> P 15 \<Longrightarrow> P n" by auto
qed

definition hex_value :: "char \<Rightarrow> nat" where
  "hex_value c = (let n = of_char c in if n < 58 then n - 48 else n - 87)"

lemma hex_digit_value: "n < 16 \<Longrightarrow> hex_value (hex_digit n) = n"
  by (erule hex_cases) (simp_all add: hex_digit_def hex_value_def)

lemma hex_digit_plain: "n < 16 \<Longrightarrow> hex_digit n \<noteq> CHR ''/'' \<and> hex_digit n \<noteq> CHR ''.'' \<and> hex_digit n \<noteq> CHR ''-''"
  by (erule hex_cases) (simp_all add: hex_digit_def)

lemma EncodeToString_chars: "c \<in> set (EncodeToString bs) \<Longrightarrow> c \<noteq> CHR ''/'' \<and> c \<noteq> CHR ''.'' \<and> c \<noteq> CHR ''-''"
proof (induction bs)
  case (Cons b bs)
  have "(of_char b :: nat) div 16 < 16" "(of_char b :: nat) mod 16 < 16"
    by (simp_all add: less_mult_imp_div_less)
  then show ?case using Cons hex_digit_plain by auto
qed simp

lemma EncodeToString_inj: "EncodeToString a = EncodeToString b \<longleftrightarrow> a = b"
proof (induction a arbitrary: b)
  case Nil
  show ?case by (cases b) auto
next
  case (Cons x a)
  show ?case
  proof (cases b)
    case (Cons y b')
    have r: "(of_char c :: nat) div 16 < 16" "(of_char c :: nat) mod 16 < 16" for c :: char
      by (simp_all add: less_mult_imp_div_less)
    have "x = y" if "hex_digit (of_char x div 16) = hex_digit (of_char y div 16)"
      "hex_digit (of_char x mod 16) = hex_digit (of_char y mod 16)"
    proof -
      have "(of_char x :: nat) div 16 = of_char y div 16" "(of_char x :: nat) mod 16 = of_char y mod 16"
        using that hex_digit_value r by metis+
      then have "(of_char x :: nat) = of_char y" by (metis div_mult_mod_eq)
      then show ?thesis by (simp only: of_char_eq_iff)
    qed
    then show ?thesis using Cons Cons.IH [of b'] by auto
  qed simp
qed

lemma ToLower_EncodeToString [simp]: "ToLower (EncodeToString bs) = EncodeToString bs"
proof (induction bs)
  case (Cons b bs)
  have "to_lower (hex_digit n) = hex_digit n" if "n < 16" for n
    using that by (rule hex_cases) (simp_all add: hex_digit_def to_lower_def)
  moreover have "(of_char b :: nat) div 16 < 16" "(of_char b :: nat) mod 16 < 16"
    by (simp_all add: less_mult_imp_div_less)
  ultimately show ?case using Cons by (simp add: ToLower_def)
qed (simp add: ToLower_def)

lemma EqualFold_EncodeToString [simp]: "EqualFold (EncodeToString a) (EncodeToString b) \<longleftrightarrow> a = b"
  by (simp add: EqualFold_def EncodeToString_inj)

subsection \<open>Joining file names\<close>

definition clean_step :: "bool \<Rightarrow> string \<Rightarrow> string list \<Rightarrow> string list" where
  "clean_step rooted c out =
     (if c = [] \<or> c = ''.'' then out
      else if c = ''..'' then
        (if out \<noteq> [] \<and> List.last out \<noteq> ''..'' then butlast out
         else if rooted then out else out @ [''..''])
      else out @ [c])"

definition Clean_path :: "string \<Rightarrow> string" where
  "Clean_path path =
     (if path = [] then ''.''
      else
        let rooted = (hd path = CHR ''/'');
            out = fold (clean_step rooted) (Split path (CHR ''/'')) []
        in if rooted then CHR ''/'' # Join out ''/'' else if out = [] then ''.'' else Join out ''/'')"

definition filepath_Join :: "string list \<Rightarrow> string" where
  "filepath_Join elem =
     (let rest = dropWhile (\<lambda>e. e = []) elem in if rest = [] then [] else Clean_path (Join rest ''/''))"

text \<open>\<^verbatim>\<open>filepath.Dir\<close>: everything up to the last slash, cleaned.\<close>

definition filepath_Dir :: "string \<Rightarrow> string" where
  "filepath_Dir path = Clean_path (rev (dropWhile (\<lambda>c. c \<noteq> CHR ''/'') (rev path)))"

lemma filepath_Dir_suffix: "CHR ''/'' \<notin> set suf \<Longrightarrow> filepath_Dir (path @ suf) = filepath_Dir path"
proof -
  assume "CHR ''/'' \<notin> set suf"
  then have "dropWhile (\<lambda>c. c \<noteq> CHR ''/'') (rev suf @ rev path) = dropWhile (\<lambda>c. c \<noteq> CHR ''/'') (rev path)"
    by (intro dropWhile_append2) auto
  then show ?thesis by (simp add: filepath_Dir_def)
qed

text \<open>A last element that is a plain file name is the last component of the joined path.\<close>

lemma Join_snoc: "xs \<noteq> [] \<Longrightarrow> Join (xs @ [y]) sep = Join xs sep @ sep @ y"
proof (induction xs)
  case (Cons x xs)
  then show ?case by (cases xs) auto
qed simp

lemma Split_snoc:
  assumes "CHR ''/'' \<notin> set name"
  shows "Split (a @ ''/'' @ name) (CHR ''/'') = Split a (CHR ''/'') @ [name]"
proof (induction a)
  case Nil
  then show ?case using assms by (simp add: Split_none)
next
  case (Cons c a)
  then show ?case by (auto split: list.splits)
qed

definition plain_name :: "string \<Rightarrow> bool" where
  "plain_name n \<longleftrightarrow> n \<noteq> [] \<and> CHR ''/'' \<notin> set n \<and> CHR ''.'' \<notin> set n"

lemma clean_step_plain: "plain_name n \<Longrightarrow> clean_step r n out = out @ [n]"
  by (auto simp: clean_step_def plain_name_def)

lemma Split_Join_last: "plain_name n \<Longrightarrow> \<exists>cs. Split (Join (ys @ [n]) ''/'') (CHR ''/'') = cs @ [n]"
  by (cases "ys = []") (auto simp: Join_snoc Split_none Split_snoc [simplified] plain_name_def)

lemma filepath_Join_name:
  assumes "plain_name m" "plain_name name"
  shows "\<exists>a. filepath_Join (ys @ [m, name]) = a @ ''/'' @ name"
proof -
  have "\<exists>zs. dropWhile (\<lambda>e. e = []) (ys @ [m, name]) = zs @ [m, name]"
    using assms(1) by (induction ys) (auto simp: plain_name_def)
  then obtain zs where zs: "dropWhile (\<lambda>e. e = []) (ys @ [m, name]) = zs @ [m, name]" by blast
  define path where "path = Join (zs @ [m]) ''/'' @ ''/'' @ name"
  obtain cs where cs: "Split (Join (zs @ [m]) ''/'') (CHR ''/'') = cs @ [m]"
    using Split_Join_last [OF assms(1)] by blast
  have J: "Join (zs @ [m, name]) ''/'' = path" using Join_snoc [of "zs @ [m]" name] by (simp add: path_def)
  have S: "Split path (CHR ''/'') = cs @ [m, name]"
    using assms(2) cs by (simp add: path_def Split_snoc [simplified] plain_name_def)
  define out where "out = fold (clean_step (hd path = CHR ''/'')) (Split path (CHR ''/'')) []"
  obtain o1 where o: "out = o1 @ [m, name]"
    using assms by (simp add: out_def S clean_step_plain)
  have "Join out ''/'' = Join (o1 @ [m]) ''/'' @ ''/'' @ name"
    using Join_snoc [of "o1 @ [m]" name] by (simp add: o)
  then have "\<exists>a. Clean_path path = a @ ''/'' @ name"
    unfolding Clean_path_def Let_def out_def [symmetric] by (auto simp: path_def o intro: exI [of _ "_ # _"])
  then show ?thesis by (simp add: filepath_Join_def zs J)
qed

end
