(* ===== verification/Storage_Object.thy ===== *)
theory Storage_Object
  imports Go_Crypto Block_File Http_Header "HOL-Library.Monad_Syntax"
begin

text \<open>
  The data types of the storage interface, \<^verbatim>\<open>src/api/defined/v1/storage\<close>: access marks, purge
  controls and cache states (\<^verbatim>\<open>storage.go\<close>), object identifiers (\<^verbatim>\<open>object/id.go\<close>) and object
  metadata (\<^verbatim>\<open>object/object.go\<close>).  The JSON and CBOR codecs are third-party packages and arguments
  of the marshalling functions, the bitmap package is the argument \<open>bm\<close> as in \<^verbatim>\<open>Block_File\<close>.
\<close>

subsection \<open>storage.go\<close>

type_synonym mark = "64 word"

definition ClockBits :: nat where
  "ClockBits = 48"

definition ClockMask :: "64 word" where
  "ClockMask = push_bit ClockBits 1 - 1"

definition CounterBits :: nat where
  "CounterBits = 16"

definition RefsMask :: "64 word" where
  "RefsMask = push_bit CounterBits 1 - 1"

definition NewMark :: "int \<Rightarrow> int \<Rightarrow> mark" where
  "NewMark clock refs = push_bit CounterBits (word_of_int clock) OR word_of_int refs"

definition SetLastAccess :: "int \<Rightarrow> mark \<Rightarrow> mark" where
  "SetLastAccess clock m =
     (m AND NOT (push_bit CounterBits ClockMask)) OR push_bit CounterBits (word_of_int clock)"

definition LastAccess :: "mark \<Rightarrow> 64 word" where
  "LastAccess m = drop_bit CounterBits m"

definition Refs :: "mark \<Rightarrow> 64 word" where
  "Refs m = m AND RefsMask"

definition SetRefs :: "64 word \<Rightarrow> mark \<Rightarrow> mark" where
  "SetRefs refs m = (let refs = (if refs > RefsMask then RefsMask else refs) in (m AND NOT RefsMask) OR refs)"

record PurgeControl =
  Hard :: bool
  Dir :: bool
  MarkExpired :: bool

definition PurgeControl_String :: "PurgeControl \<Rightarrow> string" where
  "PurgeControl_String r =
     (let mode = (if Dir r then ''dir'' else ''file'');
          expOrHard = (if Hard r then ''hard_del'' else ''mark_expired'')
      in ''mode:'' @ mode @ ''@'' @ expOrHard)"

text \<open>A \<^verbatim>\<open>CacheStatus\<close> is an \<^verbatim>\<open>int\<close>; the named values count from 1.\<close>

definition CacheMiss :: int where "CacheMiss = 1"
definition CacheHit :: int where "CacheHit = 2"
definition CacheParentHit :: int where "CacheParentHit = 3"
definition CachePartHit :: int where "CachePartHit = 4"
definition CacheRevalidateHit :: int where "CacheRevalidateHit = 5"
definition CacheRevalidateMiss :: int where "CacheRevalidateMiss = 6"
definition CachePartMiss :: int where "CachePartMiss = 7"
definition CacheHotHit :: int where "CacheHotHit = 8"
definition BYPASS :: int where "BYPASS = 9"

definition cacheStatusMap :: "(int \<times> string) list" where
  "cacheStatusMap =
     [(CacheMiss, ''MISS''), (CacheHit, ''HIT''), (CacheParentHit, ''PARENT_HIT''),
      (CacheRevalidateHit, ''REVALIDATE_HIT''), (CacheRevalidateMiss, ''REVALIDATE_MISS''),
      (CachePartHit, ''PART_HIT''), (CachePartMiss, ''PART_MISS''), (CacheHotHit, ''HOT_HIT''),
      (BYPASS, ''BYPASS'')]"

definition CacheStatus_String :: "int \<Rightarrow> string" where
  "CacheStatus_String r = (case map_of cacheStatusMap r of None \<Rightarrow> [] | Some s \<Rightarrow> s)"

subsection \<open>id.go\<close>

record ID =
  id_path :: string
  id_ext :: string
  id_hash :: bytes
  id_cacheID :: string

definition ID_String :: "ID \<Rightarrow> string" where "ID_String oid = id_cacheID oid"
definition ID_Key :: "ID \<Rightarrow> string" where "ID_Key oid = id_path oid @ id_ext oid"
definition ID_Path :: "ID \<Rightarrow> string" where "ID_Path oid = id_path oid"
definition ID_Ext :: "ID \<Rightarrow> string" where "ID_Ext oid = id_ext oid"
definition ID_Hash :: "ID \<Rightarrow> bytes" where "ID_Hash oid = id_hash oid"
definition ID_HashStr :: "ID \<Rightarrow> string" where "ID_HashStr oid = EncodeToString (id_hash oid)"
definition ID_Bytes :: "ID \<Rightarrow> bytes" where "ID_Bytes oid = id_hash oid"

definition NewID :: "string \<Rightarrow> ID" where
  "NewID path =
     (let hash = sha1_Sum path
      in \<lparr>id_path = path, id_ext = [], id_hash = hash,
          id_cacheID = ''{'' @ EncodeToString hash @ '':'' @ path @ [] @ ''}''\<rparr>)"

definition NewVirtualID :: "string \<Rightarrow> string \<Rightarrow> ID" where
  "NewVirtualID path virtualKey =
     (let hash = sha1_Sum (path @ virtualKey)
      in \<lparr>id_path = path, id_ext = virtualKey, id_hash = hash,
          id_cacheID = ''{'' @ EncodeToString hash @ '':'' @ path @ virtualKey @ ''}''\<rparr>)"

datatype 'e id_err = InvalidID "string list" | CodecErr 'e

definition id_unmarshal :: "string list \<Rightarrow> 'e id_err + ID" where
  "id_unmarshal data =
     (if length data < 1 \<or> data ! 0 = [] then Inl (InvalidID data)
      else if length data > 1 then Inr (NewVirtualID (data ! 0) (data ! 1))
      else Inr (NewID (data ! 0)))"

definition UnmarshalJSON :: "(bytes \<Rightarrow> 'e + string list) \<Rightarrow> bytes \<Rightarrow> 'e id_err + ID" where
  "UnmarshalJSON json_Unmarshal buf =
     (case json_Unmarshal buf of Inl e \<Rightarrow> Inl (CodecErr e) | Inr data \<Rightarrow> id_unmarshal data)"

definition UnmarshalCBOR :: "(bytes \<Rightarrow> 'e + string list) \<Rightarrow> bytes \<Rightarrow> 'e id_err + ID" where
  "UnmarshalCBOR cbor_Unmarshal buf =
     (case cbor_Unmarshal buf of Inl e \<Rightarrow> Inl (CodecErr e) | Inr data \<Rightarrow> id_unmarshal data)"

definition MarshalJSON :: "(string list \<Rightarrow> 'e + bytes) \<Rightarrow> ID \<Rightarrow> 'e + bytes" where
  "MarshalJSON json_Marshal oid = json_Marshal [id_path oid, id_ext oid]"

definition MarshalCBOR :: "(string list \<Rightarrow> 'e + bytes) \<Rightarrow> ID \<Rightarrow> 'e + bytes" where
  "MarshalCBOR cbor_Marshal oid = cbor_Marshal [id_path oid, id_ext oid]"

definition WPath :: "string \<Rightarrow> ID \<Rightarrow> string" where
  "WPath pwd oid =
     (let hash = EncodeToString (id_hash oid) in filepath_Join [pwd, take 1 hash, take 2 (drop 2 hash), hash])"

text \<open>The verb \<^verbatim>\<open>%06d\<close>: decimal, filled up with zeros on the left to six digits.\<close>

definition pad6 :: "int \<Rightarrow> string" where
  "pad6 i = replicate (6 - length (FormatInt i)) (CHR ''0'') @ FormatInt i"

definition WPathSlice :: "string \<Rightarrow> int \<Rightarrow> ID \<Rightarrow> string" where
  "WPathSlice pwd sliceIndex oid =
     (let hash = EncodeToString (id_hash oid)
      in filepath_Join [pwd, take 1 hash, take 2 (drop 2 hash), hash @ ''-'' @ pad6 sliceIndex])"

definition IDHash_WPath :: "string \<Rightarrow> bytes \<Rightarrow> string" where
  "IDHash_WPath pwd idx =
     (let h = EncodeToString idx in filepath_Join [pwd, take 1 h, take 2 (drop 2 h), h])"

subsection \<open>object.go\<close>

type_synonym CacheFlag = "8 word"

definition FlagCache :: CacheFlag where "FlagCache = 0"
definition FlagVaryIndex :: CacheFlag where "FlagVaryIndex = push_bit 0 1"
definition FlagVaryCache :: CacheFlag where "FlagVaryCache = push_bit 1 1"
definition FlagChunkedCache :: CacheFlag where "FlagChunkedCache = push_bit 2 1"

definition CacheFlag_String :: "CacheFlag \<Rightarrow> string" where
  "CacheFlag_String f =
     (if f = FlagCache then ''CACHE''
      else if f = FlagVaryIndex then ''VARY_INDEX''
      else if f = FlagVaryCache then ''VARY_CACHE''
      else if f = FlagChunkedCache then ''CHUNKED_CACHE''
      else if f = (FlagVaryCache OR FlagChunkedCache) then ''VARY_CHUNKED_CACHE''
      else ''UNKNOWN'')"

record 'b Metadata =
  Flags :: CacheFlag
  md_ID :: ID
  BlockSize :: int
  Chunks :: 'b
  Parts :: 'b
  Code :: int
  md_Size :: int
  RespUnix :: int
  LastRefUnix :: int
  md_Refs :: int
  ExpiresAt :: int
  Headers :: header
  VirtualKey :: "string list"

definition IsVary :: "'b Metadata \<Rightarrow> bool" where
  "IsVary m \<longleftrightarrow> Flags m = FlagVaryIndex"

definition IsVaryCache :: "'b Metadata \<Rightarrow> bool" where
  "IsVaryCache m \<longleftrightarrow> sint (Flags m AND FlagVaryCache) > 0"

definition md_IsChunked :: "'b Metadata \<Rightarrow> bool" where
  "md_IsChunked m \<longleftrightarrow> sint (Flags m AND FlagChunkedCache) > 0"

definition IsVaryChunked :: "'b Metadata \<Rightarrow> bool" where
  "IsVaryChunked m \<longleftrightarrow> IsVaryCache m \<and> md_IsChunked m"

definition HasVary :: "'b Metadata \<Rightarrow> bool" where
  "HasVary m \<longleftrightarrow> length (VirtualKey m) > 0"

text \<open>\<open>None\<close> is the panic of a division by zero.\<close>

definition HasComplete :: "'b bitmap_ops \<Rightarrow> 'b Metadata \<Rightarrow> bool option" where
  "HasComplete bm m =
     (if IsVary m then Some False
      else if md_Size m \<le> 0 then Some False
      else if BlockSize m = 0 then None
      else
        let n = md_Size m div BlockSize m;
            n = (if md_Size m mod BlockSize m \<noteq> 0 then u64 (n + 1) else n)
        in Some (n = u64 (bm_Count bm (Chunks m))))"

definition md_Clone :: "('b \<Rightarrow> 'b) \<Rightarrow> 'b Metadata \<Rightarrow> 'b Metadata" where
  "md_Clone bm_Clone m =
     \<lparr>Flags = Flags m, md_ID = md_ID m, BlockSize = BlockSize m, Chunks = bm_Clone (Chunks m),
      Parts = bm_Clone (Parts m), Code = Code m, md_Size = md_Size m, RespUnix = RespUnix m,
      LastRefUnix = LastRefUnix m, md_Refs = md_Refs m, ExpiresAt = ExpiresAt m,
      Headers = Headers m, VirtualKey = VirtualKey m\<rparr>"

subsection \<open>Marks\<close>

lemma RefsMask_mask: "RefsMask = mask 16"
  by (simp add: RefsMask_def CounterBits_def mask_eq_exp_minus_1 push_bit_eq_mult)

lemma ClockMask_mask: "ClockMask = mask 48"
  by (simp add: ClockMask_def ClockBits_def mask_eq_exp_minus_1 push_bit_eq_mult)

lemma Refs_take_bit: "Refs m = take_bit 16 m"
  by (simp add: Refs_def RefsMask_mask take_bit_eq_mask)

lemma capped_refs: "\<not> r > mask 16 \<Longrightarrow> take_bit 16 r = (r :: 64 word)"
proof -
  assume "\<not> r > mask 16"
  then have "unat r < 2 ^ 16" by (simp add: mask_eq_exp_minus_1 not_less word_le_nat_alt)
  then show ?thesis by (simp add: word_unat_eq_iff unsigned_take_bit_eq take_bit_nat_eq_self)
qed

text \<open>C36: An access mark is two fields, a clock of 48 bits and a counter of 16 bits.  Setting one field stores
  the value (the clock cut to 48 bits, the counter capped at its maximum) and leaves the other field as it
  was.  A new mark is not protected that way: the bits of the counter above the sixteenth end up in the
  clock.\<close>
theorem Mark_fields:
  "LastAccess (SetLastAccess clock m) = take_bit 48 (word_of_int clock) \<and>
   Refs (SetLastAccess clock m) = Refs m \<and>
   Refs (SetRefs r m) = min r (2 ^ 16 - 1) \<and>
   LastAccess (SetRefs r m) = LastAccess m \<and>
   LastAccess (NewMark clock refs) = take_bit 48 (word_of_int clock) OR drop_bit 16 (word_of_int refs) \<and>
   Refs (NewMark clock refs) = take_bit 16 (word_of_int refs) \<and>
   uint (LastAccess m) < 2 ^ 48 \<and> uint (Refs m) < 2 ^ 16"
proof (intro conjI)
  show "LastAccess (SetLastAccess clock m) = take_bit 48 (word_of_int clock)"
    by (rule bit_word_eqI) (auto simp: LastAccess_def SetLastAccess_def CounterBits_def ClockMask_mask bit_simps)
  show "Refs (SetLastAccess clock m) = Refs m"
    by (rule bit_word_eqI) (auto simp: Refs_take_bit SetLastAccess_def CounterBits_def ClockMask_mask bit_simps)
  have cap: "(if r > RefsMask then RefsMask else r) = min r (2 ^ 16 - 1)"
    by (auto simp: RefsMask_mask mask_eq_exp_minus_1 min_def)
  have tb: "take_bit 16 (min r (2 ^ 16 - 1)) = min r (2 ^ 16 - 1)"
    using capped_refs [of "min r (2 ^ 16 - 1)"] by (simp add: mask_eq_exp_minus_1)
  show "Refs (SetRefs r m) = min r (2 ^ 16 - 1)"
    unfolding SetRefs_def Let_def cap
    using tb by (simp add: Refs_take_bit RefsMask_mask take_bit_or take_bit_and take_bit_not_eq_mask_diff flip: take_bit_eq_mask)
  have "\<not> bit (min r (2 ^ 16 - 1)) (16 + n)" for n
    using tb by (metis bit_take_bit_iff not_add_less1)
  then show "LastAccess (SetRefs r m) = LastAccess m"
    unfolding SetRefs_def Let_def cap
    by (intro bit_word_eqI) (auto simp: LastAccess_def CounterBits_def RefsMask_mask bit_simps dest: bit_imp_le_length)
  show "LastAccess (NewMark clock refs) = take_bit 48 (word_of_int clock) OR drop_bit 16 (word_of_int refs)"
    by (rule bit_word_eqI) (auto simp: LastAccess_def NewMark_def CounterBits_def bit_simps)
  show "Refs (NewMark clock refs) = take_bit 16 (word_of_int refs)"
    by (rule bit_word_eqI) (auto simp: Refs_take_bit NewMark_def CounterBits_def bit_simps)
  have "uint m < 2 ^ 64" using uint_lt2p [of m] by simp
  then show "uint (LastAccess m) < 2 ^ 48"
    by (simp add: LastAccess_def CounterBits_def drop_bit_eq_div uint_div)
  show "uint (Refs m) < 2 ^ 16"
    using take_bit_int_less_exp [of 16 "uint m"] by (simp add: Refs_take_bit unsigned_take_bit_eq)
qed

subsection \<open>Identifiers\<close>

lemma id_hash_length [simp]: "length (id_hash (NewID p)) = 20" "length (id_hash (NewVirtualID p e)) = 20"
  by (simp_all add: NewID_def NewVirtualID_def Let_def)

text \<open>The decimal digits with leading zeros determine the number.\<close>

lemma parse_digits_zeros: "parse_digits 0 (replicate n (CHR ''0'') @ s) = parse_digits 0 s"
proof -
  have "digit_of (CHR ''0'') = Some 0" by (simp add: digit_of_def)
  then show ?thesis by (induction n) simp_all
qed

lemma pad6_inj:
  assumes "is_u32 i" "is_u32 j" "pad6 i = pad6 j"
  shows "i = j"
proof -
  have "parse_digits 0 (pad6 k) = (k, None)" if "is_u32 k" for k
  proof -
    have "ParseUint (FormatInt k) = (k, None)" using that by (auto simp: ParseUint_FormatInt is_u32_def is_u64_def)
    then have "parse_digits 0 (FormatInt k) = (k, None)" by (simp add: ParseUint_def)
    then show ?thesis by (simp add: pad6_def parse_digits_zeros)
  qed
  then show ?thesis using assms by (metis fst_conv)
qed

lemma pad6_plain: "is_u32 i \<Longrightarrow> CHR ''/'' \<notin> set (pad6 i) \<and> CHR ''.'' \<notin> set (pad6 i)"
  by (auto simp: pad6_def is_u32_def digit_of_def dest: FormatInt_nonneg_digits [rotated])

lemma hash_name_plain:
  assumes "length h = 20"
  shows "plain_name (EncodeToString h)" "plain_name (take 2 (drop 2 (EncodeToString h)))"
proof -
  obtain a b bs where "h = a # b # bs"
    using assms by (cases h; cases "tl h") auto
  then have "EncodeToString h \<noteq> []" "take 2 (drop 2 (EncodeToString h)) \<noteq> []" by auto
  then show "plain_name (EncodeToString h)" "plain_name (take 2 (drop 2 (EncodeToString h)))"
    using EncodeToString_chars by (auto simp: plain_name_def dest!: in_set_takeD in_set_dropD)
qed

lemma after_last_slash:
  assumes "a @ ''/'' @ m = b @ ''/'' @ n" "CHR ''/'' \<notin> set m" "CHR ''/'' \<notin> set n"
  shows "m = n"
proof -
  have "takeWhile (\<lambda>c. c \<noteq> CHR ''/'') (rev (a @ ''/'' @ m)) = rev m"
    using assms(2) by (simp, subst takeWhile_append2) auto
  moreover have "takeWhile (\<lambda>c. c \<noteq> CHR ''/'') (rev (b @ ''/'' @ n)) = rev n"
    using assms(3) by (simp, subst takeWhile_append2) auto
  ultimately have "rev m = rev n" using assms(1) by metis
  then show ?thesis by simp
qed

lemma slice_name_plain:
  assumes "length h = 20" "is_u32 i"
  shows "plain_name (EncodeToString h @ ''-'' @ pad6 i)"
  using hash_name_plain(1) [OF assms(1)] pad6_plain [OF assms(2)] by (auto simp: plain_name_def)

lemma WPathSlice_name:
  assumes "length (id_hash oid) = 20" "is_u32 k"
  shows "\<exists>x. WPathSlice pwd k oid = x @ ''/'' @ EncodeToString (id_hash oid) @ ''-'' @ pad6 k"
  using filepath_Join_name [OF hash_name_plain(2) slice_name_plain, OF assms(1,1,2),
      of "[pwd, take 1 (EncodeToString (id_hash oid))]"]
  by (simp add: WPathSlice_def Let_def)

lemma WPathSlice_eqD:
  assumes "length (id_hash a) = 20" "length (id_hash b) = 20" "is_u32 i" "is_u32 j"
    and eq: "WPathSlice pwd i a = WPathSlice pwd' j b"
  shows "id_hash a = id_hash b \<and> i = j"
proof -
  obtain x y where x: "WPathSlice pwd i a = x @ ''/'' @ EncodeToString (id_hash a) @ ''-'' @ pad6 i"
      and y: "WPathSlice pwd' j b = y @ ''/'' @ EncodeToString (id_hash b) @ ''-'' @ pad6 j"
    using WPathSlice_name assms by metis
  have "EncodeToString (id_hash a) @ ''-'' @ pad6 i = EncodeToString (id_hash b) @ ''-'' @ pad6 j"
    by (rule after_last_slash [OF eq [unfolded x y]])
      (use slice_name_plain [OF assms(1,3)] slice_name_plain [OF assms(2,4)] in \<open>simp_all add: plain_name_def\<close>)
  moreover have "length (EncodeToString (id_hash a)) = length (EncodeToString (id_hash b))"
    using assms(1,2) by simp
  ultimately show ?thesis using EncodeToString_inj pad6_inj [OF assms(3,4)] by simp
qed

text \<open>C37: Files are never shared: two slice files lie at the same path, below any two directories, only when they belong to the same
  object hash and have the same index, for all \<open>uint32\<close> indices; and a slice file never lies at the path of an
  object.\<close>
theorem WPathSlice_injective:
  assumes "length (id_hash a) = 20" "length (id_hash b) = 20" "is_u32 i" "is_u32 j"
  shows "(WPathSlice pwd i a = WPathSlice pwd' j b \<longrightarrow> id_hash a = id_hash b \<and> i = j) \<and>
    (WPath pwd a = WPath pwd' b \<longrightarrow> id_hash a = id_hash b) \<and> WPathSlice pwd i a \<noteq> WPath pwd' b"
proof -
  have wp: "\<exists>x. WPath pwd c = x @ ''/'' @ EncodeToString (id_hash c)"
    if "length (id_hash c) = 20" for pwd c
    using filepath_Join_name [OF hash_name_plain(2,1), OF that that, of "[pwd, take 1 (EncodeToString (id_hash c))]"]
    by (simp add: WPath_def Let_def)
  note pl = slice_name_plain [OF assms(1,3), unfolded plain_name_def]
    slice_name_plain [OF assms(2,4), unfolded plain_name_def]
    hash_name_plain(1) [OF assms(1), unfolded plain_name_def] hash_name_plain(1) [OF assms(2), unfolded plain_name_def]
  obtain x u v where
      x: "WPathSlice pwd i a = x @ ''/'' @ EncodeToString (id_hash a) @ ''-'' @ pad6 i"
      and u: "WPath pwd a = u @ ''/'' @ EncodeToString (id_hash a)"
      and v: "WPath pwd' b = v @ ''/'' @ EncodeToString (id_hash b)"
    using WPathSlice_name assms wp by metis
  have len: "length (EncodeToString (id_hash a)) = length (EncodeToString (id_hash b))"
    using assms(1,2) by simp
  have 2: "id_hash a = id_hash b" if "WPath pwd a = WPath pwd' b"
  proof -
    have "EncodeToString (id_hash a) = EncodeToString (id_hash b)"
      by (rule after_last_slash [OF that [unfolded u v]]) (use pl in blast)+
    then show ?thesis by (simp add: EncodeToString_inj)
  qed
  have "WPathSlice pwd i a \<noteq> WPath pwd' b"
  proof
    assume h: "WPathSlice pwd i a = WPath pwd' b"
    have "EncodeToString (id_hash a) @ ''-'' @ pad6 i = EncodeToString (id_hash b)"
      by (rule after_last_slash [OF h [unfolded x v]]) (use pl in blast)+
    then have "length (EncodeToString (id_hash a) @ ''-'' @ pad6 i) = length (EncodeToString (id_hash b))"
      by (rule arg_cong)
    then show False using len by simp
  qed
  with 2 show ?thesis using WPathSlice_eqD [OF assms] by blast
qed

lemma WPathSlice_injective_witness:
  "WPathSlice ''/data'' 1 (NewID ''a'') \<noteq> WPathSlice ''/data'' 2 (NewID ''a'')"
  using WPathSlice_injective [of "NewID ''a''" "NewID ''a''" 1 2 "''/data''" "''/data''"] by (simp add: is_u32_def)

lemma id_unmarshal_fields:
  assumes "oid = NewID p \<or> oid = NewVirtualID p e"
  shows "id_unmarshal [id_path oid, id_ext oid] = (if p = [] then Inl (InvalidID [[], id_ext oid]) else Inr oid)"
  using assms by (elim disjE) (simp_all add: id_unmarshal_def NewID_def NewVirtualID_def Let_def)

text \<open>Identifiers survive their encoding.  When a codec returns what it was given, decoding the encoded form
  of an identifier made from a non-empty path, with or without a virtual key, gives the identifier back,
  hash and cache name included, in JSON and in CBOR; for an empty path decoding fails.\<close>
theorem ID_marshal_roundtrip:
  assumes "oid = NewID p \<or> oid = NewVirtualID p e"
    "MarshalJSON enc oid = Inr b" "dec b = Inr [id_path oid, id_ext oid]"
    "MarshalCBOR enc' oid = Inr b'" "dec' b' = Inr [id_path oid, id_ext oid]"
  shows "UnmarshalJSON dec b = (if p = [] then Inl (InvalidID [[], id_ext oid]) else Inr oid) \<and>
    UnmarshalCBOR dec' b' = (if p = [] then Inl (InvalidID [[], id_ext oid]) else Inr oid)"
  by (simp add: UnmarshalJSON_def UnmarshalCBOR_def assms(3,5) id_unmarshal_fields [OF assms(1)])

lemma ID_marshal_roundtrip_witness:
  "UnmarshalJSON (\<lambda>b. Inr [b, ''k''] :: unit + string list) ''a'' = Inr (NewVirtualID ''a'' ''k'')"
proof -
  let ?oid = "NewVirtualID ''a'' ''k''"
  have f: "id_path ?oid = ''a''" "id_ext ?oid = ''k''" by (simp_all add: NewVirtualID_def Let_def)
  have "UnmarshalJSON (\<lambda>b. Inr [b, ''k''] :: unit + string list) ''a'' =
      (if ''a'' = [] then Inl (InvalidID [[], id_ext ?oid]) else Inr ?oid) \<and>
    UnmarshalCBOR (\<lambda>b. Inr [b, ''k''] :: unit + string list) ''a'' =
      (if ''a'' = [] then Inl (InvalidID [[], id_ext ?oid]) else Inr ?oid)"
    by (rule ID_marshal_roundtrip [where enc = "\<lambda>xs. Inr (xs ! 0)" and enc' = "\<lambda>xs. Inr (xs ! 0)" and e = "''k''"])
      (simp_all add: MarshalJSON_def MarshalCBOR_def f)
  then show ?thesis by simp
qed

text \<open>The hash does not separate path and virtual key: moving characters from one to the other
  gives another identifier with the same hash and so the same files.\<close>
theorem NewVirtualID_collision:
  "id_hash (NewVirtualID (p @ s) k) = id_hash (NewVirtualID p (s @ k)) \<and>
   WPath pwd (NewVirtualID (p @ s) k) = WPath pwd (NewVirtualID p (s @ k)) \<and>
   (NewVirtualID (p @ s) k = NewVirtualID p (s @ k) \<longleftrightarrow> s = [])"
  by (auto simp: NewVirtualID_def WPath_def Let_def)

subsection \<open>Metadata\<close>

lemma mult_div_le: "0 < B \<Longrightarrow> b div B * B \<le> (b :: int)"
  by (simp add: minus_mod_eq_div_mult [symmetric])

lemma ceil_blocks:
  fixes S B i :: int
  assumes "0 < B"
  shows "i * B < S \<longleftrightarrow> i < (if S mod B \<noteq> 0 then S div B + 1 else S div B)"
proof -
  define q r where "q = S div B" and "r = S mod B"
  have S: "S = q * B + r" by (simp add: q_def r_def)
  have r: "0 \<le> r" "r < B" using assms by (simp_all add: r_def)
  show ?thesis
  proof (cases "i \<le> q")
    case True
    have "i * B < S \<longleftrightarrow> i < q \<or> r \<noteq> 0"
    proof (cases "i = q")
      case False
      then have "i * B < q * B" using True assms by (intro mult_strict_right_mono) auto
      then show ?thesis using S r False True by linarith
    qed (use S r in auto)
    then show ?thesis using True by (auto simp: q_def r_def)
  next
    case False
    then have "(q + 1) * B \<le> i * B" using assms by (intro mult_right_mono) auto
    then have "\<not> i * B < S" using S r by (simp add: distrib_right)
    then show ?thesis using False by (auto simp: q_def r_def)
  qed
qed

text \<open>\<open>HasComplete\<close> is right about completeness.  For an object of positive size that is no vary index, with a positive
  block size, and whose chunk bitmap has no bit past its last block, it answers yes exactly when
  the chunk of every byte of the object is present.\<close>
theorem HasComplete_chunks:
  assumes "bitmap_laws bm" "\<not> IsVary m" "0 < md_Size m" "is_u64 (md_Size m)" "0 < BlockSize m"
    "\<forall>i\<in>bm_members bm (Chunks m). i * BlockSize m < md_Size m"
  shows "HasComplete bm m = Some (\<forall>b\<in>{0..<md_Size m}. b div BlockSize m \<in> bm_members bm (Chunks m))"
proof -
  define S B where "S = md_Size m" and "B = BlockSize m"
  define n where "n = (if S mod B \<noteq> 0 then S div B + 1 else S div B)"
  have SB: "0 < S" "S < 2 ^ 64" "0 < B" using assms by (simp_all add: S_def B_def is_u64_def)
  note bm = assms(1) [unfolded bitmap_laws_def, THEN conjunct2, rule_format, of "Chunks m"]
  have blocks: "0 \<le> i \<and> i * B < S \<longleftrightarrow> i \<in> {0..<n}" for i
    using ceil_blocks [OF SB(3), of i S] by (simp add: n_def)
  have sub: "bm_members bm (Chunks m) \<subseteq> {0..<n}"
  proof
    fix i assume i: "i \<in> bm_members bm (Chunks m)"
    then have "0 \<le> i" using bm by (auto simp: bm_members_def is_u32_def)
    then show "i \<in> {0..<n}" using blocks [of i] assms(6) i by (simp add: S_def B_def)
  qed
  have n: "0 \<le> n" "n \<le> S"
  proof -
    show "0 \<le> n" using SB by (simp add: n_def pos_imp_zdiv_nonneg_iff)
    have "\<not> S * B < S" using SB by (simp add: not_less)
    then show "n \<le> S" using ceil_blocks [OF SB(3), of S S] by (simp only: n_def not_less)
  qed
  have count: "bm_Count bm (Chunks m) = int (card (bm_members bm (Chunks m)))"
    using bm by (simp add: bm_members_def distinct_card)
  have "int (card (bm_members bm (Chunks m))) \<le> n"
    using card_mono [OF _ sub] n(1) by simp
  then have "HasComplete bm m = Some (n = int (card (bm_members bm (Chunks m))))"
    using assms(2) SB n
    by (auto simp: HasComplete_def Let_def n_def S_def B_def count u64_id)
  also have "(n = int (card (bm_members bm (Chunks m)))) \<longleftrightarrow> bm_members bm (Chunks m) = {0..<n}"
    using card_subset_eq [OF _ sub] n(1) by auto
  also have "\<dots> \<longleftrightarrow> (\<forall>b\<in>{0..<S}. b div B \<in> bm_members bm (Chunks m))"
  proof
    assume e: "bm_members bm (Chunks m) = {0..<n}"
    show "\<forall>b\<in>{0..<S}. b div B \<in> bm_members bm (Chunks m)"
    proof
      fix b assume "b \<in> {0..<S}"
      then have "0 \<le> b div B \<and> b div B * B < S"
        using SB(3) mult_div_le [of B b] by (auto simp: pos_imp_zdiv_nonneg_iff)
      then show "b div B \<in> bm_members bm (Chunks m)" unfolding e blocks .
    qed
  next
    assume all: "\<forall>b\<in>{0..<S}. b div B \<in> bm_members bm (Chunks m)"
    have "i \<in> bm_members bm (Chunks m)" if "i \<in> {0..<n}" for i
    proof -
      have "i * B \<in> {0..<S}" using that blocks [of i] SB(3) by auto
      then show ?thesis using all SB(3) by fastforce
    qed
    then show "bm_members bm (Chunks m) = {0..<n}" using sub by blast
  qed
  finally show ?thesis by (simp add: S_def B_def)
qed

definition sample_md :: "u32_list Metadata" where
  "sample_md =
     \<lparr>Flags = FlagCache, md_ID = NewID ''a'', BlockSize = 8, Chunks = ul_of [0, 1], Parts = ul_of [], Code = 200,
      md_Size = 10, RespUnix = 0, LastRefUnix = 0, md_Refs = 0, ExpiresAt = 0, Headers = [], VirtualKey = []\<rparr>"

lemma HasComplete_chunks_witness:
  "HasComplete list_bitmap sample_md = Some (\<forall>b\<in>{0..<10}. b div 8 \<in> bm_members list_bitmap (ul_of [0, 1]))"
proof -
  have m: "bm_members list_bitmap (ul_of [0, 1]) = {0, 1}"
    by (simp add: bm_members_def list_bitmap_def ul_list_of is_u32_def)
  have "HasComplete list_bitmap sample_md =
      Some (\<forall>b\<in>{0..<md_Size sample_md}. b div BlockSize sample_md \<in> bm_members list_bitmap (Chunks sample_md))"
    by (rule HasComplete_chunks [OF list_bitmap_laws])
      (simp_all add: sample_md_def m IsVary_def FlagCache_def FlagVaryIndex_def is_u64_def)
  then show ?thesis by (simp add: sample_md_def)
qed

end
