(* ===== verification/Go_Binary.thy ===== *)
theory Go_Binary
  imports Tavern_Prelude "HOL-Library.List_Lexorder" "HOL-Library.Char_ord"
begin

text \<open>
  Package \<^verbatim>\<open>encoding/binary\<close> of Go, as far as the repository uses it: fixed-width unsigned integers in
  big and little endian order, as lists of bytes.  Reading from a slice that is too short panics,
  which is \<open>None\<close>.  Byte strings are ordered as \<^verbatim>\<open>bytes.Compare\<close> orders them, the order of
  HOL-Library's lexicographic lists over characters.
\<close>

definition byte_of :: "int \<Rightarrow> byte" where
  "byte_of x = char_of (nat (x mod 256))"

fun le_bytes :: "nat \<Rightarrow> int \<Rightarrow> bytes" where
  "le_bytes 0 x = []"
| "le_bytes (Suc n) x = byte_of x # le_bytes n (x div 256)"

fun le_val :: "bytes \<Rightarrow> int" where
  "le_val [] = 0"
| "le_val (c # cs) = int (of_char c) + 256 * le_val cs"

definition BE_PutUint32 :: "int \<Rightarrow> bytes" where
  "BE_PutUint32 x = rev (le_bytes 4 x)"

definition BE_Uint32 :: "bytes \<Rightarrow> int option" where
  "BE_Uint32 b = (if length b < 4 then None else Some (le_val (rev (take 4 b))))"

definition LE_AppendUint64 :: "bytes \<Rightarrow> int \<Rightarrow> bytes" where
  "LE_AppendUint64 b x = b @ le_bytes 8 x"

definition LE_Uint64 :: "bytes \<Rightarrow> int option" where
  "LE_Uint64 b = (if length b < 8 then None else Some (le_val (take 8 b)))"

lemma of_char_byte_of [simp]: "int (of_char (byte_of x)) = x mod 256"
  by (simp add: byte_of_def of_char_of nat_mod_distrib)

lemma length_le_bytes [simp]: "length (le_bytes n x) = n"
  by (induction n arbitrary: x) auto

lemma le_val_le_bytes [simp]: "le_val (le_bytes n x) = x mod 256 ^ n"
proof (induction n arbitrary: x)
  case (Suc n)
  have "x mod (256 * 256 ^ n) = 256 * (x div 256 mod 256 ^ n) + x mod 256"
    using zmod_zmult2_eq [of "256 ^ n" x 256] by simp
  then show ?case using Suc by simp
qed simp

lemma le_val_range: "0 \<le> le_val cs \<and> le_val cs < 256 ^ length cs"
proof (induction cs)
  case (Cons c cs)
  have "(of_char c :: nat) < 256" by simp
  then have "int (of_char c) + 256 * le_val cs < 256 * 256 ^ length cs" using Cons by linarith
  then show ?case using Cons by simp
qed simp

lemma BE_roundtrip [simp]: "is_u32 x \<Longrightarrow> BE_Uint32 (BE_PutUint32 x) = Some x"
  by (simp add: BE_Uint32_def BE_PutUint32_def is_u32_def)

lemma LE_roundtrip [simp]: "is_u64 x \<Longrightarrow> LE_Uint64 (LE_AppendUint64 [] x) = Some x"
  by (simp add: LE_Uint64_def LE_AppendUint64_def is_u64_def)

lemma length_LE [simp]: "length (LE_AppendUint64 b x) = length b + 8"
  by (simp add: LE_AppendUint64_def)

lemma BE_Uint32_range: "BE_Uint32 b = Some x \<Longrightarrow> is_u32 x"
  using le_val_range [of "rev (take 4 b)"] by (auto simp: BE_Uint32_def is_u32_def split: if_splits)

end
