(* ===== verification/Shared_KV.thy ===== *)
theory Shared_KV
  imports Go_Binary Go_Std "HOL-Library.Monad_Syntax"
begin

text \<open>
  The shared key-value store of \<^verbatim>\<open>src/storage/sharedkv\<close>: \<open>noneSharedKV\<close> (\<^verbatim>\<open>nonekv.go\<close>) over the
  third-party database Pebble, which also serves the in-memory and the on-disk store (\<^verbatim>\<open>memkv.go\<close>,
  \<^verbatim>\<open>storekv.go\<close>), and the empty store (\<^verbatim>\<open>empty.go\<close>).  Pebble is a parameter: a record of the
  operations the code calls, with the locale \<open>pebble\<close> for their documented behaviour on a healthy
  database.  The locale \<open>shared_kv\<close> is the contract the users of a \<^verbatim>\<open>storage.SharedKV\<close> rely on; it is
  derived from the one of Pebble.
\<close>

subsection \<open>Pebble\<close>

datatype pb_err = PbNotFound | PbOther

record ('db, 'b) pebble_ops =
  pb_Get :: "'db \<Rightarrow> bytes \<Rightarrow> pb_err + bytes"
  pb_Set :: "bytes \<Rightarrow> bytes \<Rightarrow> 'db \<Rightarrow> pb_err option \<times> 'db"
  pb_Delete :: "bytes \<Rightarrow> 'db \<Rightarrow> pb_err option \<times> 'db"
  pb_DeleteRange :: "bytes \<Rightarrow> bytes \<Rightarrow> 'db \<Rightarrow> pb_err option \<times> 'db"
  pb_Iter :: "bytes \<Rightarrow> bytes option \<Rightarrow> 'db \<Rightarrow> pb_err + (bytes \<times> (pb_err + bytes)) list"
  pb_Close :: "'db \<Rightarrow> pb_err option \<times> 'db"
  pb_NewIndexedBatch :: "'db \<Rightarrow> 'b"
  bt_Get :: "'b \<Rightarrow> bytes \<Rightarrow> pb_err + bytes"
  bt_Set :: "bytes \<Rightarrow> bytes \<Rightarrow> 'b \<Rightarrow> pb_err option \<times> 'b"
  bt_Commit :: "'b \<Rightarrow> 'db \<Rightarrow> pb_err option \<times> 'db"

subsection \<open>The store over Pebble\<close>

datatype kv_err = ErrKeyNotFound | ErrSharedKVKeyNotFound | KvPebble pb_err | KvPanic

record 'db noneSharedKV =
  kv_db :: 'db
  kv_closed :: bool

definition newNoneKV :: "(string \<Rightarrow> pb_err + 'db) \<Rightarrow> string \<Rightarrow> pb_err + 'db noneSharedKV" where
  "newNoneKV open storePath =
     (case open storePath of Inl e \<Rightarrow> Inl e | Inr db \<Rightarrow> Inr \<lparr>kv_db = db, kv_closed = False\<rparr>)"

text \<open>\<open>NewMemSharedKV\<close> and \<open>NewStoreSharedKV\<close> panic when the database cannot be opened.\<close>

definition NewMemSharedKV :: "(string \<Rightarrow> pb_err + 'db) \<Rightarrow> kv_err + 'db noneSharedKV" where
  "NewMemSharedKV open = (case newNoneKV open [] of Inl _ \<Rightarrow> Inl KvPanic | Inr kv \<Rightarrow> Inr kv)"

definition NewStoreSharedKV :: "(string \<Rightarrow> pb_err + 'db) \<Rightarrow> string \<Rightarrow> kv_err + 'db noneSharedKV" where
  "NewStoreSharedKV open storePath = (case newNoneKV open storePath of Inl _ \<Rightarrow> Inl KvPanic | Inr kv \<Rightarrow> Inr kv)"

definition kv_result :: "pb_err option \<times> 'db \<Rightarrow> 'db noneSharedKV \<Rightarrow> kv_err option \<times> 'db noneSharedKV" where
  "kv_result r kv = (map_option KvPebble (fst r), kv\<lparr>kv_db := snd r\<rparr>)"

definition kv_Close :: "('db, 'b) pebble_ops \<Rightarrow> 'db noneSharedKV \<Rightarrow> kv_err option \<times> 'db noneSharedKV" where
  "kv_Close P kv =
     (if kv_closed kv then (None, kv) else kv_result (pb_Close P (kv_db kv)) (kv\<lparr>kv_closed := True\<rparr>))"

definition kv_Get :: "('db, 'b) pebble_ops \<Rightarrow> bytes \<Rightarrow> 'db noneSharedKV \<Rightarrow> kv_err + bytes" where
  "kv_Get P key kv =
     (case pb_Get P (kv_db kv) key of
        Inl e \<Rightarrow> if e = PbNotFound then Inl ErrKeyNotFound else Inl (KvPebble e)
      | Inr val \<Rightarrow> Inr val)"

definition kv_Set :: "('db, 'b) pebble_ops \<Rightarrow> bytes \<Rightarrow> bytes \<Rightarrow> 'db noneSharedKV \<Rightarrow> kv_err option \<times> 'db noneSharedKV" where
  "kv_Set P key val kv = kv_result (pb_Set P key val (kv_db kv)) kv"

text \<open>The part that \<open>Incr\<close> and \<open>Decr\<close> share: read the counter, write back what \<open>f\<close> makes of it.\<close>

definition batch_counter :: "('db, 'b) pebble_ops \<Rightarrow> (int \<Rightarrow> int) \<Rightarrow> bytes \<Rightarrow> 'db noneSharedKV \<Rightarrow>
    (kv_err + int) \<times> 'db noneSharedKV" where
  "batch_counter P f key kv =
     (let batch = pb_NewIndexedBatch P (kv_db kv);
          val = (case bt_Get P batch key of Inl _ \<Rightarrow> replicate 4 (CHR 0x00) | Inr val \<Rightarrow> val)
      in case BE_Uint32 val of
           None \<Rightarrow> (Inl KvPanic, kv)
         | Some counter \<Rightarrow>
             let counter = f counter;
                 (err1, batch) = bt_Set P key (BE_PutUint32 counter) batch
             in case err1 of
                  Some e \<Rightarrow> (Inl (KvPebble e), kv)
                | None \<Rightarrow>
                    let (err1, db) = bt_Commit P batch (kv_db kv)
                    in case err1 of
                         Some e \<Rightarrow> (Inl (KvPebble e), kv\<lparr>kv_db := db\<rparr>)
                       | None \<Rightarrow> (Inr counter, kv\<lparr>kv_db := db\<rparr>))"

definition kv_Incr :: "('db, 'b) pebble_ops \<Rightarrow> bytes \<Rightarrow> int \<Rightarrow> 'db noneSharedKV \<Rightarrow>
    (kv_err + int) \<times> 'db noneSharedKV" where
  "kv_Incr P key delta = batch_counter P (\<lambda>counter. u32 (counter + delta)) key"

definition kv_Decr :: "('db, 'b) pebble_ops \<Rightarrow> bytes \<Rightarrow> int \<Rightarrow> 'db noneSharedKV \<Rightarrow>
    (kv_err + int) \<times> 'db noneSharedKV" where
  "kv_Decr P key delta =
     batch_counter P (\<lambda>counter. if counter > delta then u32 (counter - delta) else 0) key"

definition kv_GetCounter :: "('db, 'b) pebble_ops \<Rightarrow> bytes \<Rightarrow> 'db noneSharedKV \<Rightarrow> kv_err + int" where
  "kv_GetCounter P key kv =
     (case pb_Get P (kv_db kv) key of
        Inl e \<Rightarrow> Inl (KvPebble e)
      | Inr val \<Rightarrow> (case BE_Uint32 val of None \<Rightarrow> Inl KvPanic | Some c \<Rightarrow> Inr c))"

definition kv_Delete :: "('db, 'b) pebble_ops \<Rightarrow> bytes \<Rightarrow> 'db noneSharedKV \<Rightarrow> kv_err option \<times> 'db noneSharedKV" where
  "kv_Delete P key kv = kv_result (pb_Delete P key (kv_db kv)) kv"

definition inc_byte :: "byte \<Rightarrow> byte" where
  "inc_byte c = byte_of (int (of_char c) + 1)"

definition kv_DropPrefix :: "('db, 'b) pebble_ops \<Rightarrow> bytes \<Rightarrow> 'db noneSharedKV \<Rightarrow> kv_err option \<times> 'db noneSharedKV" where
  "kv_DropPrefix P prefix kv =
     (if prefix = [] then (Some KvPanic, kv)
      else
        let end' = prefix[length prefix - 1 := inc_byte (prefix ! (length prefix - 1))]
        in kv_result (pb_DeleteRange P prefix end' (kv_db kv)) kv)"

fun upper_loop :: "bytes \<Rightarrow> nat \<Rightarrow> bytes option" where
  "upper_loop e 0 = None"
| "upper_loop e (Suc i) =
     (let e = e[i := inc_byte (e ! i)] in
      if e ! i \<noteq> CHR 0x00 then Some (take (i + 1) e) else upper_loop e i)"

definition keyUpperBound :: "bytes \<Rightarrow> bytes option" where
  "keyUpperBound b = upper_loop b (length b)"

text \<open>The callback works on a state of its own; its errors are skipped, as are unreadable values.\<close>

fun iter_loop :: "(bytes \<Rightarrow> bytes \<Rightarrow> 's \<Rightarrow> kv_err option \<times> 's) \<Rightarrow> (bytes \<times> (pb_err + bytes)) list \<Rightarrow> 's \<Rightarrow> 's" where
  "iter_loop f [] s = s"
| "iter_loop f ((key, value) # es) s =
     (case value of Inl _ \<Rightarrow> iter_loop f es s | Inr v \<Rightarrow> iter_loop f es (snd (f key v s)))"

definition kv_Iterate :: "('db, 'b) pebble_ops \<Rightarrow> (bytes \<Rightarrow> bytes \<Rightarrow> 's \<Rightarrow> kv_err option \<times> 's) \<Rightarrow>
    'db noneSharedKV \<Rightarrow> 's \<Rightarrow> kv_err option \<times> 's" where
  "kv_Iterate P f kv s =
     (case pb_Iter P [] None (kv_db kv) of Inl e \<Rightarrow> (Some (KvPebble e), s) | Inr es \<Rightarrow> (None, iter_loop f es s))"

definition kv_IteratePrefix :: "('db, 'b) pebble_ops \<Rightarrow> bytes \<Rightarrow> (bytes \<Rightarrow> bytes \<Rightarrow> 's \<Rightarrow> kv_err option \<times> 's) \<Rightarrow>
    'db noneSharedKV \<Rightarrow> 's \<Rightarrow> kv_err option \<times> 's" where
  "kv_IteratePrefix P prefix f kv s =
     (case pb_Iter P prefix (keyUpperBound prefix) (kv_db kv) of
        Inl e \<Rightarrow> (Some (KvPebble e), s) | Inr es \<Rightarrow> (None, iter_loop f es s))"

subsection \<open>The empty store\<close>

datatype emptySharedKV = EmptySharedKV

definition NewEmpty :: emptySharedKV where
  "NewEmpty = EmptySharedKV"

definition empty_Close :: "emptySharedKV \<Rightarrow> kv_err option" where
  "empty_Close e = None"

definition empty_Decr :: "bytes \<Rightarrow> int \<Rightarrow> emptySharedKV \<Rightarrow> kv_err + int" where
  "empty_Decr key delta e = Inr 0"

definition empty_Delete :: "bytes \<Rightarrow> emptySharedKV \<Rightarrow> kv_err option" where
  "empty_Delete key e = None"

definition empty_DropPrefix :: "bytes \<Rightarrow> emptySharedKV \<Rightarrow> kv_err option" where
  "empty_DropPrefix prefix e = None"

definition empty_Get :: "bytes \<Rightarrow> emptySharedKV \<Rightarrow> kv_err + bytes" where
  "empty_Get key e = Inl ErrSharedKVKeyNotFound"

definition empty_GetCounter :: "bytes \<Rightarrow> emptySharedKV \<Rightarrow> kv_err + int" where
  "empty_GetCounter key e = Inl ErrSharedKVKeyNotFound"

definition empty_Incr :: "bytes \<Rightarrow> int \<Rightarrow> emptySharedKV \<Rightarrow> kv_err + int" where
  "empty_Incr key delta e = Inl ErrSharedKVKeyNotFound"

definition empty_Iterate :: "(bytes \<Rightarrow> bytes \<Rightarrow> 's \<Rightarrow> kv_err option \<times> 's) \<Rightarrow> emptySharedKV \<Rightarrow> 's \<Rightarrow> kv_err option \<times> 's" where
  "empty_Iterate f e s = (None, s)"

definition empty_IteratePrefix :: "bytes \<Rightarrow> (bytes \<Rightarrow> bytes \<Rightarrow> 's \<Rightarrow> kv_err option \<times> 's) \<Rightarrow> emptySharedKV \<Rightarrow> 's \<Rightarrow>
    kv_err option \<times> 's" where
  "empty_IteratePrefix prefix f e s = (None, s)"

definition empty_Set :: "bytes \<Rightarrow> bytes \<Rightarrow> emptySharedKV \<Rightarrow> kv_err option" where
  "empty_Set key val e = None"

subsection \<open>The upper bound of a prefix\<close>

lemma of_char_255: "(of_char c :: nat) = 255 \<longleftrightarrow> c = CHR 0xFF"
proof
  assume "(of_char c :: nat) = 255"
  then have "(of_char c :: nat) = of_char (CHR 0xFF)" by simp
  then show "c = CHR 0xFF" by (simp only: of_char_eq_iff)
qed simp

lemma byte_succ:
  assumes "m < 256" "int k = (int m + 1) mod 256"
  shows "k = (if m = 255 then 0 else m + 1)"
  using assms by (cases "m = 255") (auto simp: mod_pos_pos_trivial)

lemma of_char_inc_byte: "(of_char (inc_byte c) :: nat) = (if c = CHR 0xFF then 0 else of_char c + 1)"
  using byte_succ [of "of_char c" "of_char (inc_byte c)"] of_char_255 [of c] by (simp add: inc_byte_def)

lemma inc_byte_0: "inc_byte c = CHR 0x00 \<longleftrightarrow> c = CHR 0xFF"
proof -
  have "inc_byte c = CHR 0x00 \<longleftrightarrow> (of_char (inc_byte c) :: nat) = of_char (CHR 0x00)"
    by (simp only: of_char_eq_iff)
  then show ?thesis by (simp add: of_char_inc_byte)
qed

lemma less_inc_byte: "c \<noteq> CHR 0xFF \<Longrightarrow> d < inc_byte c \<longleftrightarrow> d \<le> c"
  by (simp add: less_char_def less_eq_char_def of_char_inc_byte less_Suc_eq_le)

lemma upper_loop_snoc:
  "upper_loop (p @ c # r) (Suc (length p)) =
     (if c = CHR 0xFF then upper_loop (p @ CHR 0x00 # r) (length p) else Some (p @ [inc_byte c]))"
  using inc_byte_0 [of c] by (auto simp: Let_def nth_append list_update_append)

lemma upper_loop_rest: "upper_loop (p @ r) (length p) = upper_loop p (length p)"
proof (induction p arbitrary: r rule: rev_induct)
  case (snoc c p)
  have "upper_loop (p @ CHR 0x00 # r) (length p) = upper_loop (p @ [CHR 0x00]) (length p)"
    using snoc [of "CHR 0x00 # r"] snoc [of "[CHR 0x00]"] by simp
  then show ?case using upper_loop_snoc [of p c r] upper_loop_snoc [of p c "[]"] by simp
qed simp

lemma keyUpperBound_Nil: "keyUpperBound [] = None"
  by (simp add: keyUpperBound_def)

lemma keyUpperBound_snoc:
  "keyUpperBound (p @ [c]) = (if c = CHR 0xFF then keyUpperBound p else Some (p @ [inc_byte c]))"
  using upper_loop_snoc [of p c "[]"] upper_loop_rest [of p "[CHR 0x00]"] by (simp add: keyUpperBound_def)

definition below :: "bytes \<Rightarrow> bytes option \<Rightarrow> bool" where
  "below k u \<longleftrightarrow> (case u of None \<Rightarrow> True | Some u \<Rightarrow> k < u)"

lemma range_snoc: "c \<noteq> CHR 0xFF \<Longrightarrow> p @ [c] \<le> k \<and> k < p @ [inc_byte c] \<longleftrightarrow> HasPrefix k (p @ [c])"
proof (induction p arbitrary: k)
  case Nil
  then show ?case by (cases k) (auto simp: less_inc_byte)
next
  case (Cons a p)
  show ?case
  proof (cases k)
    case (Cons b ks)
    then show ?thesis
      using Cons.IH [OF Cons.prems, of ks] less_asym [of a b] by (cases "a = b") auto
  qed simp
qed

lemma append_le_append: "p @ xs \<le> p @ ys \<longleftrightarrow> xs \<le> (ys :: bytes)"
  by (induction p) auto

lemma prefix_le: "p \<le> p @ (xs :: bytes)"
  by (induction p) auto

lemma prefix_range: "prefix \<le> k \<and> below k (keyUpperBound prefix) \<longleftrightarrow> HasPrefix k prefix"
proof (induction prefix rule: rev_induct)
  case Nil
  show ?case by (simp add: keyUpperBound_Nil below_def)
next
  case (snoc c p)
  show ?case
  proof (cases "c = CHR 0xFF")
    case False
    then show ?thesis using range_snoc by (simp add: keyUpperBound_snoc below_def)
  next
    case True
    have top: "[CHR 0xFF] \<le> r \<longleftrightarrow> HasPrefix r [CHR 0xFF]" for r
    proof (cases r)
      case (Cons d s)
      have "\<not> CHR 0xFF < d"
      proof -
        have "(of_char d :: nat) < 256" by simp
        then have "\<not> 255 < (of_char d :: nat)" by linarith
        then show ?thesis by (simp add: less_char_def)
      qed
      then show ?thesis using Cons by auto
    qed simp
    have "p @ [c] \<le> k \<and> below k (keyUpperBound p) \<longleftrightarrow> HasPrefix k (p @ [c])"
    proof
      assume h: "p @ [c] \<le> k \<and> below k (keyUpperBound p)"
      then have "p \<le> k" using prefix_le order_trans by blast
      then have "HasPrefix k p" using snoc h by blast
      then obtain r where r: "k = p @ r" by (metis HasPrefix_def append_take_drop_id)
      then have "HasPrefix r [c]" using h top True by (simp add: append_le_append)
      then show "HasPrefix k (p @ [c])" using r by (simp add: HasPrefix_def)
    next
      assume "HasPrefix k (p @ [c])"
      then obtain r where r: "k = (p @ [c]) @ r" by (metis HasPrefix_def append_take_drop_id)
      then show "p @ [c] \<le> k \<and> below k (keyUpperBound p)"
        using snoc prefix_le [of "p @ [c]" r] by simp
    qed
    then show ?thesis using True by (simp add: keyUpperBound_snoc)
  qed
qed

subsection \<open>Contracts\<close>

text \<open>What Pebble documents of its operations, for a database that is open and meets no I/O error.\<close>

locale pebble =
  fixes P :: "('db, 'b) pebble_ops"
    and cont :: "'db \<Rightarrow> (bytes \<rightharpoonup> bytes)"
  assumes pb_get: "pb_Get P db k = (case cont db k of None \<Rightarrow> Inl PbNotFound | Some v \<Rightarrow> Inr v)"
    and pb_set: "\<exists>db'. pb_Set P k v db = (None, db') \<and> cont db' = (cont db)(k \<mapsto> v)"
    and pb_delete: "\<exists>db'. pb_Delete P k db = (None, db') \<and> cont db' = (cont db)(k := None)"
    and pb_delete_range: "\<exists>db'. pb_DeleteRange P a b db = (None, db') \<and>
      cont db' = (\<lambda>k. if a \<le> k \<and> k < b then None else cont db k)"
    and pb_iter: "\<exists>es. pb_Iter P lo hi db = Inr (map (\<lambda>(k, v). (k, Inr v)) es) \<and>
      sorted_wrt (<) (map fst es) \<and>
      (\<forall>k v. (k, v) \<in> set es \<longleftrightarrow> lo \<le> k \<and> below k hi \<and> cont db k = Some v)"
    and pb_batch_get: "bt_Get P (pb_NewIndexedBatch P db) k = pb_Get P db k"
    and pb_batch_set: "\<exists>b. bt_Set P k v (pb_NewIndexedBatch P db) = (None, b) \<and>
      (\<exists>db'. bt_Commit P b db = (None, db') \<and> cont db' = (cont db)(k \<mapsto> v))"

text \<open>The operations of a \<^verbatim>\<open>storage.SharedKV\<close>, and what its users rely on.\<close>

record ('s, 'c) shared_kv_ops =
  sk_Close :: "'s \<Rightarrow> kv_err option \<times> 's"
  sk_Get :: "bytes \<Rightarrow> 's \<Rightarrow> kv_err + bytes"
  sk_Set :: "bytes \<Rightarrow> bytes \<Rightarrow> 's \<Rightarrow> kv_err option \<times> 's"
  sk_Incr :: "bytes \<Rightarrow> int \<Rightarrow> 's \<Rightarrow> (kv_err + int) \<times> 's"
  sk_Decr :: "bytes \<Rightarrow> int \<Rightarrow> 's \<Rightarrow> (kv_err + int) \<times> 's"
  sk_GetCounter :: "bytes \<Rightarrow> 's \<Rightarrow> kv_err + int"
  sk_Delete :: "bytes \<Rightarrow> 's \<Rightarrow> kv_err option \<times> 's"
  sk_DropPrefix :: "bytes \<Rightarrow> 's \<Rightarrow> kv_err option \<times> 's"
  sk_Iterate :: "(bytes \<Rightarrow> bytes \<Rightarrow> 'c \<Rightarrow> kv_err option \<times> 'c) \<Rightarrow> 's \<Rightarrow> 'c \<Rightarrow> kv_err option \<times> 'c"
  sk_IteratePrefix :: "bytes \<Rightarrow> (bytes \<Rightarrow> bytes \<Rightarrow> 'c \<Rightarrow> kv_err option \<times> 'c) \<Rightarrow> 's \<Rightarrow> 'c \<Rightarrow> kv_err option \<times> 'c"

locale shared_kv =
  fixes K :: "('s, 'c) shared_kv_ops"
    and content :: "'s \<Rightarrow> (bytes \<rightharpoonup> bytes)"
  assumes kv_get: "content s k = Some v \<Longrightarrow> sk_Get K k s = Inr v"
    and kv_get_none: "content s k = None \<Longrightarrow> sk_Get K k s = Inl ErrKeyNotFound"
    and kv_set: "\<exists>s'. sk_Set K k v s = (None, s') \<and> content s' = (content s)(k \<mapsto> v)"
    and kv_delete: "\<exists>s'. sk_Delete K k s = (None, s') \<and> content s' = (content s)(k := None)"
    and kv_prefix: "\<exists>es. sk_IteratePrefix K p f s c = (None, fold (\<lambda>(k, v) c. snd (f k v c)) es c) \<and>
      sorted_wrt (<) (map fst es) \<and>
      (\<forall>k v. (k, v) \<in> set es \<longleftrightarrow> HasPrefix k p \<and> content s k = Some v)"
    and kv_incr: "k' \<noteq> k \<Longrightarrow> content (snd (sk_Incr K k d s)) k' = content s k'"
    and kv_decr: "k' \<noteq> k \<Longrightarrow> content (snd (sk_Decr K k d s)) k' = content s k'"

definition none_kv :: "('db, 'b) pebble_ops \<Rightarrow> ('db noneSharedKV, 'c) shared_kv_ops" where
  "none_kv P = \<lparr>sk_Close = kv_Close P, sk_Get = kv_Get P, sk_Set = kv_Set P, sk_Incr = kv_Incr P,
     sk_Decr = kv_Decr P, sk_GetCounter = kv_GetCounter P, sk_Delete = kv_Delete P,
     sk_DropPrefix = kv_DropPrefix P, sk_Iterate = kv_Iterate P,
     sk_IteratePrefix = kv_IteratePrefix P\<rparr>"

lemma iter_loop_fold:
  "iter_loop f (map (\<lambda>(k, v). (k, Inr v)) es) s = fold (\<lambda>(k, v) c. snd (f k v c)) es s"
  by (induction es arbitrary: s) auto

context pebble
begin

lemma Get_cont:
  "kv_Get P k kv = (case cont (kv_db kv) k of None \<Rightarrow> Inl ErrKeyNotFound | Some v \<Rightarrow> Inr v)"
  by (simp add: kv_Get_def pb_get split: option.split)

lemma Set_cont: "\<exists>kv'. kv_Set P k v kv = (None, kv') \<and> cont (kv_db kv') = (cont (kv_db kv))(k \<mapsto> v)"
  using pb_set [of k v "kv_db kv"] by (auto simp: kv_Set_def kv_result_def)

lemma Delete_cont: "\<exists>kv'. kv_Delete P k kv = (None, kv') \<and> cont (kv_db kv') = (cont (kv_db kv))(k := None)"
  using pb_delete [of k "kv_db kv"] by (auto simp: kv_Delete_def kv_result_def)

lemma IteratePrefix_cont:
  "\<exists>es. kv_IteratePrefix P p f kv c = (None, fold (\<lambda>(k, v) c. snd (f k v c)) es c) \<and>
     sorted_wrt (<) (map fst es) \<and>
     (\<forall>k v. (k, v) \<in> set es \<longleftrightarrow> HasPrefix k p \<and> cont (kv_db kv) k = Some v)"
proof -
  obtain es where es: "pb_Iter P p (keyUpperBound p) (kv_db kv) = Inr (map (\<lambda>(k, v). (k, Inr v)) es)"
      "sorted_wrt (<) (map fst es)"
      "\<forall>k v. (k, v) \<in> set es \<longleftrightarrow> p \<le> k \<and> below k (keyUpperBound p) \<and> cont (kv_db kv) k = Some v"
    using pb_iter [of p "keyUpperBound p" "kv_db kv"] by blast
  then have "\<forall>k v. (k, v) \<in> set es \<longleftrightarrow> HasPrefix k p \<and> cont (kv_db kv) k = Some v"
    using prefix_range [of p] by blast
  then show ?thesis using es by (auto simp: kv_IteratePrefix_def iter_loop_fold)
qed

lemma DropPrefix_cont:
  assumes "prefix \<noteq> []"
  shows "\<exists>kv'. kv_DropPrefix P prefix kv = (None, kv') \<and>
    (\<forall>k. cont (kv_db kv') k =
       (if HasPrefix k prefix \<and> last prefix \<noteq> CHR 0xFF then None else cont (kv_db kv) k))"
proof -
  obtain p c where p: "prefix = p @ [c]" using assms by (metis append_butlast_last_id)
  have e: "prefix[length prefix - 1 := inc_byte (prefix ! (length prefix - 1))] = p @ [inc_byte c]"
    by (simp add: p list_update_append nth_append)
  have range: "p @ [c] \<le> k \<and> k < p @ [inc_byte c] \<longleftrightarrow> HasPrefix k (p @ [c]) \<and> c \<noteq> CHR 0xFF" for k
  proof (cases "c = CHR 0xFF")
    case True
    then have "p @ [inc_byte c] \<le> p @ [c]"
      using inc_byte_0 [of c] by (simp add: append_le_append less_char_def)
    then show ?thesis using True by (meson leD order_trans)
  qed (use range_snoc in blast)
  obtain db' where "pb_DeleteRange P prefix (p @ [inc_byte c]) (kv_db kv) = (None, db')"
      "cont db' = (\<lambda>k. if HasPrefix k prefix \<and> c \<noteq> CHR 0xFF then None else cont (kv_db kv) k)"
    using pb_delete_range [of prefix "p @ [inc_byte c]" "kv_db kv"] unfolding p range by blast
  then show ?thesis
    using assms p unfolding kv_DropPrefix_def Let_def e by (simp add: kv_result_def)
qed

lemma batch_counter_cont:
  assumes "case cont (kv_db kv) key of None \<Rightarrow> c = 0 | Some v \<Rightarrow> BE_Uint32 v = Some c"
  shows "\<exists>kv'. batch_counter P f key kv = (Inr (f c), kv') \<and>
    cont (kv_db kv') = (cont (kv_db kv))(key \<mapsto> BE_PutUint32 (f c))"
proof -
  have "BE_Uint32 (case bt_Get P (pb_NewIndexedBatch P (kv_db kv)) key of
      Inl _ \<Rightarrow> replicate 4 (CHR 0x00) | Inr val \<Rightarrow> val) = Some c"
    using assms by (auto simp: pb_batch_get pb_get BE_Uint32_def eval_nat_numeral split: option.splits)
  then show ?thesis
    using pb_batch_set [of key "BE_PutUint32 (f c)" "kv_db kv"]
    by (auto simp: batch_counter_def Let_def)
qed

lemma batch_counter_others:
  assumes "k \<noteq> key"
  shows "cont (kv_db (snd (batch_counter P f key kv))) k = cont (kv_db kv) k"
proof (cases "BE_Uint32 (case bt_Get P (pb_NewIndexedBatch P (kv_db kv)) key of
    Inl _ \<Rightarrow> replicate 4 (CHR 0x00) | Inr val \<Rightarrow> val)")
  case (Some c)
  then show ?thesis
    using assms pb_batch_set [of key "BE_PutUint32 (f c)" "kv_db kv"] by (auto simp: batch_counter_def Let_def)
qed (simp add: batch_counter_def Let_def)

lemma GetCounter_cont:
  "kv_GetCounter P key kv = (case cont (kv_db kv) key of None \<Rightarrow> Inl (KvPebble PbNotFound)
     | Some v \<Rightarrow> (case BE_Uint32 v of None \<Rightarrow> Inl KvPanic | Some c \<Rightarrow> Inr c))"
  by (simp add: kv_GetCounter_def pb_get split: option.split)

end

lemma none_kv_shared:
  assumes "pebble P cont"
  shows "shared_kv (none_kv P) (\<lambda>kv. cont (kv_db kv))"
  by unfold_locales
    (simp_all add: none_kv_def pebble.Get_cont [OF assms] pebble.Set_cont [OF assms]
      pebble.Delete_cont [OF assms] pebble.IteratePrefix_cont [OF assms] kv_Incr_def kv_Decr_def
      pebble.batch_counter_others [OF assms])

sublocale pebble \<subseteq> none: shared_kv "none_kv P" "\<lambda>kv. cont (kv_db kv)"
  by (rule none_kv_shared) (rule pebble_axioms)

text \<open>An association list is a database: the contract of Pebble can be met.\<close>

definition list_pebble :: "((bytes \<times> bytes) list, bytes \<times> bytes \<times> (bytes \<times> bytes) list) pebble_ops" where
  "list_pebble =
     \<lparr>pb_Get = (\<lambda>db k. case map_of db k of None \<Rightarrow> Inl PbNotFound | Some v \<Rightarrow> Inr v),
      pb_Set = (\<lambda>k v db. (None, (k, v) # db)),
      pb_Delete = (\<lambda>k db. (None, filter (\<lambda>e. fst e \<noteq> k) db)),
      pb_DeleteRange = (\<lambda>a b db. (None, filter (\<lambda>e. \<not> (a \<le> fst e \<and> fst e < b)) db)),
      pb_Iter = (\<lambda>lo hi db. Inr (map (\<lambda>k. (k, Inr (the (map_of db k))))
                   (filter (\<lambda>k. lo \<le> k \<and> below k hi) (sort (remdups (map fst db)))))),
      pb_Close = (\<lambda>db. (None, db)),
      pb_NewIndexedBatch = (\<lambda>db. ([], [], db)),
      bt_Get = (\<lambda>(_, _, db) k. case map_of db k of None \<Rightarrow> Inl PbNotFound | Some v \<Rightarrow> Inr v),
      bt_Set = (\<lambda>k v (_, _, db). (None, (k, v, db))),
      bt_Commit = (\<lambda>(k, v, _) db. (None, (k, v) # db))\<rparr>"

lemma map_of_filter_fst: "map_of (filter (\<lambda>e. Q (fst e)) es) k = (if Q k then map_of es k else None)"
  by (induction es) auto

interpretation list_db: pebble list_pebble map_of
proof
  fix db :: "(bytes \<times> bytes) list" and lo hi
  define ks where "ks = filter (\<lambda>k. lo \<le> k \<and> below k hi) (sort (remdups (map fst db)))"
  define es where "es = map (\<lambda>k. (k, the (map_of db k))) ks"
  have "sorted_wrt (<) (sort (remdups (map fst db)))"
    using strict_sorted_iff [of "sort (remdups (map fst db))"] by simp
  then have "sorted_wrt (<) ks" unfolding ks_def by (rule sorted_wrt_filter)
  moreover have "k \<in> fst ` set db \<longleftrightarrow> (\<exists>v. map_of db k = Some v)" for k
    using map_of_eq_None_iff [of db k] by auto
  ultimately show "\<exists>es. pb_Iter list_pebble lo hi db = Inr (map (\<lambda>(k, v). (k, Inr v)) es) \<and>
      sorted_wrt (<) (map fst es) \<and>
      (\<forall>k v. (k, v) \<in> set es \<longleftrightarrow> lo \<le> k \<and> below k hi \<and> map_of db k = Some v)"
    by (intro exI [of _ es]) (auto simp: list_pebble_def es_def ks_def comp_def)
qed (simp_all add: list_pebble_def fun_eq_iff map_of_filter_fst [where Q = "\<lambda>x. x \<noteq> k" for k]
      map_of_filter_fst [where Q = "\<lambda>x. a \<le> x \<longrightarrow> \<not> x < b" for a b])

subsection \<open>Properties\<close>

text \<open>The upper bound that \<open>IteratePrefix\<close> computes is right for every prefix: in the byte order, the
  keys from the prefix up to the bound are exactly those that start with the prefix.  This covers
  a prefix that ends in bytes \<open>0xFF\<close>, which are dropped from the bound, and one of such bytes
  only, which has no bound.\<close>
theorem keyUpperBound_prefix:
  "prefix \<le> k \<and> (case keyUpperBound prefix of None \<Rightarrow> True | Some u \<Rightarrow> k < u) \<longleftrightarrow> HasPrefix k prefix"
  using prefix_range by (simp add: below_def)

text \<open>Over any database that behaves as Pebble documents, \<open>IteratePrefix\<close> calls its function on exactly the
  stored pairs whose key starts with the prefix, each once and in ascending order of the keys.\<close>
theorem IteratePrefix_visits:
  assumes "pebble P cont"
  shows "\<exists>es. kv_IteratePrefix P prefix f kv s = (None, fold (\<lambda>(k, v) s. snd (f k v s)) es s) \<and>
    sorted_wrt (<) (map fst es) \<and>
    (\<forall>k v. (k, v) \<in> set es \<longleftrightarrow> HasPrefix k prefix \<and> cont (kv_db kv) k = Some v)"
  using pebble.IteratePrefix_cont [OF assms] .

lemma IteratePrefix_visits_witness:
  "\<exists>es. kv_IteratePrefix list_pebble ''d/'' (\<lambda>k v s. (None, s @ [(k, v)]))
      \<lparr>kv_db = [(''d/b'', ''2''), (''e'', ''3''), (''d/a'', ''1'')], kv_closed = False\<rparr> [] =
      (None, fold (\<lambda>(k, v) s. snd (None :: kv_err option, s @ [(k, v)])) es []) \<and>
    sorted_wrt (<) (map fst es) \<and> (''d/a'', ''1'') \<in> set es \<and> (''e'', ''3'') \<notin> set es"
  using IteratePrefix_visits [OF list_db.pebble_axioms, of "''d/''" "\<lambda>k v s. (None, s @ [(k, v)])"
      "\<lparr>kv_db = [(''d/b'', ''2''), (''e'', ''3''), (''d/a'', ''1'')], kv_closed = False\<rparr>" "[]"]
  by auto

text \<open>C34: \<open>DropPrefix\<close> deletes exactly the keys with the prefix, unless the last byte of the prefix is
  \<open>0xFF\<close>: then the end of the range wraps around to a smaller key and nothing is deleted.\<close>
theorem DropPrefix_deletes:
  assumes "pebble P cont" "prefix \<noteq> []"
  shows "\<exists>kv'. kv_DropPrefix P prefix kv = (None, kv') \<and>
    (\<forall>k. cont (kv_db kv') k =
       (if HasPrefix k prefix \<and> last prefix \<noteq> CHR 0xFF then None else cont (kv_db kv) k))"
  using pebble.DropPrefix_cont [OF assms] .

lemma DropPrefix_deletes_witness:
  "\<exists>kv'. kv_DropPrefix list_pebble [CHR 0xFF] \<lparr>kv_db = [([CHR 0xFF], ''1'')], kv_closed = False\<rparr> = (None, kv') \<and>
    map_of (kv_db kv') [CHR 0xFF] = Some ''1''"
  using DropPrefix_deletes [OF list_db.pebble_axioms, of "[CHR 0xFF]"
      "\<lparr>kv_db = [([CHR 0xFF], ''1'')], kv_closed = False\<rparr>"] by auto

text \<open>A sequence of counter operations, and what it computes.\<close>

datatype counter_op = CIncr int | CDecr int

fun counter_spec :: "counter_op \<Rightarrow> int \<Rightarrow> int" where
  "counter_spec (CIncr d) c = (c + d) mod 2 ^ 32"
| "counter_spec (CDecr d) c = max 0 (c - d)"

fun counter_delta :: "counter_op \<Rightarrow> int" where
  "counter_delta (CIncr d) = d"
| "counter_delta (CDecr d) = d"

fun kv_counter :: "('db, 'b) pebble_ops \<Rightarrow> bytes \<Rightarrow> counter_op \<Rightarrow> 'db noneSharedKV \<Rightarrow> 'db noneSharedKV" where
  "kv_counter P key (CIncr d) kv = snd (kv_Incr P key d kv)"
| "kv_counter P key (CDecr d) kv = snd (kv_Decr P key d kv)"

lemma kv_counter_step:
  assumes "pebble P cont" "cont (kv_db kv) key = Some (BE_PutUint32 c)" "is_u32 c" "is_u32 (counter_delta a)"
  shows "cont (kv_db (kv_counter P key a kv)) = (cont (kv_db kv))(key \<mapsto> BE_PutUint32 (counter_spec a c))"
    "is_u32 (counter_spec a c)"
proof -
  show "is_u32 (counter_spec a c)"
    using assms(3,4) by (cases a) (auto simp: is_u32_def max_def)
  have "case cont (kv_db kv) key of None \<Rightarrow> c = 0 | Some v \<Rightarrow> BE_Uint32 v = Some c"
    using assms(2,3) by simp
  note b = pebble.batch_counter_cont [OF assms(1) this]
  show "cont (kv_db (kv_counter P key a kv)) = (cont (kv_db kv))(key \<mapsto> BE_PutUint32 (counter_spec a c))"
  proof (cases a)
    case (CIncr d)
    then show ?thesis using b [of "\<lambda>c. u32 (c + d)"] by (auto simp: kv_Incr_def u32_def)
  next
    case (CDecr d)
    have "(if d < c then u32 (c - d) else 0) = max 0 (c - d)"
      using assms(3,4) CDecr by (auto simp: is_u32_def max_def intro: u32_id)
    then show ?thesis
      using CDecr b [of "\<lambda>c. if c > d then u32 (c - d) else 0"] by (auto simp: kv_Decr_def)
  qed
qed

lemma kv_counters:
  assumes "pebble P cont" "\<forall>a\<in>set ops. is_u32 (counter_delta a)"
    "cont (kv_db kv) key = Some (BE_PutUint32 c)" "is_u32 c"
  shows "cont (kv_db (fold (kv_counter P key) ops kv)) =
      (cont (kv_db kv))(key \<mapsto> BE_PutUint32 (fold counter_spec ops c)) \<and> is_u32 (fold counter_spec ops c)"
  using assms(2-)
proof (induction ops arbitrary: kv c)
  case (Cons a ops)
  then have a: "is_u32 (counter_delta a)" and ops: "\<forall>a\<in>set ops. is_u32 (counter_delta a)" by simp_all
  note st = kv_counter_step [OF assms(1) Cons.prems(2,3) a]
  have "cont (kv_db (kv_counter P key a kv)) key = Some (BE_PutUint32 (counter_spec a c))"
    by (simp add: st(1))
  from Cons.IH [OF ops this st(2)] show ?case unfolding st(1) by (simp add: fun_eq_iff)
qed (simp add: fun_eq_iff)

text \<open>C35: A counter of the shared store counts: after a first increment of a new key by \<open>d\<close> and any further increments and
  decrements, its value is the one computed by adding modulo \<open>2 ^ 32\<close> and subtracting down to zero; no other
  key changes.\<close>
theorem counter_counts:
  assumes "pebble P cont" "cont (kv_db kv) key = None" "is_u32 d" "\<forall>a\<in>set ops. is_u32 (counter_delta a)"
  defines "kv' \<equiv> fold (kv_counter P key) (CIncr d # ops) kv"
  shows "kv_GetCounter P key kv' = Inr (fold counter_spec ops d) \<and>
    (\<forall>k. k \<noteq> key \<longrightarrow> cont (kv_db kv') k = cont (kv_db kv) k)"
proof -
  have 0: "case cont (kv_db kv) key of None \<Rightarrow> (0::int) = 0 | Some v \<Rightarrow> BE_Uint32 v = Some 0"
    using assms(2) by simp
  have d: "u32 (0 + d) = d" using assms(3) by (simp add: is_u32_def u32_id)
  obtain kv1 where "kv_Incr P key d kv = (Inr d, kv1)"
      and kv1: "cont (kv_db kv1) = (cont (kv_db kv))(key \<mapsto> BE_PutUint32 d)"
    using pebble.batch_counter_cont [OF assms(1) 0, of "\<lambda>c. u32 (c + d)"] d by (auto simp: kv_Incr_def)
  then have "kv' = fold (kv_counter P key) ops kv1" by (simp add: assms(5))
  then show ?thesis
    using kv_counters [OF assms(1,4), of kv1 key d] kv1 assms(3)
    by (simp add: pebble.GetCounter_cont [OF assms(1)])
qed

lemma counter_counts_witness:
  "kv_GetCounter list_pebble ''c'' (fold (kv_counter list_pebble ''c'') [CIncr 5, CIncr 4294967295, CDecr 9]
     \<lparr>kv_db = [], kv_closed = False\<rparr>) = Inr 0"
  using counter_counts [OF list_db.pebble_axioms, of "\<lparr>kv_db = [], kv_closed = False\<rparr>" "''c''" 5
      "[CIncr 4294967295, CDecr 9]"]
  by (simp add: is_u32_def)

text \<open>\<open>GetCounter\<close> hands on the error of the database: for a missing key it is Pebble's own error and never
  the \<open>ErrKeyNotFound\<close> that \<open>Get\<close> returns and that callers test for.\<close>
theorem GetCounter_missing:
  assumes "pebble P cont" "cont (kv_db kv) key = None"
  shows "kv_GetCounter P key kv = Inl (KvPebble PbNotFound) \<and> kv_Get P key kv = Inl ErrKeyNotFound"
  using pebble.GetCounter_cont [OF assms(1)] pebble.Get_cont [OF assms(1)] assms(2) by simp

lemma GetCounter_missing_witness:
  "kv_GetCounter list_pebble ''if/domain/x'' \<lparr>kv_db = [], kv_closed = False\<rparr> \<noteq> Inl ErrKeyNotFound"
  using GetCounter_missing [OF list_db.pebble_axioms, of "\<lparr>kv_db = [], kv_closed = False\<rparr>"] by simp

end
