(* ===== verification/Storage_Iface.thy ===== *)
theory Storage_Iface
  imports Storage_Object Shared_KV
begin

text \<open>
  The interfaces \<^verbatim>\<open>Bucket\<close> and \<^verbatim>\<open>Storage\<close> of \<^verbatim>\<open>src/api/defined/v1/storage/storage.go\<close> as records of operations over
  a state, and the errors of the storage layer; a panic is the error \<open>StPanic\<close>, or \<open>None\<close>
  where an operation returns no error.  The destination \<open>'d\<close> of a migration is another bucket of the same state.
\<close>

datatype st_err = StKV kv_err | StNotExist | StCodec | StMsg string | StPanic

record ('s, 'b, 'w, 'f, 'g, 'd, 'c) bucket_ops =
  bk_Lookup :: "ID \<Rightarrow> 's \<Rightarrow> ('b Metadata option \<times> st_err option) \<times> 's"
  bk_Touch :: "ID \<Rightarrow> 's \<Rightarrow> 's"
  bk_Store :: "'b Metadata \<Rightarrow> 's \<Rightarrow> st_err option \<times> 's"
  bk_Exist :: "bytes \<Rightarrow> 's \<Rightarrow> bool option"
  bk_Remove :: "ID \<Rightarrow> 's \<Rightarrow> st_err option \<times> 's"
  bk_Discard :: "ID \<Rightarrow> 's \<Rightarrow> st_err option \<times> 's"
  bk_DiscardWithHash :: "bytes \<Rightarrow> 's \<Rightarrow> st_err option \<times> 's"
  bk_DiscardWithMessage :: "ID \<Rightarrow> string \<Rightarrow> 's \<Rightarrow> st_err option \<times> 's"
  bk_DiscardWithMetadata :: "'b Metadata \<Rightarrow> 's \<Rightarrow> st_err option \<times> 's"
  bk_Iterate :: "('b Metadata \<Rightarrow> 'c \<Rightarrow> st_err option \<times> 'c) \<Rightarrow> 's \<Rightarrow> 'c \<Rightarrow> st_err option \<times> 'c"
  bk_Expired :: "ID \<Rightarrow> 'b Metadata \<Rightarrow> 's \<Rightarrow> bool option"
  bk_WriteChunkFile :: "ID \<Rightarrow> int \<Rightarrow> 's \<Rightarrow> ((st_err + 'w) \<times> string) \<times> 's"
  bk_ReadChunkFile :: "ID \<Rightarrow> int \<Rightarrow> 's \<Rightarrow> ((st_err + 'f) \<times> string) \<times> 's"
  bk_Migrate :: "ID \<Rightarrow> 'd \<Rightarrow> 's \<Rightarrow> st_err option \<times> 's"
  bk_SetMigration :: "'g \<Rightarrow> 's \<Rightarrow> st_err option \<times> 's"
  bk_ID :: "'s \<Rightarrow> string"
  bk_Weight :: "'s \<Rightarrow> int"
  bk_Allow :: "'s \<Rightarrow> int option"
  bk_UseAllow :: "'s \<Rightarrow> bool"
  bk_Objects :: "'s \<Rightarrow> int"
  bk_HasBad :: "'s \<Rightarrow> bool"
  bk_Type :: "'s \<Rightarrow> string"
  bk_StoreType :: "'s \<Rightarrow> string"
  bk_Path :: "'s \<Rightarrow> string"
  bk_TopK :: "int \<Rightarrow> 's \<Rightarrow> string list option"
  bk_Close :: "'s \<Rightarrow> st_err option \<times> 's"

text \<open>A storage hands out buckets by name; \<open>'t\<close> is its own state and \<open>'k\<close> its shared store.\<close>

record ('t, 'n, 'k) storage_ops =
  so_Select :: "ID \<Rightarrow> 't \<Rightarrow> 'n option"
  so_Rebuild :: "'n list \<Rightarrow> 't \<Rightarrow> st_err option \<times> 't"
  so_Buckets :: "'t \<Rightarrow> 'n list"
  so_SharedKV :: "'t \<Rightarrow> 'k"
  so_PURGE :: "string \<Rightarrow> PurgeControl \<Rightarrow> 't \<Rightarrow> st_err option \<times> 't"
  so_Close :: "'t \<Rightarrow> st_err option \<times> 't"

end
