(* ===== verification/Path_Trie.thy ===== *)
theory Path_Trie
  imports Go_Std "HOL-Library.AList" "HOL-Library.Monad_Syntax"
begin

text \<open>
  The prefix tree of path patterns of \<^verbatim>\<open>src/pkg/pathtrie/pathtrie.go\<close>, which the directory purges
  are kept in.  A node is a value, so the pointer \<open>current\<close> that \<open>Insert\<close> walks down is the
  recursion of \<open>insert_parts\<close>; a nil map and an empty one behave alike, since a write is guarded by a
  \<open>make\<close>.  The compiler of regular expressions is the argument \<open>compile\<close>: it answers with the
  matcher of \<open>MatchString\<close> or with none for a compile error.  \<open>z\<close> is the zero value of the type
  \<open>T\<close>.  Calling the matcher of a nil regexp panics, which is the result \<open>None\<close> of a search.
\<close>

subsection \<open>Splitting a path\<close>

abbreviation Separator :: char where
  "Separator \<equiv> CHR ''/''"

function split_loop :: "string \<Rightarrow> nat \<Rightarrow> nat \<Rightarrow> string list \<Rightarrow> string list" where
  "split_loop path i start parts =
     (if i < length path then
        if path ! i = Separator then
          split_loop path (i + 1) (i + 1)
            (if i > start then parts @ [slice path start (i - start)] else parts)
        else split_loop path (i + 1) start parts
      else if start < length path then parts @ [drop start path] else parts)"
  by pat_completeness auto
termination by (relation "measure (\<lambda>(path, i, _). length path - i)") auto

definition pt_split :: "string \<Rightarrow> string list" where
  "pt_split path =
     (if path = [] then []
      else
        let path = (if path ! 0 = Separator then drop 1 path else path);
            path = (if length path > 0 \<and> path ! (length path - 1) = Separator
                    then take (length path - 1) path else path)
        in if path = [] then [] else split_loop path 0 0 [])"

subsection \<open>Nodes and operations\<close>

datatype 't pt_node =
  Node (children: "(string \<times> 't pt_node) list") (isEnd: bool) (nvalue: 't)
    (wildcard: "'t pt_node option") (pattern: string) (isRegex: bool)
    (regex: "(string \<Rightarrow> bool) option")

definition NewPathTrie :: "'t \<Rightarrow> 't pt_node" where
  "NewPathTrie z = Node [] False z None [] False None"

definition is_regex_part :: "string \<Rightarrow> bool" where
  "is_regex_part part \<longleftrightarrow> HasPrefix part ''['' \<or> HasPrefix part ''.*''"

fun insert_parts :: "(string \<Rightarrow> (string \<Rightarrow> bool) option) \<Rightarrow> 't \<Rightarrow> string \<Rightarrow> 't \<Rightarrow> string list \<Rightarrow>
    't pt_node \<Rightarrow> 't pt_node" where
  "insert_parts compile z pat v [] (Node cs e x w p r rx) = Node cs True v w p r rx"
| "insert_parts compile z pat v (part # parts) (Node cs e x w p r rx) =
     (if part = ''*'' then
        let n = (case w of None \<Rightarrow> Node [] False z None pat False None | Some n \<Rightarrow> n)
        in Node cs e x (Some (insert_parts compile z pat v parts n)) p r rx
      else if is_regex_part part \<and> Option.is_none w then
        (case compile part of
           None \<Rightarrow> insert_parts compile z pat v parts (Node cs e x w p r rx)
         | Some m \<Rightarrow>
             Node cs e x (Some (insert_parts compile z pat v parts (Node [] False z None pat True (Some m)))) p r rx)
      else
        let n = (case map_of cs part of None \<Rightarrow> Node [] False z None pat False None | Some n \<Rightarrow> n)
        in Node (AList.update part (insert_parts compile z pat v parts n) cs) e x w p r rx)"

definition Insert :: "(string \<Rightarrow> (string \<Rightarrow> bool) option) \<Rightarrow> 't \<Rightarrow> string \<Rightarrow> 't \<Rightarrow> 't pt_node \<Rightarrow> 't pt_node" where
  "Insert compile z pat v t = insert_parts compile z pat v (pt_split pat) t"

definition end_value :: "'t \<Rightarrow> 't pt_node \<Rightarrow> 't \<times> bool" where
  "end_value z n = (if isEnd n then (nvalue n, True) else (z, False))"

fun searchNode :: "'t \<Rightarrow> 't pt_node \<Rightarrow> string list \<Rightarrow> ('t \<times> bool) option" where
  "searchNode z node [] = Some (end_value z node)"
| "searchNode z node (part # parts) =
     do {
       (v, found) \<leftarrow> (case map_of (children node) part of
                        Some child \<Rightarrow> searchNode z child parts | None \<Rightarrow> Some (z, False));
       if found then Some (v, True)
       else do {
         (v, found) \<leftarrow> (case wildcard node of
             None \<Rightarrow> Some (z, False)
           | Some n \<Rightarrow>
               if isRegex n then
                 (case regex n of None \<Rightarrow> None
                  | Some m \<Rightarrow> if m part then searchNode z n parts else Some (z, False))
               else searchNode z n parts);
         if found then Some (v, True) else Some (end_value z node)
       }
     }"

definition Search :: "'t \<Rightarrow> string \<Rightarrow> 't pt_node \<Rightarrow> ('t \<times> bool) option" where
  "Search z path t = searchNode z t (pt_split path)"

text \<open>
  \<open>collectValues\<close> writes into its result map; the writes are listed in order, \<open>ord\<close> being the order
  in which Go iterates over the children of a node.
\<close>

type_synonym 't kv = "string \<times> 't"

fun collectValues :: "('t kv list list \<Rightarrow> 't kv list list) \<Rightarrow> 't pt_node \<Rightarrow> 't kv list" where
  "collectValues ord (Node cs e v w p r rx) =
     (if e then [(p, v)] else []) @
     concat (ord (map (\<lambda>(k, c). collectValues ord c) cs)) @
     (case w of None \<Rightarrow> [] | Some n \<Rightarrow> collectValues ord n)"

fun locate :: "string list \<Rightarrow> 't pt_node \<Rightarrow> 't pt_node option" where
  "locate [] node = Some node"
| "locate (part # parts) node =
     (case map_of (children node) part of None \<Rightarrow> None | Some child \<Rightarrow> locate parts child)"

definition FindByPrefix :: "('t kv list list \<Rightarrow> 't kv list list) \<Rightarrow> string \<Rightarrow> 't pt_node \<Rightarrow> (string \<rightharpoonup> 't)" where
  "FindByPrefix ord prefix t =
     (case locate (pt_split prefix) t of
        None \<Rightarrow> Map.empty
      | Some node \<Rightarrow> fold (\<lambda>(k, v) m. m(k \<mapsto> v)) (collectValues ord node) Map.empty)"

subsection \<open>Splitting is dropping the empty parts\<close>

lemma Split_app_sep: "Split (a @ Separator # r) Separator = Split a Separator @ Split r Separator"
  by (induction a) (auto split: list.splits)

lemma nonempty_parts_sep:
  "filter (\<lambda>p. p \<noteq> []) (Split (Separator # s) Separator) = filter (\<lambda>p. p \<noteq> []) (Split s Separator)"
  "filter (\<lambda>p. p \<noteq> []) (Split (s @ [Separator]) Separator) = filter (\<lambda>p. p \<noteq> []) (Split s Separator)"
  by (simp_all add: Split_app_sep)

lemma split_loop_parts:
  assumes "Separator \<notin> set (slice path start (i - start))" "start \<le> i" "i \<le> length path"
  shows "split_loop path i start parts = parts @ filter (\<lambda>p. p \<noteq> []) (Split (drop start path) Separator)"
  using assms
proof (induction path i start parts rule: split_loop.induct)
  case (1 path i start parts)
  show ?case
  proof (cases "i < length path")
    case False
    then have "slice path start (i - start) = drop start path"
      using "1.prems" by (simp add: slice_truncate)
    then show ?thesis using False "1.prems" by (subst split_loop.simps) (auto simp: Split_none)
  next
    case True
    have d: "drop start path = slice path start (i - start) @ path ! i # drop (Suc i) path"
      using True "1.prems"(2) by (simp add: slice_def) (metis Cons_nth_drop_Suc append_take_drop_id drop_drop le_add_diff_inverse2)
    show ?thesis
    proof (cases "path ! i = Separator")
      case sep: True
      have "slice path start (i - start) = [] \<longleftrightarrow> \<not> start < i"
        using True "1.prems"(2) by (auto simp: slice_def)
      then show ?thesis
        using "1.IH"(1) [OF True sep] sep True d "1.prems"
        by (subst split_loop.simps) (simp add: Split_append)
    next
      case False
      have "slice path start (Suc i - start) = slice path start (i - start) @ [path ! i]"
        using True "1.prems"(2) by (simp add: slice_def Suc_diff_le take_Suc_conv_app_nth)
      then show ?thesis
        using "1.IH"(2) [OF True False] False True "1.prems" by (subst split_loop.simps) simp
    qed
  qed
qed

lemma pt_split_parts: "pt_split path = filter (\<lambda>p. p \<noteq> []) (Split path Separator)"
proof (cases "path = []")
  case False
  define q where "q = (if path ! 0 = Separator then drop 1 path else path)"
  define r where "r = (if length q > 0 \<and> q ! (length q - 1) = Separator then take (length q - 1) q else q)"
  have "path = Separator # q \<or> path = q" using False by (cases path) (auto simp: q_def)
  then have 1: "filter (\<lambda>p. p \<noteq> []) (Split path Separator) = filter (\<lambda>p. p \<noteq> []) (Split q Separator)"
    by (elim disjE) (simp_all only: nonempty_parts_sep)
  have "q = r @ [Separator] \<or> q = r"
    by (cases q rule: rev_cases) (auto simp: r_def)
  then have 2: "filter (\<lambda>p. p \<noteq> []) (Split q Separator) = filter (\<lambda>p. p \<noteq> []) (Split r Separator)"
    by (elim disjE) (simp_all only: nonempty_parts_sep)
  have "pt_split path = (if r = [] then [] else split_loop r 0 0 [])"
    using False unfolding pt_split_def Let_def q_def [symmetric] r_def [symmetric] by (simp only: if_False)
  then show ?thesis
    using split_loop_parts [of r 0 0 "[]"] 1 2 by (simp del: split_loop.simps)
qed (simp add: pt_split_def)

lemma pt_split_part: "p \<in> set (pt_split path) \<Longrightarrow> p \<noteq> [] \<and> Separator \<notin> set p"
  by (auto simp: pt_split_parts Split_parts)

lemma pt_split_Join:
  assumes "\<forall>p\<in>set ps. p \<noteq> [] \<and> Separator \<notin> set p"
  shows "pt_split (Join ps [Separator]) = ps"
proof (cases "ps = []")
  case False
  then have "Split (Join ps [Separator]) Separator = ps" using assms by (intro Split_Join) auto
  then show ?thesis using assms by (simp add: pt_split_parts filter_id_conv)
qed (simp add: pt_split_def)

subsection \<open>A tree stands for a map from patterns to values\<close>

definition child_at :: "'t pt_node \<Rightarrow> string \<Rightarrow> 't pt_node option" where
  "child_at n a = (if a = ''*'' then wildcard n else map_of (children n) a)"

fun pats :: "'t pt_node \<Rightarrow> string list \<Rightarrow> 't option" where
  "pats n [] = (if isEnd n then Some (nvalue n) else None)"
| "pats n (a # q) = (case child_at n a of None \<Rightarrow> None | Some m \<Rightarrow> pats m q)"

fun node_at :: "'t pt_node \<Rightarrow> string list \<Rightarrow> 't pt_node option" where
  "node_at n [] = Some n"
| "node_at n (a # q) = (case child_at n a of None \<Rightarrow> None | Some m \<Rightarrow> node_at m q)"

definition plain_trie :: "'t pt_node \<Rightarrow> bool" where
  "plain_trie n \<longleftrightarrow> (\<forall>q m. node_at n q = Some m \<longrightarrow> \<not> isRegex m \<and> map_of (children m) ''*'' = None)"

lemma plain_trieD:
  assumes "plain_trie n"
  shows "\<not> isRegex n" "map_of (children n) ''*'' = None" "child_at n a = Some m \<Longrightarrow> plain_trie m"
proof -
  show "\<not> isRegex n" "map_of (children n) ''*'' = None"
    using assms [unfolded plain_trie_def, rule_format, of "[]" n] by simp_all
  show "plain_trie m" if "child_at n a = Some m"
    unfolding plain_trie_def
  proof (intro allI impI)
    fix q k assume "node_at m q = Some k"
    then show "\<not> isRegex k \<and> map_of (children k) ''*'' = None"
      using assms [unfolded plain_trie_def, rule_format, of "a # q" k] that by simp
  qed
qed

lemma plain_trieI:
  assumes "\<not> isRegex n" "map_of (children n) ''*'' = None" "\<And>a m. child_at n a = Some m \<Longrightarrow> plain_trie m"
  shows "plain_trie n"
  unfolding plain_trie_def
proof (intro allI impI)
  fix q k assume "node_at n q = Some k"
  then show "\<not> isRegex k \<and> map_of (children k) ''*'' = None"
    using assms by (cases q) (auto simp: plain_trie_def split: option.splits)
qed

definition fresh_node :: "'t \<Rightarrow> string \<Rightarrow> 't pt_node" where
  "fresh_node z pat = Node [] False z None pat False None"

lemma fresh_plain: "plain_trie (fresh_node z pat)" "pats (fresh_node z pat) q = None"
proof -
  show "plain_trie (fresh_node z pat)"
    by (rule plain_trieI) (auto simp: fresh_node_def child_at_def split: if_splits)
  show "pats (fresh_node z pat) q = None"
    by (cases q) (simp_all add: fresh_node_def child_at_def)
qed

text \<open>One step of \<open>Insert\<close> for a part that is no regular expression.\<close>

lemma insert_parts_step:
  assumes "\<not> is_regex_part part"
  shows "child_at (insert_parts compile z pat v (part # parts) n) a =
      (if a = part then Some (insert_parts compile z pat v parts
                               (case child_at n part of None \<Rightarrow> fresh_node z pat | Some m \<Rightarrow> m))
       else child_at n a)"
    "isEnd (insert_parts compile z pat v (part # parts) n) = isEnd n"
    "nvalue (insert_parts compile z pat v (part # parts) n) = nvalue n"
    "isRegex (insert_parts compile z pat v (part # parts) n) = isRegex n"
    "map_of (children n) ''*'' = None \<Longrightarrow>
       map_of (children (insert_parts compile z pat v (part # parts) n)) ''*'' = None"
  using assms
  by (cases n; auto simp: child_at_def fresh_node_def Let_def AList.update_conv' split: option.splits)+

lemma insert_parts_pats:
  assumes "\<forall>p\<in>set parts. \<not> is_regex_part p"
  shows "pats (insert_parts compile z pat v parts n) q = (if q = parts then Some v else pats n q)"
  using assms
proof (induction parts arbitrary: n q)
  case Nil
  then show ?case by (cases n; cases q) (auto simp: child_at_def)
next
  case (Cons part parts)
  then show ?case
    by (cases q) (auto simp: insert_parts_step fresh_plain simp del: insert_parts.simps split: option.splits)
qed

lemma insert_parts_plain:
  assumes "\<forall>p\<in>set parts. \<not> is_regex_part p" "plain_trie n"
  shows "plain_trie (insert_parts compile z pat v parts n)"
  using assms
proof (induction parts arbitrary: n)
  case Nil
  show ?case
  proof (rule plain_trieI)
    show "plain_trie m" if "child_at (insert_parts compile z pat v [] n) a = Some m" for a m
      using that plain_trieD(3) [OF Nil.prems(2), of a m]
      by (cases n) (auto simp: child_at_def split: if_splits)
  qed (use plain_trieD(1,2) [OF Nil.prems(2)] in \<open>cases n; simp\<close>)+
next
  case (Cons part parts)
  show ?case
  proof (rule plain_trieI)
    fix a m
    assume m: "child_at (insert_parts compile z pat v (part # parts) n) a = Some m"
    have "plain_trie (case child_at n part of None \<Rightarrow> fresh_node z pat | Some m \<Rightarrow> m)"
      using plain_trieD(3) [OF Cons.prems(2)] fresh_plain(1) by (auto split: option.splits)
    then show "plain_trie m"
      using m Cons.IH Cons.prems plain_trieD(3) [OF Cons.prems(2), of a m]
      by (auto simp: insert_parts_step simp del: insert_parts.simps split: if_splits)
  qed (use Cons.prems plain_trieD(1,2) [OF Cons.prems(2)] in
        \<open>simp_all add: insert_parts_step del: insert_parts.simps\<close>)
qed

subsection \<open>Which pattern a search finds\<close>

text \<open>
  \<open>matches q ps\<close>: the pattern \<open>q\<close> matches a prefix of the parts \<open>ps\<close>.  Of two such patterns
  \<open>beats\<close> prefers the one with the longer common part and, where they differ, the literal one.
\<close>

fun matches :: "string list \<Rightarrow> string list \<Rightarrow> bool" where
  "matches [] ps = True"
| "matches (a # q) [] = False"
| "matches (a # q) (p # ps) = ((a = ''*'' \<or> a = p) \<and> matches q ps)"

fun beats :: "string list \<Rightarrow> string list \<Rightarrow> bool" where
  "beats [] q' = False"
| "beats (a # q) [] = True"
| "beats (a # q) (b # q') = (if a = b then beats q q' else b = ''*'')"

definition best :: "(string list \<rightharpoonup> 't) \<Rightarrow> string list \<Rightarrow> string list \<Rightarrow> bool" where
  "best m ps q \<longleftrightarrow> matches q ps \<and> m q \<noteq> None \<and>
     (\<forall>q'. matches q' ps \<and> m q' \<noteq> None \<longrightarrow> q' = q \<or> beats q q')"

definition found_best :: "(string list \<rightharpoonup> 't) \<Rightarrow> 't \<Rightarrow> string list \<Rightarrow> 't \<times> bool \<Rightarrow> bool" where
  "found_best m z ps r \<longleftrightarrow>
     (if snd r then \<exists>q. best m ps q \<and> m q = Some (fst r)
      else r = (z, False) \<and> (\<forall>q. matches q ps \<longrightarrow> m q = None))"

lemma best_Cons:
  assumes "best (\<lambda>q. m (a # q)) ps q" "a = ''*'' \<or> a = p"
    "a \<noteq> p \<Longrightarrow> \<forall>q'. matches q' ps \<longrightarrow> m (p # q') = None"
  shows "best m (p # ps) (a # q)"
  unfolding best_def
proof (intro conjI allI impI)
  fix q' assume "matches q' (p # ps) \<and> m q' \<noteq> None"
  then show "q' = a # q \<or> beats (a # q) q'"
    using assms by (cases q') (auto simp: best_def)
qed (use assms in \<open>auto simp: best_def\<close>)

lemma searchNode_best:
  assumes "plain_trie n"
  shows "\<exists>r. searchNode z n ps = Some r \<and> found_best (pats n) z ps r"
  using assms
proof (induction ps arbitrary: n)
  case Nil
  have "matches q [] \<longleftrightarrow> q = []" for q by (cases q) auto
  then show ?case by (auto simp: end_value_def found_best_def best_def)
next
  case (Cons p ps)
  note pl = plain_trieD [OF Cons.prems]
  define lit where "lit = (case map_of (children n) p of
      Some child \<Rightarrow> searchNode z child ps | None \<Rightarrow> Some (z, False))"
  define wild where "wild = (case wildcard n of None \<Rightarrow> Some (z, False) | Some m \<Rightarrow> searchNode z m ps)"
  have "\<exists>r. lit = Some r \<and> found_best (\<lambda>q. if p = ''*'' then None else pats n (p # q)) z ps r"
  proof (cases "map_of (children n) p")
    case None
    then show ?thesis by (auto simp: lit_def found_best_def child_at_def)
  next
    case (Some c)
    then have "p \<noteq> ''*''" "child_at n p = Some c" using pl(2) by (auto simp: child_at_def)
    then show ?thesis using Cons.IH [OF pl(3), of p c] Some by (simp add: lit_def)
  qed
  then obtain r1 where r1: "lit = Some r1"
      "found_best (\<lambda>q. if p = ''*'' then None else pats n (p # q)) z ps r1" by blast
  have "\<exists>r. wild = Some r \<and> found_best (\<lambda>q. pats n (''*'' # q)) z ps r"
  proof (cases "wildcard n")
    case None
    then show ?thesis by (auto simp: wild_def found_best_def child_at_def)
  next
    case (Some c)
    then have "child_at n ''*'' = Some c" by (simp add: child_at_def)
    then show ?thesis using Cons.IH [OF pl(3), of "''*''" c] Some by (simp add: wild_def)
  qed
  then obtain r2 where r2: "wild = Some r2" "found_best (\<lambda>q. pats n (''*'' # q)) z ps r2" by blast
  have s: "searchNode z n (p # ps) = Some (if snd r1 then r1 else if snd r2 then r2 else end_value z n)"
  proof -
    have "\<not> isRegex m" if "wildcard n = Some m" for m
      using plain_trieD(1) [OF pl(3), of "''*''" m] that by (simp add: child_at_def)
    then have "searchNode z n (p # ps) =
        do { (v, found) \<leftarrow> lit; if found then Some (v, True)
             else do { (v, found) \<leftarrow> wild; if found then Some (v, True) else Some (end_value z n) } }"
      by (auto simp: lit_def wild_def split: option.splits intro!: arg_cong [where f = "Option.bind _"])
    then show ?thesis using r1(1) r2(1) by (cases r1; cases r2) simp
  qed
  show ?case
  proof (cases "snd r1")
    case True
    then obtain q where "best (\<lambda>q. if p = ''*'' then None else pats n (p # q)) ps q"
      "(if p = ''*'' then None else pats n (p # q)) = Some (fst r1)"
      using r1(2) by (auto simp: found_best_def)
    moreover from this(2) have "p \<noteq> ''*''" by auto
    ultimately show ?thesis using s True best_Cons [of "pats n" p ps q p] by (auto simp: found_best_def)
  next
    case False
    then have lit0: "\<forall>q'. matches q' ps \<longrightarrow> p \<noteq> ''*'' \<longrightarrow> pats n (p # q') = None"
      using r1(2) by (auto simp: found_best_def)
    show ?thesis
    proof (cases "snd r2")
      case True
      then obtain q where "best (\<lambda>q. pats n (''*'' # q)) ps q" "pats n (''*'' # q) = Some (fst r2)"
        using r2(2) by (auto simp: found_best_def)
      then show ?thesis
        using s True False lit0 best_Cons [of "pats n" "''*''" ps q p] by (auto simp: found_best_def)
    next
      case 2: False
      then have other: "q = []" if "matches q (p # ps)" "pats n q \<noteq> None" for q
        using that lit0 r2(2) by (cases q) (auto simp: found_best_def)
      have "found_best (pats n) z (p # ps) (end_value z n)"
      proof (cases "isEnd n")
        case True
        then have "best (pats n) (p # ps) []" using other unfolding best_def by simp
        then show ?thesis using True by (auto simp: found_best_def end_value_def)
      next
        case False
        then have "pats n q = None" if "matches q (p # ps)" for q using other [OF that] by fastforce
        then show ?thesis using False by (simp add: found_best_def end_value_def)
      qed
      then show ?thesis using s False 2 by simp
    qed
  qed
qed

definition Inserts :: "(string \<Rightarrow> (string \<Rightarrow> bool) option) \<Rightarrow> 't \<Rightarrow> (string \<times> 't) list \<Rightarrow> 't pt_node \<Rightarrow> 't pt_node" where
  "Inserts compile z ins t = fold (\<lambda>(p, v). Insert compile z p v) ins t"

definition regular :: "string \<Rightarrow> bool" where
  "regular pat \<longleftrightarrow> (\<forall>p\<in>set (pt_split pat). \<not> is_regex_part p)"

definition last_values :: "(string \<times> 't) list \<Rightarrow> (string list \<rightharpoonup> 't)" where
  "last_values ins = map_of (rev (map (\<lambda>(p, v). (pt_split p, v)) ins))"

lemma last_values_snoc:
  "last_values (ins @ [(p, v)]) q = (if q = pt_split p then Some v else last_values ins q)"
  by (simp add: last_values_def)

lemma NewPathTrie_plain: "plain_trie (NewPathTrie z)" "pats (NewPathTrie z) q = None"
  using fresh_plain [of z "[]"] by (simp_all add: fresh_node_def NewPathTrie_def)

lemma Inserts_plain:
  assumes "\<forall>p\<in>set (map fst ins). regular p"
  shows "plain_trie (Inserts compile z ins (NewPathTrie z)) \<and>
    pats (Inserts compile z ins (NewPathTrie z)) = last_values ins"
  using assms
proof (induction ins rule: rev_induct)
  case Nil
  show ?case using NewPathTrie_plain by (auto simp: Inserts_def last_values_def fun_eq_iff)
next
  case (snoc pv ins)
  obtain p v where "pv = (p, v)" by (cases pv)
  then show ?case
    using snoc
    by (auto simp: Inserts_def Insert_def regular_def last_values_snoc fun_eq_iff insert_parts_plain insert_parts_pats)
qed

lemma Search_found_best:
  assumes "\<forall>p\<in>set (map fst ins). regular p"
  shows "\<exists>r. Search z path (Inserts compile z ins (NewPathTrie z)) = Some r \<and>
    found_best (last_values ins) z (pt_split path) r"
  using searchNode_best [of "Inserts compile z ins (NewPathTrie z)" z "pt_split path"] Inserts_plain [OF assms, of compile z]
  by (simp add: Search_def)



subsection \<open>No search panics\<close>

fun rx_ok :: "'t pt_node \<Rightarrow> bool" where
  "rx_ok (Node cs e v w p r rx) \<longleftrightarrow>
     (r \<longrightarrow> rx \<noteq> None) \<and> (\<forall>c\<in>snd ` set cs. rx_ok c) \<and> (case w of None \<Rightarrow> True | Some n \<Rightarrow> rx_ok n)"

lemma update_member: "(a, b) \<in> set (AList.update k y cs) \<Longrightarrow> b = y \<or> b \<in> snd ` set cs"
  by (induction cs) (force split: if_splits)+

lemma rx_ok_insert: "rx_ok n \<Longrightarrow> rx_ok (insert_parts compile z pat v parts n)"
proof (induction compile z pat v parts n rule: insert_parts.induct)
  case (2 compile z pat v part parts cs e x w p r rx)
  have "rx_ok n" if "map_of cs part = Some n" for n
    using 2(5) map_of_SomeD [OF that] by force
  then show ?case using 2 by (auto simp: Let_def split: option.splits dest!: update_member)
qed simp

lemma searchNode_total: "rx_ok n \<Longrightarrow> \<exists>v found. searchNode z n parts = Some (v, found)"
proof (induction parts arbitrary: n)
  case Nil
  show ?case by (simp add: end_value_def)
next
  case (Cons part parts)
  obtain cs e x w p r rx where n: "n = Node cs e x w p r rx" by (cases n)
  have c: "rx_ok c" if "map_of cs part = Some c" for c
    using Cons.prems map_of_SomeD [OF that] n by force
  have m: "rx_ok m \<and> (isRegex m \<longrightarrow> regex m \<noteq> None)" if "w = Some m" for m
    using Cons.prems n that by (cases m) auto
  obtain v1 f1 where "(case map_of cs part of Some child \<Rightarrow> searchNode z child parts
      | None \<Rightarrow> Some (z, False)) = Some (v1, f1)"
    using c Cons.IH by (cases "map_of cs part") (auto, blast)
  moreover obtain v2 f2 where "(case w of None \<Rightarrow> Some (z, False)
      | Some n \<Rightarrow> if isRegex n then (case regex n of None \<Rightarrow> None
                  | Some m \<Rightarrow> if m part then searchNode z n parts else Some (z, False))
               else searchNode z n parts) = Some (v2, f2)"
  proof (cases w)
    case (Some k)
    then show ?thesis using m [OF Some] Cons.IH [of k] that
      by (cases "isRegex k"; cases "regex k"; cases "the (regex k) part") auto
  qed (use that [of z False] in simp)
  ultimately show ?case using n by (auto simp add: end_value_def)
qed

text \<open>No sequence of insertions makes a search panic: whatever the patterns are, regular
  expressions included, and whatever the regular expression compiler answers, every search in the
  resulting tree returns.\<close>
theorem Search_returns:
  "\<exists>v found. Search z path (Inserts compile z ins (NewPathTrie z)) = Some (v, found)"
proof -
  have "rx_ok (Inserts compile z ins t)" if "rx_ok t" for t
    using that by (induction ins arbitrary: t) (auto simp: Inserts_def Insert_def rx_ok_insert)
  then have "rx_ok (Inserts compile z ins (NewPathTrie z))" by (simp add: NewPathTrie_def)
  then show ?thesis unfolding Search_def by (rule searchNode_total)
qed

subsection \<open>Listing by prefix\<close>

text \<open>
  A node keeps the pattern it was created for, so a pattern that ends on the way to an earlier one
  is listed under the name of the earlier one and hidden by it.
\<close>

text \<open>Whether a prefix listing is complete depends on the order of the insertions: with \<open>/a\<close>
  first and \<open>/a/b\<close> second both are listed, in the other order \<open>/a\<close> is lost, although a search
  still finds both.\<close>
theorem FindByPrefix_order:
  "FindByPrefix (\<lambda>x. x) ''/a'' (Inserts compile z [(''/a'', v), (''/a/b'', w)] (NewPathTrie z)) =
     [''/a'' \<mapsto> v, ''/a/b'' \<mapsto> w] \<and>
   FindByPrefix (\<lambda>x. x) ''/a'' (Inserts compile z [(''/a/b'', w), (''/a'', v)] (NewPathTrie z)) =
     [''/a/b'' \<mapsto> w]"
  by (simp_all add: FindByPrefix_def Inserts_def Insert_def pt_split_parts NewPathTrie_def is_regex_part_def)

end
