(* ===== verification/Diraware.thy ===== *)
theory Diraware
  imports Storage_Iface Path_Trie
begin

text \<open>
  The directory-aware wrapper of \<^verbatim>\<open>src/storage/diraware\<close>: a purge of a directory is a time in
  the prefix tree, kept in the shared key-value store across restarts, and a lookup hands out an
  older object as expired.  \<open>now\<close> is the Unix time of a call, in seconds.
\<close>

subsection \<open>diraware.go\<close>

text \<open>The tree of the checker is a tree of times, with zero value 0.\<close>

record 's checker =
  ck_KV :: 's
  ck_trie :: "int pt_node"
  ck_prefix :: string
  ck_autoClear :: bool

definition WithPrefix :: "string \<Rightarrow> 's checker \<Rightarrow> 's checker" where
  "WithPrefix prefix c = c\<lparr>ck_prefix := prefix\<rparr>"

definition WithAutoClear :: "bool \<Rightarrow> 's checker \<Rightarrow> 's checker" where
  "WithAutoClear clear c = c\<lparr>ck_autoClear := clear\<rparr>"

definition reload_entry :: "(string \<Rightarrow> (string \<Rightarrow> bool) option) \<Rightarrow> string \<Rightarrow> bytes \<Rightarrow> bytes \<Rightarrow> int pt_node \<Rightarrow>
    kv_err option \<times> int pt_node" where
  "reload_entry compile prefix key val t =
     (let storePath = drop (length prefix) key in
      if length val \<noteq> 8 then (None, t)
      else
        case LE_Uint64 val of
          None \<Rightarrow> (Some KvPanic, t)
        | Some u \<Rightarrow> (None, Insert compile 0 storePath (i64 u) t))"

text \<open>\<open>None\<close> is the panic for a nil store.\<close>

definition NewChecker :: "(string \<Rightarrow> (string \<Rightarrow> bool) option) \<Rightarrow> ('s, int pt_node) shared_kv_ops \<Rightarrow>
    's option \<Rightarrow> ('s checker \<Rightarrow> 's checker) list \<Rightarrow> 's checker option" where
  "NewChecker compile K kv opts =
     (case kv of
        None \<Rightarrow> None
      | Some kv \<Rightarrow>
          let c = \<lparr>ck_KV = kv, ck_trie = NewPathTrie 0, ck_prefix = ''dir/'', ck_autoClear = True\<rparr>;
              c = fold (\<lambda>opt. opt) opts c;
              (err, t) = sk_IteratePrefix K (ck_prefix c) (reload_entry compile (ck_prefix c)) (ck_KV c) (ck_trie c)
          in Some (c\<lparr>ck_trie := t\<rparr>))"

text \<open>The panic of a search is the value \<open>None\<close>; the error of \<open>Marked\<close> is always nil.\<close>

definition Marked :: "'s checker \<Rightarrow> ID option \<Rightarrow> 'b Metadata \<Rightarrow> (bool \<times> st_err option) option" where
  "Marked c oid md =
     (case oid of
        None \<Rightarrow> Some (False, None)
      | Some oid \<Rightarrow>
          do {
            (unix, found1) \<leftarrow> Search 0 (ID_Path oid) (ck_trie c);
            if found1 \<and> RespUnix md \<le> unix then Some (True, None) else Some (False, None)
          })"

definition TrieAdd :: "(string \<Rightarrow> (string \<Rightarrow> bool) option) \<Rightarrow> ('s, 'c) shared_kv_ops \<Rightarrow> int \<Rightarrow> string \<Rightarrow>
    's checker \<Rightarrow> 's checker" where
  "TrieAdd compile K now storePath c =
     (let unix = now;
          c = c\<lparr>ck_trie := Insert compile 0 storePath unix (ck_trie c)\<rparr>;
          (err, kv) = sk_Set K (ck_prefix c @ storePath) (LE_AppendUint64 [] (u64 unix)) (ck_KV c)
      in c\<lparr>ck_KV := kv\<rparr>)"

subsection \<open>bucket.go\<close>

definition wrapped_Lookup :: "int \<Rightarrow> 'k checker \<Rightarrow> ('s, 'b, 'w, 'f, 'g, 'd, 'c) bucket_ops \<Rightarrow> ID \<Rightarrow> 's \<Rightarrow>
    ('b Metadata option \<times> st_err option) \<times> 's" where
  "wrapped_Lookup now c base oid s =
     (let ((md, err), s) = bk_Lookup base oid s in
      if err \<noteq> None \<or> Option.is_none md then ((md, err), s)
      else
        case Marked c (Some oid) (the md) of
          None \<Rightarrow> ((None, Some StPanic), s)
        | Some (marked, err) \<Rightarrow>
            if err \<noteq> None then ((md, None), s)
            else if \<not> marked then ((md, None), s)
            else ((Some ((the md)\<lparr>ExpiresAt := now - 1\<rparr>), None), s))"

definition wrapBucket :: "int \<Rightarrow> 'k checker option \<Rightarrow> ('s, 'b, 'w, 'f, 'g, 'd, 'c) bucket_ops \<Rightarrow>
    ('s, 'b, 'w, 'f, 'g, 'd, 'c) bucket_ops" where
  "wrapBucket now checker base =
     (case checker of
        None \<Rightarrow> base
      | Some c \<Rightarrow>
          \<lparr>bk_Lookup = wrapped_Lookup now c base,
           bk_Touch = bk_Touch base,
           bk_Store = bk_Store base,
           bk_Exist = bk_Exist base,
           bk_Remove = bk_Remove base,
           bk_Discard = bk_Discard base,
           bk_DiscardWithHash = bk_DiscardWithHash base,
           bk_DiscardWithMessage = bk_DiscardWithMessage base,
           bk_DiscardWithMetadata = bk_DiscardWithMetadata base,
           bk_Iterate = bk_Iterate base,
           bk_Expired = bk_Expired base,
           bk_WriteChunkFile = bk_WriteChunkFile base,
           bk_ReadChunkFile = bk_ReadChunkFile base,
           bk_Migrate = bk_Migrate base,
           bk_SetMigration = bk_SetMigration base,
           bk_ID = bk_ID base,
           bk_Weight = bk_Weight base,
           bk_Allow = bk_Allow base,
           bk_UseAllow = bk_UseAllow base,
           bk_Objects = bk_Objects base,
           bk_HasBad = bk_HasBad base,
           bk_Type = bk_Type base,
           bk_StoreType = bk_StoreType base,
           bk_Path = bk_Path base,
           bk_TopK = bk_TopK base,
           bk_Close = bk_Close base\<rparr>)"

subsection \<open>storage.go\<close>

record ('t, 'k) wrappedStorage =
  ws_base :: 't
  ws_checker :: "'k checker"

text \<open>\<open>dir_New\<close> wraps unless the storage or the checker is missing.\<close>

datatype ('t, 'k) maybe_wrapped = Bare "'t option" | Wrapped "('t, 'k) wrappedStorage"

definition dir_New :: "'t option \<Rightarrow> 'k checker option \<Rightarrow> ('t, 'k) maybe_wrapped" where
  "dir_New base checker =
     (case (base, checker) of
        (Some b, Some c) \<Rightarrow> Wrapped \<lparr>ws_base = b, ws_checker = c\<rparr>
      | _ \<Rightarrow> Bare base)"

text \<open>
  A bucket comes with the checker it is wrapped with.  \<open>Select\<close> wraps the bucket it is given even when that
  is nil, so its result never is.
\<close>

definition ws_Select :: "('t, 'n, 'k) storage_ops \<Rightarrow> ID \<Rightarrow> ('t, 'k) wrappedStorage \<Rightarrow> 'n option \<times> 'k checker" where
  "ws_Select S oid w = (so_Select S oid (ws_base w), ws_checker w)"

definition ws_Rebuild :: "('t, 'n, 'k) storage_ops \<Rightarrow> 'n list \<Rightarrow> ('t, 'k) wrappedStorage \<Rightarrow>
    st_err option \<times> ('t, 'k) wrappedStorage" where
  "ws_Rebuild S buckets w = (let (e, b) = so_Rebuild S buckets (ws_base w) in (e, w\<lparr>ws_base := b\<rparr>))"

definition ws_Buckets :: "('t, 'n, 'k) storage_ops \<Rightarrow> ('t, 'k) wrappedStorage \<Rightarrow> ('n \<times> 'k checker) list" where
  "ws_Buckets S w = map (\<lambda>n. (n, ws_checker w)) (so_Buckets S (ws_base w))"

definition ws_SharedKV :: "('t, 'n, 'k) storage_ops \<Rightarrow> ('t, 'k) wrappedStorage \<Rightarrow> 'k" where
  "ws_SharedKV S w = so_SharedKV S (ws_base w)"

definition ws_PURGE :: "(string \<Rightarrow> (string \<Rightarrow> bool) option) \<Rightarrow> ('k, 'c) shared_kv_ops \<Rightarrow> ('t, 'n, 'k) storage_ops \<Rightarrow>
    int \<Rightarrow> string \<Rightarrow> PurgeControl \<Rightarrow> ('t, 'k) wrappedStorage \<Rightarrow> st_err option \<times> ('t, 'k) wrappedStorage" where
  "ws_PURGE compile K S now storeUrl typ w =
     (if Dir typ \<and> MarkExpired typ then
        (None, w\<lparr>ws_checker := TrieAdd compile K now storeUrl (ws_checker w)\<rparr>)
      else
        let (e, b) = so_PURGE S storeUrl typ (ws_base w) in (e, w\<lparr>ws_base := b\<rparr>))"

definition ws_Close :: "('t, 'n, 'k) storage_ops \<Rightarrow> ('t, 'k) wrappedStorage \<Rightarrow> st_err option \<times> ('t, 'k) wrappedStorage" where
  "ws_Close S w = (let (e, b) = so_Close S (ws_base w) in (e, w\<lparr>ws_base := b\<rparr>))"

subsection \<open>A tree is determined by its map of patterns\<close>

lemma beats_asym: "beats q q' \<Longrightarrow> \<not> beats q' q"
  by (induction q q' rule: beats.induct) (auto split: if_splits)

lemma best_unique: "best m ps q \<Longrightarrow> best m ps q' \<Longrightarrow> q = q'"
  unfolding best_def by (metis beats_asym)

lemma found_best_unique:
  assumes "found_best m z ps r" "found_best m z ps r'"
  shows "r = r'"
proof -
  consider "snd r" "snd r'" | "\<not> snd r" "\<not> snd r'" | "snd r" "\<not> snd r'" | "\<not> snd r" "snd r'" by blast
  then show ?thesis
  proof cases
    case 1
    then obtain q q' where "best m ps q" "m q = Some (fst r)" "best m ps q'" "m q' = Some (fst r')"
      using assms by (auto simp: found_best_def)
    moreover from this have "q = q'" using best_unique by blast
    ultimately show ?thesis using 1 by (simp add: prod_eq_iff)
  qed (use assms in \<open>auto simp: found_best_def best_def\<close>)
qed

lemma Search_pats_eq:
  assumes "plain_trie t" "plain_trie t'" "pats t = pats t'"
  shows "Search z path t = Search z path t'"
proof -
  obtain r r' where r: "searchNode z t (pt_split path) = Some r" "found_best (pats t) z (pt_split path) r"
      and r': "searchNode z t' (pt_split path) = Some r'" "found_best (pats t') z (pt_split path) r'"
    using searchNode_best [OF assms(1), of z "pt_split path"] searchNode_best [OF assms(2), of z "pt_split path"] by blast
  have "r = r'" using found_best_unique [OF r(2)] r'(2) assms(3) by simp
  then show ?thesis using r(1) r'(1) by (simp add: Search_def)
qed

lemma Insert_plain:
  assumes "regular p" "plain_trie t"
  shows "plain_trie (Insert compile z p v t)"
    "pats (Insert compile z p v t) = (pats t)(pt_split p \<mapsto> v)"
  using assms by (auto simp: Insert_def regular_def insert_parts_plain insert_parts_pats fun_eq_iff)

subsection \<open>The checker and its store\<close>

definition purge_adds :: "(string \<Rightarrow> (string \<Rightarrow> bool) option) \<Rightarrow> ('s, 'c) shared_kv_ops \<Rightarrow> (int \<times> string) list \<Rightarrow>
    's checker \<Rightarrow> 's checker" where
  "purge_adds compile K adds c = fold (\<lambda>(t, p). TrieAdd compile K t p) adds c"

definition last_time :: "(int \<times> string) list \<Rightarrow> (string \<rightharpoonup> int)" where
  "last_time adds = map_of (rev (map prod.swap adds))"

lemma last_time_snoc: "last_time (adds @ [(t, p)]) = (last_time adds)(p \<mapsto> t)"
  by (auto simp: last_time_def fun_eq_iff)

lemma last_time_set: "last_time adds p = Some t \<Longrightarrow> (t, p) \<in> set adds"
  by (auto simp: last_time_def dest: map_of_SomeD)

lemma last_time_None: "last_time adds p = None \<longleftrightarrow> p \<notin> snd ` set adds"
  by (auto simp: last_time_def map_of_eq_None_iff image_image)

lemma i64_u64: "is_i64 x \<Longrightarrow> i64 (u64 x) = x"
  by (auto simp: i64_def u64_def is_i64_def mod_simps)

lemma reload_stored:
  assumes "is_i64 t"
  shows "reload_entry compile prefix (prefix @ p) (LE_AppendUint64 [] (u64 t)) tr = (None, Insert compile 0 p t tr)"
  using assms by (simp add: reload_entry_def i64_u64)

lemma HasPrefix_split: "HasPrefix k p \<longleftrightarrow> (\<exists>r. k = p @ r)"
  by (auto simp: HasPrefix_def) (metis append_take_drop_id)

context shared_kv
begin

lemma TrieAdd_parts:
  "ck_trie (TrieAdd compile K t p c) = Insert compile 0 p t (ck_trie c)"
  "ck_prefix (TrieAdd compile K t p c) = ck_prefix c"
  "content (ck_KV (TrieAdd compile K t p c)) =
     (content (ck_KV c))(ck_prefix c @ p \<mapsto> LE_AppendUint64 [] (u64 t))"
  using kv_set [of "ck_prefix c @ p" "LE_AppendUint64 [] (u64 t)" "ck_KV c"]
  by (auto simp: TrieAdd_def Let_def split: prod.splits)

lemma adds_prefix: "ck_prefix (purge_adds compile K adds c) = ck_prefix c"
  unfolding purge_adds_def by (induction adds arbitrary: c) (auto simp: TrieAdd_parts)

lemma adds_content:
  "content (ck_KV (purge_adds compile K adds c)) (ck_prefix c @ p) =
     (case last_time adds p of Some t \<Rightarrow> Some (LE_AppendUint64 [] (u64 t)) | None \<Rightarrow> content (ck_KV c) (ck_prefix c @ p))"
proof (induction adds rule: rev_induct)
  case Nil
  show ?case by (simp add: purge_adds_def last_time_def)
next
  case (snoc a adds)
  obtain t q where "a = (t, q)" by (cases a)
  then show ?case
    using snoc adds_prefix [of compile adds c]
    by (auto simp: purge_adds_def TrieAdd_parts last_time_snoc split: option.splits)
qed

lemma adds_trie:
  assumes "plain_trie (ck_trie c)" "\<forall>a\<in>set adds. regular (snd a)"
  shows "plain_trie (ck_trie (purge_adds compile K adds c))"
    "pats (ck_trie (purge_adds compile K adds c)) =
      (\<lambda>q. case last_values (map prod.swap adds) q of Some t \<Rightarrow> Some t | None \<Rightarrow> pats (ck_trie c) q)"
  using assms
proof (induction adds rule: rev_induct)
  case Nil
  { case 1 then show ?case by (simp add: purge_adds_def)
  next case 2 then show ?case by (simp add: purge_adds_def last_values_def) }
next
  case (snoc a adds)
  obtain t q where a: "a = (t, q)" by (cases a)
  { case 1
    then show ?case using snoc a by (simp add: purge_adds_def TrieAdd_parts Insert_plain)
  next
    case 2
    then show ?case
      using snoc a by (auto simp: purge_adds_def TrieAdd_parts Insert_plain last_values_snoc fun_eq_iff) }
qed


end

lemma option_eqI: "(\<And>t. (x = Some t) = (y = Some t)) \<Longrightarrow> x = y"
  by (cases x; cases y) auto

lemma last_values_time:
  assumes "inj_on pt_split (snd ` set adds)"
  shows "last_values (map prod.swap adds) q = Some t \<longleftrightarrow> (\<exists>p. last_time adds p = Some t \<and> pt_split p = q)"
  using assms
proof (induction adds rule: rev_induct)
  case Nil
  show ?case by (simp add: last_values_def last_time_def)
next
  case (snoc a adds)
  obtain u r where a: "a = (u, r)" by (cases a)
  have inj: "inj_on pt_split (snd ` set adds)" using snoc.prems by (auto intro: inj_on_subset)
  have "pt_split p \<noteq> pt_split r" if "last_time adds p = Some t" "p \<noteq> r" for p
    using snoc.prems that a last_time_set [OF that(1)] by (force simp: inj_on_def)
  then show ?case
    using snoc.IH [OF inj] a by (cases "q = pt_split r") (auto simp: last_values_snoc last_time_snoc, metis)
qed

lemma last_values_distinct:
  assumes "distinct (map fst ins)" "inj_on pt_split (fst ` set ins)"
  shows "last_values ins q = Some t \<longleftrightarrow> (\<exists>p. (p, t) \<in> set ins \<and> pt_split p = q)"
proof -
  have "distinct (map fst (rev (map (\<lambda>(p, v). (pt_split p, v)) ins)))"
    using assms by (simp add: rev_map [symmetric] comp_def split_beta distinct_map comp_inj_on flip: map_map)
      (auto simp: distinct_map inj_on_def)
  then show ?thesis by (auto simp: last_values_def map_of_eq_Some_iff)
qed

lemma NewChecker_reload:
  assumes "shared_kv K content"
    "\<And>p. content kv (''dir/'' @ p) = map_option (\<lambda>t. LE_AppendUint64 [] (u64 t)) (tm p)"
    "\<And>p t. tm p = Some t \<Longrightarrow> is_i64 t \<and> regular p" "inj_on pt_split (dom tm)"
  shows "\<exists>c. NewChecker compile K (Some kv) [] = Some c \<and> ck_KV c = kv \<and> ck_prefix c = ''dir/'' \<and>
    plain_trie (ck_trie c) \<and> (\<forall>q t. pats (ck_trie c) q = Some t \<longleftrightarrow> (\<exists>p. tm p = Some t \<and> pt_split p = q))"
proof -
  let ?f = "\<lambda>(k, v) c. snd (reload_entry compile ''dir/'' k v c)"
  obtain es where es: "sk_IteratePrefix K ''dir/'' (reload_entry compile ''dir/'') kv (NewPathTrie 0) =
        (None, fold ?f es (NewPathTrie 0))" "sorted_wrt (<) (map fst es)"
      "\<forall>k v. (k, v) \<in> set es \<longleftrightarrow> HasPrefix k ''dir/'' \<and> content kv k = Some v"
    using shared_kv.kv_prefix [OF assms(1), of "''dir/''" "reload_entry compile ''dir/''" kv "NewPathTrie 0"] by blast
  define ins where "ins = map (\<lambda>(k, v). (drop 4 k, the (tm (drop 4 k)))) es"
  have es_in: "\<exists>p t. e = (''dir/'' @ p, LE_AppendUint64 [] (u64 t)) \<and> tm p = Some t" if e: "e \<in> set es" for e
  proof -
    obtain k v where kv: "e = (k, v)" by (cases e)
    then have "HasPrefix k ''dir/''" "content kv k = Some v" using e es(3) by auto
    then show ?thesis using kv assms(2) by (auto simp: HasPrefix_split)
  qed
  have "fold ?f es' t = Inserts compile 0 (map (\<lambda>(k, v). (drop 4 k, the (tm (drop 4 k)))) es') t"
    if "set es' \<subseteq> set es" for es' t
    using that
  proof (induction es' arbitrary: t)
    case (Cons e es')
    obtain p u where e: "e = (''dir/'' @ p, LE_AppendUint64 [] (u64 u))" "tm p = Some u"
      using es_in [of e] Cons.prems by auto
    then show ?case
      using Cons assms(3) reload_stored [of u compile "''dir/''" p t] by (simp add: Inserts_def)
  qed (simp add: Inserts_def)
  then have reload: "fold ?f es (NewPathTrie 0) = Inserts compile 0 ins (NewPathTrie 0)" by (simp add: ins_def)
  have in_ins: "(p, t) \<in> set ins \<longleftrightarrow> tm p = Some t" for p t
  proof
    assume "(p, t) \<in> set ins" then show "tm p = Some t" using es_in by (fastforce simp: ins_def)
  next
    assume t: "tm p = Some t"
    then have "(''dir/'' @ p, LE_AppendUint64 [] (u64 t)) \<in> set es" using es(3) assms(2) by (simp add: HasPrefix_split)
    then show "(p, t) \<in> set ins" using t by (force simp: ins_def)
  qed
  have dist: "distinct (map fst es)" using es(2) strict_sorted_iff by blast
  have keys: "\<exists>p. k = ''dir/'' @ p" if k: "k \<in> fst ` set es" for k
  proof -
    obtain e where "e \<in> set es" "k = fst e" using k by blast
    then show ?thesis using es_in [of e] by auto
  qed
  have "inj_on (drop 4) (fst ` set es)" 
  proof (intro inj_onI)
    fix k l assume "k \<in> fst ` set es" "l \<in> fst ` set es" and d: "drop 4 k = drop 4 l"
    then obtain p r where "k = ''dir/'' @ p" "l = ''dir/'' @ r" using keys by blast
    then show "k = l" using d by simp
  qed
  moreover have "map fst ins = map (drop 4) (map fst es)" by (auto simp: ins_def)
  ultimately have "distinct (map fst ins)" using dist by (simp only: distinct_map set_map)
  moreover have "fst ` set ins \<subseteq> dom tm" using in_ins by force
  ultimately have "last_values ins q = Some t \<longleftrightarrow> (\<exists>p. tm p = Some t \<and> pt_split p = q)" for q t
    using last_values_distinct [of ins q t] inj_on_subset [OF assms(4)] in_ins by simp
  moreover have "\<forall>p\<in>set (map fst ins). regular p" using in_ins assms(3) by fastforce
  ultimately show ?thesis
    using es(1) reload Inserts_plain [of ins compile 0] by (simp add: NewChecker_def Let_def)
qed


definition sample_kv :: "((bytes \<times> bytes) list noneSharedKV, int pt_node) shared_kv_ops" where
  "sample_kv = none_kv list_pebble"

lemma sample_kv_shared: "shared_kv sample_kv (\<lambda>kv. map_of (kv_db kv))"
  unfolding sample_kv_def by (rule none_kv_shared) (rule list_db.pebble_axioms)


text \<open>C39: A directory purge expires what lies below it.  After any purges of directories without regular expressions, made
  on a new store, a lookup through the wrapper hands out a stored object as expired exactly when the purge of
  the best matching directory is not older than the object's response; otherwise the object is handed
  out unchanged.  The wrapped bucket is never written.\<close>
theorem wrapped_Lookup_purged:
  assumes "shared_kv K content" "\<forall>k. HasPrefix k ''dir/'' \<longrightarrow> content kv k = None"
    "NewChecker compile K (Some kv) [] = Some c" "\<forall>a\<in>set adds. regular (snd a)"
    "bk_Lookup base oid s = ((Some md, None), s')"
  defines "purges \<equiv> last_values (map prod.swap adds)"
  shows "\<exists>expired. wrapped_Lookup now (purge_adds compile K adds c) base oid s =
      ((Some (if expired then md\<lparr>ExpiresAt := now - 1\<rparr> else md), None), s') \<and>
    (expired \<longleftrightarrow> (\<exists>q t. best purges (pt_split (ID_Path oid)) q \<and> purges q = Some t \<and> RespUnix md \<le> t))"
proof -
  have c: "plain_trie (ck_trie c)" "\<forall>q. pats (ck_trie c) q = None"
    using NewChecker_reload [OF assms(1), of kv Map.empty compile] assms(2,3) by (auto simp: HasPrefix_split)
  let ?c = "purge_adds compile K adds c"
  have t: "plain_trie (ck_trie ?c)" "pats (ck_trie ?c) = purges"
    using shared_kv.adds_trie [OF assms(1) c(1) assms(4), of compile] c(2)
    by (auto simp: purges_def fun_eq_iff split: option.splits)
  obtain u found where r: "Search 0 (ID_Path oid) (ck_trie ?c) = Some (u, found)"
      "found_best purges 0 (pt_split (ID_Path oid)) (u, found)"
    using searchNode_best [OF t(1), of 0 "pt_split (ID_Path oid)"] t(2) by (auto simp: Search_def)
  define expired where "expired \<longleftrightarrow> found \<and> RespUnix md \<le> u"
  have "expired \<longleftrightarrow> (\<exists>q t. best purges (pt_split (ID_Path oid)) q \<and> purges q = Some t \<and> RespUnix md \<le> t)"
  proof (cases found)
    case True
    then obtain q where q: "best purges (pt_split (ID_Path oid)) q" "purges q = Some u"
      using r(2) by (auto simp: found_best_def)
    have "t = u" if "best purges (pt_split (ID_Path oid)) q'" "purges q' = Some t" for q' t
      using best_unique [OF q(1) that(1)] q(2) that(2) by simp
    then have "(\<exists>q t. best purges (pt_split (ID_Path oid)) q \<and> purges q = Some t \<and> RespUnix md \<le> t) \<longleftrightarrow> RespUnix md \<le> u"
      using q by blast
    then show ?thesis using True by (simp only: expired_def simp_thms)
  next
    case False
    then have "purges q = None" if "matches q (pt_split (ID_Path oid))" for q
      using r(2) that by (simp add: found_best_def)
    then show ?thesis using False by (auto simp: expired_def best_def)
  qed
  moreover have "wrapped_Lookup now ?c base oid s =
      ((Some (if expired then md\<lparr>ExpiresAt := now - 1\<rparr> else md), None), s')"
    using assms(5) r(1) by (auto simp: wrapped_Lookup_def Marked_def expired_def Let_def)
  ultimately show ?thesis by blast
qed

text \<open>An identifier of a path, a stored object and a bucket that holds only it.\<close>

definition sample_bucket :: "(unit, u32_list, unit, unit, unit, unit, unit) bucket_ops" where
  "sample_bucket = wrapBucket 0 (None :: unit checker option)
     \<lparr>bk_Lookup = (\<lambda>oid s. ((Some sample_md, None), s)), bk_Touch = (\<lambda>_ s. s), bk_Store = (\<lambda>_ s. (None, s)),
      bk_Exist = (\<lambda>_ _. Some True), bk_Remove = (\<lambda>_ s. (None, s)), bk_Discard = (\<lambda>_ s. (None, s)),
      bk_DiscardWithHash = (\<lambda>_ s. (None, s)), bk_DiscardWithMessage = (\<lambda>_ _ s. (None, s)),
      bk_DiscardWithMetadata = (\<lambda>_ s. (None, s)), bk_Iterate = (\<lambda>_ _ c. (None, c)),
      bk_Expired = (\<lambda>_ _ _. Some False), bk_WriteChunkFile = (\<lambda>_ _ s. ((Inr (), []), s)),
      bk_ReadChunkFile = (\<lambda>_ _ s. ((Inr (), []), s)), bk_Migrate = (\<lambda>_ _ s. (None, s)),
      bk_SetMigration = (\<lambda>_ s. (None, s)), bk_ID = (\<lambda>_. []), bk_Weight = (\<lambda>_. 100), bk_Allow = (\<lambda>_. Some 0),
      bk_UseAllow = (\<lambda>_. True), bk_Objects = (\<lambda>_. 1), bk_HasBad = (\<lambda>_. False), bk_Type = (\<lambda>_. []),
      bk_StoreType = (\<lambda>_. []), bk_Path = (\<lambda>_. []), bk_TopK = (\<lambda>_ _. Some []), bk_Close = (\<lambda>s. (None, s))\<rparr>"

definition sample_checker :: "(bytes \<times> bytes) list noneSharedKV checker" where
  "sample_checker = the (NewChecker (\<lambda>_. None) sample_kv (Some \<lparr>kv_db = [], kv_closed = False\<rparr>) [])"

lemma sample_checker_new:
  "NewChecker (\<lambda>_. None) sample_kv (Some \<lparr>kv_db = [], kv_closed = False\<rparr>) [] = Some sample_checker"
  by (simp add: sample_checker_def NewChecker_def split: prod.split)

lemma wrapped_Lookup_purged_witness:
  "\<exists>expired. wrapped_Lookup 30 (purge_adds (\<lambda>_. None) sample_kv [(10, ''/a''), (20, ''/a/b'')] sample_checker)
      sample_bucket (NewID ''/a/b/c'') () =
      ((Some (if expired then sample_md\<lparr>ExpiresAt := 30 - 1\<rparr> else sample_md), None), ()) \<and>
    (expired \<longleftrightarrow> (\<exists>q t. best (last_values (map prod.swap [(10, ''/a''), (20 :: int, ''/a/b'')])) (pt_split (ID_Path (NewID ''/a/b/c''))) q \<and>
       last_values (map prod.swap [(10, ''/a''), (20 :: int, ''/a/b'')]) q = Some t \<and> RespUnix sample_md \<le> t))"
  by (rule wrapped_Lookup_purged [OF sample_kv_shared _ sample_checker_new])
    (auto simp: regular_def pt_split_parts is_regex_part_def sample_bucket_def wrapBucket_def)



end
