(* ===== verification/Index_DB.thy ===== *)
theory Index_DB
  imports Storage_Iface
begin

text \<open>
  The index of object metadata: the interface \<^verbatim>\<open>storage.IndexDB\<close> of
  \<^verbatim>\<open>src/api/defined/v1/storage/indexdb.go\<close> as a record of operations, what its users rely on as the locale
  \<open>index_db\<close>, and the implementation \<^verbatim>\<open>src/storage/indexdb/pebble/pebble.go\<close> over the database Pebble.
  The codec of the metadata is a parameter.  Decoding fills the metadata it is given, so it returns
  both metadata and an error.
\<close>

record 'b codec_ops =
  cd_Marshal :: "'b Metadata \<Rightarrow> st_err + bytes"
  cd_Unmarshal :: "bytes \<Rightarrow> 'b Metadata \<times> st_err option"

record ('i, 'b, 'c) indexdb_ops =
  ix_Get :: "bytes \<Rightarrow> 'i \<Rightarrow> 'b Metadata option \<times> st_err option"
  ix_Set :: "bytes \<Rightarrow> 'b Metadata \<Rightarrow> 'i \<Rightarrow> st_err option \<times> 'i"
  ix_Exist :: "bytes \<Rightarrow> 'i \<Rightarrow> bool"
  ix_Delete :: "bytes \<Rightarrow> 'i \<Rightarrow> st_err option \<times> 'i"
  ix_Iterate :: "bytes option \<Rightarrow> (bytes \<Rightarrow> 'b Metadata \<Rightarrow> 'c \<Rightarrow> bool \<times> 'c) \<Rightarrow> 'i \<Rightarrow> 'c \<Rightarrow> st_err option \<times> 'c"
  ix_Expired :: "(bytes \<Rightarrow> 'b Metadata \<Rightarrow> 'c \<Rightarrow> bool \<times> 'c) \<Rightarrow> 'i \<Rightarrow> 'c \<Rightarrow> st_err option \<times> 'c"
  ix_GC :: "'i \<Rightarrow> st_err option \<times> 'i"
  ix_Close :: "'i \<Rightarrow> st_err option \<times> 'i"

subsection \<open>pebble.go\<close>

record ('db, 'b) PebbleDB =
  px_codec :: "'b codec_ops"
  px_db :: 'db
  px_skipErrRecord :: bool
  px_closed :: bool

definition px_err :: "pb_err option \<Rightarrow> st_err option" where
  "px_err = map_option (\<lambda>e. StKV (KvPebble e))"

definition px_Get :: "('db, 'x) pebble_ops \<Rightarrow> bytes \<Rightarrow> ('db, 'b) PebbleDB \<Rightarrow> 'b Metadata option \<times> st_err option" where
  "px_Get P key p =
     (case pb_Get P (px_db p) key of
        Inl e \<Rightarrow> if e = PbNotFound then (None, Some (StKV ErrKeyNotFound)) else (None, Some (StKV (KvPebble e)))
      | Inr buf \<Rightarrow> let (meta, err) = cd_Unmarshal (px_codec p) buf in (Some meta, err))"

definition px_Set :: "('db, 'x) pebble_ops \<Rightarrow> bytes \<Rightarrow> 'b Metadata \<Rightarrow> ('db, 'b) PebbleDB \<Rightarrow>
    st_err option \<times> ('db, 'b) PebbleDB" where
  "px_Set P key val p =
     (case cd_Marshal (px_codec p) val of
        Inl err \<Rightarrow> (Some err, p)
      | Inr buf \<Rightarrow> let (err, db) = pb_Set P key buf (px_db p) in (px_err err, p\<lparr>px_db := db\<rparr>))"

text \<open>The result of the callback is ignored.  In the second loop an unreadable value returns the outer error, which is nil.\<close>

fun px_skip_loop :: "'b codec_ops \<Rightarrow> (bytes \<Rightarrow> 'b Metadata \<Rightarrow> 'c \<Rightarrow> bool \<times> 'c) \<Rightarrow>
    (bytes \<times> (pb_err + bytes)) list \<Rightarrow> 'c \<Rightarrow> 'c" where
  "px_skip_loop codec f [] c = c"
| "px_skip_loop codec f ((key, value) # es) c =
     (case value of
        Inl _ \<Rightarrow> px_skip_loop codec f es c
      | Inr buf \<Rightarrow>
          let (meta, err) = cd_Unmarshal codec buf in
          if err \<noteq> None then px_skip_loop codec f es c
          else px_skip_loop codec f es (snd (f key meta c)))"

fun px_strict_loop :: "'b codec_ops \<Rightarrow> (bytes \<Rightarrow> 'b Metadata \<Rightarrow> 'c \<Rightarrow> bool \<times> 'c) \<Rightarrow>
    (bytes \<times> (pb_err + bytes)) list \<Rightarrow> 'c \<Rightarrow> st_err option \<times> 'c" where
  "px_strict_loop codec f [] c = (None, c)"
| "px_strict_loop codec f ((key, value) # es) c =
     (case value of
        Inl _ \<Rightarrow> (None, c)
      | Inr buf \<Rightarrow>
          let (meta, err) = cd_Unmarshal codec buf in
          if err \<noteq> None then (err, c)
          else px_strict_loop codec f es (snd (f key meta c)))"

definition px_Iterate :: "('db, 'x) pebble_ops \<Rightarrow> bytes option \<Rightarrow> (bytes \<Rightarrow> 'b Metadata \<Rightarrow> 'c \<Rightarrow> bool \<times> 'c) \<Rightarrow>
    ('db, 'b) PebbleDB \<Rightarrow> 'c \<Rightarrow> st_err option \<times> 'c" where
  "px_Iterate P prefix f p c =
     (case pb_Iter P [] None (px_db p) of
        Inl e \<Rightarrow> (Some (StKV (KvPebble e)), c)
      | Inr es \<Rightarrow>
          if px_skipErrRecord p then (None, px_skip_loop (px_codec p) f es c)
          else px_strict_loop (px_codec p) f es c)"

definition px_Delete :: "('db, 'x) pebble_ops \<Rightarrow> bytes \<Rightarrow> ('db, 'b) PebbleDB \<Rightarrow> st_err option \<times> ('db, 'b) PebbleDB" where
  "px_Delete P key p = (let (err, db) = pb_Delete P key (px_db p) in (px_err err, p\<lparr>px_db := db\<rparr>))"

definition px_Exist :: "('db, 'x) pebble_ops \<Rightarrow> bytes \<Rightarrow> ('db, 'b) PebbleDB \<Rightarrow> bool" where
  "px_Exist P key p = (case pb_Get P (px_db p) key of Inl _ \<Rightarrow> False | Inr _ \<Rightarrow> True)"

definition px_Expired :: "(bytes \<Rightarrow> 'b Metadata \<Rightarrow> 'c \<Rightarrow> bool \<times> 'c) \<Rightarrow> ('db, 'b) PebbleDB \<Rightarrow> 'c \<Rightarrow> st_err option \<times> 'c" where
  "px_Expired f p c = (Some StPanic, c)"

text \<open>The flush before the close has no effect on the contents.\<close>

definition px_Close :: "('db, 'x) pebble_ops \<Rightarrow> ('db, 'b) PebbleDB \<Rightarrow> st_err option \<times> ('db, 'b) PebbleDB" where
  "px_Close P p =
     (if px_closed p then (None, p)
      else
        let (err, db) = pb_Close P (px_db p) in (px_err err, p\<lparr>px_db := db, px_closed := True\<rparr>))"

definition px_GC :: "('db, 'b) PebbleDB \<Rightarrow> st_err option \<times> ('db, 'b) PebbleDB" where
  "px_GC p = (None, p)"

definition pebble_index :: "('db, 'x) pebble_ops \<Rightarrow> (('db, 'b) PebbleDB, 'b, 'c) indexdb_ops" where
  "pebble_index P =
     \<lparr>ix_Get = px_Get P, ix_Set = px_Set P, ix_Exist = px_Exist P, ix_Delete = px_Delete P,
      ix_Iterate = px_Iterate P, ix_Expired = px_Expired, ix_GC = px_GC, ix_Close = px_Close P\<rparr>"

subsection \<open>What users of an index rely on\<close>

text \<open>
  \<open>good\<close> are the metadata that survive the codec, \<open>ok\<close> the indexes that hold only such.  On these an index is a finite map.
\<close>

locale index_db =
  fixes I :: "('i, 'b, 'c) indexdb_ops"
    and objs :: "'i \<Rightarrow> (bytes \<rightharpoonup> 'b Metadata)"
    and good :: "'b Metadata \<Rightarrow> bool"
    and ok :: "'i \<Rightarrow> bool"
  assumes get: "ok i \<Longrightarrow> ix_Get I k i =
      (case objs i k of None \<Rightarrow> (None, Some (StKV ErrKeyNotFound)) | Some md \<Rightarrow> (Some md, None))"
    and set: "ok i \<Longrightarrow> good md \<Longrightarrow> \<exists>i'. ix_Set I k md i = (None, i') \<and> ok i' \<and> objs i' = (objs i)(k \<mapsto> md)"
    and delete: "ok i \<Longrightarrow> \<exists>i'. ix_Delete I k i = (None, i') \<and> ok i' \<and> objs i' = (objs i)(k := None)"
    and exist: "ok i \<Longrightarrow> ix_Exist I k i \<longleftrightarrow> objs i k \<noteq> None"
    and iterate: "ok i \<Longrightarrow> \<exists>es. ix_Iterate I p f i c = (None, fold (\<lambda>(k, md) c. snd (f k md c)) es c) \<and>
      distinct (map fst es) \<and> (\<forall>k md. (k, md) \<in> set es \<longleftrightarrow> objs i k = Some md)"

subsection \<open>Pebble as an index\<close>

definition px_objs :: "('db \<Rightarrow> (bytes \<rightharpoonup> bytes)) \<Rightarrow> ('db, 'b) PebbleDB \<Rightarrow> (bytes \<rightharpoonup> 'b Metadata)" where
  "px_objs cont p k = map_option (\<lambda>buf. fst (cd_Unmarshal (px_codec p) buf)) (cont (px_db p) k)"

definition codec_good :: "'b codec_ops \<Rightarrow> 'b Metadata \<Rightarrow> bool" where
  "codec_good codec md \<longleftrightarrow> (case cd_Marshal codec md of Inl _ \<Rightarrow> False | Inr buf \<Rightarrow> cd_Unmarshal codec buf = (md, None))"

definition px_ok :: "('db \<Rightarrow> (bytes \<rightharpoonup> bytes)) \<Rightarrow> 'b codec_ops \<Rightarrow> ('db, 'b) PebbleDB \<Rightarrow> bool" where
  "px_ok cont codec p \<longleftrightarrow> px_codec p = codec \<and>
     (\<forall>k buf. cont (px_db p) k = Some buf \<longrightarrow> snd (cd_Unmarshal codec buf) = None)"

lemma px_skip_loop_fold:
  assumes "\<forall>(k, buf)\<in>set es. snd (cd_Unmarshal codec buf) = None"
  shows "px_skip_loop codec f (map (\<lambda>(k, v). (k, Inr v)) es) c =
    fold (\<lambda>(k, md) c. snd (f k md c)) (map (\<lambda>(k, buf). (k, fst (cd_Unmarshal codec buf))) es) c"
  using assms by (induction es arbitrary: c) (auto simp: case_prod_beta)

lemma px_strict_loop_fold:
  assumes "\<forall>(k, buf)\<in>set es. snd (cd_Unmarshal codec buf) = None"
  shows "px_strict_loop codec f (map (\<lambda>(k, v). (k, Inr v)) es) c =
    (None, fold (\<lambda>(k, md) c. snd (f k md c)) (map (\<lambda>(k, buf). (k, fst (cd_Unmarshal codec buf))) es) c)"
  using assms by (induction es arbitrary: c) (auto simp: case_prod_beta)

context pebble
begin

lemma px_Get_objs:
  assumes "px_ok cont codec p"
  shows "px_Get P k p =
    (case px_objs cont p k of None \<Rightarrow> (None, Some (StKV ErrKeyNotFound)) | Some md \<Rightarrow> (Some md, None))"
  using assms by (auto simp: px_Get_def pb_get px_objs_def px_ok_def case_prod_beta split: option.splits)

lemma px_Set_objs:
  assumes "px_ok cont codec p" "codec_good codec md"
  shows "\<exists>p'. px_Set P k md p = (None, p') \<and> px_ok cont codec p' \<and> px_objs cont p' = (px_objs cont p)(k \<mapsto> md)"
proof -
  obtain buf where buf: "cd_Marshal codec md = Inr buf" "cd_Unmarshal codec buf = (md, None)"
    using assms(2) by (auto simp: codec_good_def split: sum.splits)
  obtain db where "pb_Set P k buf (px_db p) = (None, db)" "cont db = (cont (px_db p))(k \<mapsto> buf)"
    using pb_set by blast
  with buf assms(1) show ?thesis
    by (auto simp: px_Set_def px_err_def px_ok_def px_objs_def fun_eq_iff)
qed

lemma px_Delete_objs:
  assumes "px_ok cont codec p"
  shows "\<exists>p'. px_Delete P k p = (None, p') \<and> px_ok cont codec p' \<and> px_objs cont p' = (px_objs cont p)(k := None)"
proof -
  obtain db where "pb_Delete P k (px_db p) = (None, db)" "cont db = (cont (px_db p))(k := None)"
    using pb_delete by blast
  with assms show ?thesis by (auto simp: px_Delete_def px_err_def px_ok_def px_objs_def fun_eq_iff)
qed

lemma px_Iterate_objs:
  assumes "px_ok cont codec p"
  shows "\<exists>es. px_Iterate P pre f p c = (None, fold (\<lambda>(k, md) c. snd (f k md c)) es c) \<and>
    distinct (map fst es) \<and> (\<forall>k md. (k, md) \<in> set es \<longleftrightarrow> px_objs cont p k = Some md)"
proof -
  obtain es where es: "pb_Iter P [] None (px_db p) = Inr (map (\<lambda>(k, v). (k, Inr v)) es)"
      "sorted_wrt (<) (map fst es)"
      "\<forall>k v. (k, v) \<in> set es \<longleftrightarrow> [] \<le> k \<and> below k None \<and> cont (px_db p) k = Some v"
    using pb_iter by blast
  have all: "(k, v) \<in> set es \<longleftrightarrow> cont (px_db p) k = Some v" for k v
    using es(3) by (simp add: below_def)
  have ok: "\<forall>(k, buf)\<in>set es. snd (cd_Unmarshal (px_codec p) buf) = None"
    using assms by (auto simp: all px_ok_def)
  define ms where "ms = map (\<lambda>(k, buf). (k, fst (cd_Unmarshal (px_codec p) buf))) es"
  have "px_Iterate P pre f p c = (None, fold (\<lambda>(k, md) c. snd (f k md c)) ms c)"
    unfolding ms_def px_Iterate_def es(1) by (simp add: px_skip_loop_fold [OF ok] px_strict_loop_fold [OF ok])
  moreover have "distinct (map fst ms)"
    using es(2) strict_sorted_iff [of "map fst es"] by (simp add: ms_def comp_def case_prod_beta)
  moreover have "(k, md) \<in> set ms \<longleftrightarrow> px_objs cont p k = Some md" for k md
    by (force simp: ms_def px_objs_def all)
  ultimately show ?thesis by blast
qed

lemma px_Exist_objs: "px_Exist P k p \<longleftrightarrow> px_objs cont p k \<noteq> None"
  by (simp add: px_Exist_def pb_get px_objs_def split: option.split)

end
lemma pebble_index_db:
  assumes "pebble P cont"
  shows "index_db (pebble_index P) (px_objs cont) (codec_good codec) (px_ok cont codec)"
  using pebble.px_Get_objs [OF assms] pebble.px_Set_objs [OF assms] pebble.px_Delete_objs [OF assms]
    pebble.px_Exist_objs [OF assms] pebble.px_Iterate_objs [OF assms]
  by unfold_locales (simp_all add: pebble_index_def)

interpretation list_ix: index_db "pebble_index list_pebble" "px_objs map_of" "codec_good codec" "px_ok map_of codec"
  for codec
  by (rule pebble_index_db) (rule list_db.pebble_axioms)


end
