(* ===== verification/File_System.thy ===== *)
theory File_System
  imports Storage_Iface
begin

text \<open>
  The file system below a bucket: the functions of the package \<^verbatim>\<open>os\<close>, or of Pebble's \<^verbatim>\<open>vfs\<close> for the bucket in
  memory, as a record of operations, with the locale \<open>file_system\<close> for their documented behaviour on a healthy
  disk.  Over it the writer of a chunk file of \<^verbatim>\<open>src/pkg/iobuf/chunk_writer.go\<close> and the file wrapper of
  \<^verbatim>\<open>src/api/defined/v1/storage/file.go\<close>.
\<close>

text \<open>
  \<open>fs_Create\<close> opens a file for reading and writing and creates it when it is missing; it does not truncate.
  \<open>fs_ReadAll\<close> is what reads deliver up to the end of the file or an error.
\<close>

record ('fs, 'h) fs_ops =
  fs_MkdirAll :: "string \<Rightarrow> 'fs \<Rightarrow> st_err option \<times> 'fs"
  fs_Create :: "string \<Rightarrow> 'fs \<Rightarrow> (st_err + 'h) \<times> 'fs"
  fs_Open :: "string \<Rightarrow> 'fs \<Rightarrow> (st_err + 'h) \<times> 'fs"
  fs_ReadAll :: "'h \<Rightarrow> 'fs \<Rightarrow> (bytes \<times> st_err option) \<times> 'fs"
  fs_Write :: "'h \<Rightarrow> bytes \<Rightarrow> 'fs \<Rightarrow> st_err option \<times> 'fs"
  fs_CloseFile :: "'h \<Rightarrow> 'fs \<Rightarrow> st_err option \<times> 'fs"
  fs_Rename :: "string \<Rightarrow> string \<Rightarrow> 'fs \<Rightarrow> st_err option \<times> 'fs"
  fs_Remove :: "string \<Rightarrow> 'fs \<Rightarrow> st_err option \<times> 'fs"

subsection \<open>chunk\_writer.go\<close>

text \<open>The closer is a renaming for the bucket on disk and does nothing for the one in memory.\<close>

record 'h chunkWriter =
  cw_w :: 'h
  cw_closer :: "(string \<times> string) option"

definition ChunkWriterCloser :: "'h \<Rightarrow> (string \<times> string) option \<Rightarrow> 'h chunkWriter" where
  "ChunkWriterCloser f closer = \<lparr>cw_w = f, cw_closer = closer\<rparr>"

definition run_closer :: "('fs, 'h) fs_ops \<Rightarrow> (string \<times> string) option \<Rightarrow> 'fs \<Rightarrow> st_err option \<times> 'fs" where
  "run_closer F closer fs = (case closer of None \<Rightarrow> (None, fs) | Some (tmpPath, wpath) \<Rightarrow> fs_Rename F tmpPath wpath fs)"

definition cw_Write :: "('fs, 'h) fs_ops \<Rightarrow> 'h chunkWriter \<Rightarrow> bytes \<Rightarrow> 'fs \<Rightarrow> st_err option \<times> 'fs" where
  "cw_Write F cw p fs = fs_Write F (cw_w cw) p fs"

definition cw_Close :: "('fs, 'h) fs_ops \<Rightarrow> 'h chunkWriter \<Rightarrow> 'fs \<Rightarrow> st_err option \<times> 'fs" where
  "cw_Close F cw fs =
     (let (err, fs) = fs_CloseFile F (cw_w cw) fs in
      if err \<noteq> None then (err, fs) else run_closer F (cw_closer cw) fs)"

subsection \<open>file.go\<close>

record 'h vfsFile =
  vf_File :: 'h
  vf_closed :: bool

definition WrapVFSFile :: "'h \<Rightarrow> 'h vfsFile" where
  "WrapVFSFile f = \<lparr>vf_File = f, vf_closed = False\<rparr>"

definition vf_Name :: "'h vfsFile \<Rightarrow> string" where
  "vf_Name v = ''memoryfs''"

definition vf_Close :: "('fs, 'h) fs_ops \<Rightarrow> 'h vfsFile \<Rightarrow> 'fs \<Rightarrow> st_err option \<times> 'h vfsFile \<times> 'fs" where
  "vf_Close F v fs =
     (if vf_closed v then (None, v, fs)
      else let (err, fs) = fs_CloseFile F (vf_File v) fs in (err, v\<lparr>vf_closed := True\<rparr>, fs))"

subsection \<open>A healthy file system\<close>

text \<open>
  \<open>files\<close> are the contents by path, \<open>dirs\<close> the directories, \<open>opened\<close> the path and the offset of an open file.
\<close>

locale file_system =
  fixes F :: "('fs, 'h) fs_ops"
    and files :: "'fs \<Rightarrow> (string \<rightharpoonup> bytes)"
    and dirs :: "'fs \<Rightarrow> string set"
    and opened :: "'fs \<Rightarrow> ('h \<rightharpoonup> string \<times> nat)"
  assumes mkdir: "\<forall>q\<in>dom (files fs). \<not> HasPrefix (p @ ''/'') (q @ ''/'') \<Longrightarrow> \<exists>fs'. fs_MkdirAll F p fs = (None, fs') \<and> files fs' = files fs \<and> opened fs' = opened fs \<and>
      insert p (dirs fs) \<subseteq> dirs fs'"
    and create: "filepath_Dir p \<in> dirs fs \<Longrightarrow> \<exists>h fs'. fs_Create F p fs = (Inr h, fs') \<and>
      files fs' = (files fs)(p \<mapsto> (case files fs p of None \<Rightarrow> [] | Some b \<Rightarrow> b)) \<and> dirs fs' = dirs fs \<and>
      opened fs h = None \<and> opened fs' = (opened fs)(h \<mapsto> (p, 0))"
    and open_some: "files fs p = Some b \<Longrightarrow> \<exists>h fs'. fs_Open F p fs = (Inr h, fs') \<and>
      files fs' = files fs \<and> dirs fs' = dirs fs \<and> opened fs h = None \<and> opened fs' = (opened fs)(h \<mapsto> (p, 0))"
    and open_none: "files fs p = None \<Longrightarrow> \<exists>fs'. fs_Open F p fs = (Inl StNotExist, fs') \<and>
      files fs' = files fs \<and> dirs fs' = dirs fs \<and> opened fs' = opened fs"
    and read_all: "opened fs h = Some (p, n) \<Longrightarrow> files fs p = Some b \<Longrightarrow>
      \<exists>fs'. fs_ReadAll F h fs = ((drop n b, None), fs') \<and> files fs' = files fs \<and> dirs fs' = dirs fs \<and>
        opened fs' = (opened fs)(h \<mapsto> (p, max n (length b)))"
    and write_file: "opened fs h = Some (p, n) \<Longrightarrow> files fs p = Some b \<Longrightarrow> n \<le> length b \<Longrightarrow>
      \<exists>fs'. fs_Write F h bs fs = (None, fs') \<and>
        files fs' = (files fs)(p \<mapsto> take n b @ bs @ drop (n + length bs) b) \<and> dirs fs' = dirs fs \<and>
        opened fs' = (opened fs)(h \<mapsto> (p, n + length bs))"
    and close_file: "opened fs h \<noteq> None \<Longrightarrow> \<exists>fs'. fs_CloseFile F h fs = (None, fs') \<and>
      files fs' = files fs \<and> dirs fs' = dirs fs \<and> opened fs' = (opened fs)(h := None)"
    and rename: "files fs p = Some b \<Longrightarrow> filepath_Dir q \<in> dirs fs \<Longrightarrow> q \<notin> dirs fs \<Longrightarrow>
      \<exists>fs'. fs_Rename F p q fs = (None, fs') \<and>
        files fs' = (files fs)(p := None, q \<mapsto> b) \<and> dirs fs' = dirs fs \<and>
        (\<forall>h r n. r \<noteq> p \<and> r \<noteq> q \<and> opened fs h = Some (r, n) \<longrightarrow> opened fs' h = Some (r, n))"
    and remove: "\<exists>e fs'. fs_Remove F p fs = (e, fs') \<and> files fs' = (files fs)(p := None) \<and> dirs fs' \<subseteq> dirs fs \<and>
      (files fs p \<noteq> None \<longrightarrow> e = None) \<and> (files fs p = None \<and> p \<notin> dirs fs \<longrightarrow> e = Some StNotExist) \<and>
      (\<forall>h r n. r \<noteq> p \<and> opened fs h = Some (r, n) \<longrightarrow> opened fs' h = Some (r, n))"

text \<open>A file system of lists: the contract can be met.\<close>

record list_fs =
  lf_files :: "(string \<times> bytes) list"
  lf_dirs :: "string list"
  lf_opened :: "(nat \<times> string \<times> nat) list"
  lf_next :: nat

definition lf_handle :: "nat \<Rightarrow> list_fs \<Rightarrow> (string \<times> nat) option" where
  "lf_handle h fs = (if h < lf_next fs then map_of (lf_opened fs) h else None)"

definition lf_open :: "string \<Rightarrow> list_fs \<Rightarrow> (st_err + nat) \<times> list_fs" where
  "lf_open p fs = (Inr (lf_next fs), fs\<lparr>lf_opened := (lf_next fs, p, 0) # lf_opened fs, lf_next := Suc (lf_next fs)\<rparr>)"

definition list_fs_ops :: "(list_fs, nat) fs_ops" where
  "list_fs_ops =
     \<lparr>fs_MkdirAll = (\<lambda>p fs. (None, fs\<lparr>lf_dirs := p # lf_dirs fs\<rparr>)),
      fs_Create = (\<lambda>p fs. lf_open p (fs\<lparr>lf_files := (p, case map_of (lf_files fs) p of None \<Rightarrow> [] | Some b \<Rightarrow> b) # lf_files fs\<rparr>)),
      fs_Open = (\<lambda>p fs. case map_of (lf_files fs) p of None \<Rightarrow> (Inl StNotExist, fs) | Some _ \<Rightarrow> lf_open p fs),
      fs_ReadAll = (\<lambda>h fs. case lf_handle h fs of
          None \<Rightarrow> (([], Some StNotExist), fs)
        | Some (p, n) \<Rightarrow> (case map_of (lf_files fs) p of
              None \<Rightarrow> (([], Some StNotExist), fs)
            | Some b \<Rightarrow> ((drop n b, None), fs\<lparr>lf_opened := (h, p, max n (length b)) # lf_opened fs\<rparr>))),
      fs_Write = (\<lambda>h bs fs. case lf_handle h fs of
          None \<Rightarrow> (Some StNotExist, fs)
        | Some (p, n) \<Rightarrow> (case map_of (lf_files fs) p of
              None \<Rightarrow> (Some StNotExist, fs)
            | Some b \<Rightarrow> (None, fs\<lparr>lf_files := (p, take n b @ bs @ drop (n + length bs) b) # lf_files fs,
                                lf_opened := (h, p, n + length bs) # lf_opened fs\<rparr>))),
      fs_CloseFile = (\<lambda>h fs. (None, fs\<lparr>lf_opened := filter (\<lambda>e. fst e \<noteq> h) (lf_opened fs)\<rparr>)),
      fs_Rename = (\<lambda>p q fs. case map_of (lf_files fs) p of
          None \<Rightarrow> (Some StNotExist, fs)
        | Some b \<Rightarrow> (None, fs\<lparr>lf_files := (q, b) # filter (\<lambda>e. fst e \<noteq> p) (lf_files fs)\<rparr>)),
      fs_Remove = (\<lambda>p fs. (if map_of (lf_files fs) p = None then Some StNotExist else None,
                      fs\<lparr>lf_files := filter (\<lambda>e. fst e \<noteq> p) (lf_files fs)\<rparr>))\<rparr>"

interpretation list_fs: file_system list_fs_ops "\<lambda>fs. map_of (lf_files fs)" "\<lambda>fs. set (lf_dirs fs)"
    "\<lambda>fs h. lf_handle h fs"
  by unfold_locales
    (auto simp: list_fs_ops_def lf_open_def lf_handle_def fun_eq_iff map_of_filter_fst [where Q = "\<lambda>x. x \<noteq> k" for k]
      split: if_splits)

end
