(* ===== verification/Bucket_Core.thy ===== *)
theory Bucket_Core
  imports Index_DB File_System Lfu_Cache
begin

text \<open>
  What the bucket on disk (\<^verbatim>\<open>src/storage/bucket/disk/disk.go\<close>) and the bucket in memory
  (\<^verbatim>\<open>src/storage/bucket/memory/memory.go\<close>) have in common.  Both keep the metadata in an index, the access
  marks in a cache, the chunks in files, and for every object an entry of the inverted index and a count of its
  domain in the shared store.  The fields that both structs have are the record \<open>bucket_core\<close>, which the two
  buckets extend; the operations are written once, for every extension.

  The things a bucket is connected to are the record \<open>bucket_env\<close>.  \<open>env_host\<close> is the host of a parsed URL, \<open>None\<close> when
  \<^verbatim>\<open>url.Parse\<close> fails; \<open>env_time\<close> prints a Unix time.
\<close>

record ('i, 'b, 'c, 'kv, 'k, 'fs, 'h) bucket_env =
  env_index :: "('i, 'b, 'c) indexdb_ops"
  env_kv :: "('kv, 'k) shared_kv_ops"
  env_fs :: "('fs, 'h) fs_ops"
  env_bm :: "'b bitmap_ops"
  env_host :: "string \<Rightarrow> string option"
  env_time :: "64 word \<Rightarrow> string"

text \<open>\<open>bc_migration\<close> tells whether a migration is set; \<open>bc_fs\<close> are the files below the path of the bucket.\<close>

record ('i, 'kv, 'fs) bucket_core =
  bc_path :: string
  bc_dbPath :: string
  bc_driver :: string
  bc_storeType :: string
  bc_weight :: int
  bc_sharedkv :: 'kv
  bc_indexdb :: 'i
  bc_cache :: "(bytes, mark) cache"
  bc_fs :: 'fs
  bc_migration :: bool

text \<open>The cache never fails on a state it can reach, so the results \<open>None\<close> of its operations need no care.\<close>

definition cache_Get :: "bytes \<Rightarrow> (bytes, mark) cache \<Rightarrow> mark option \<times> (bytes, mark) cache" where
  "cache_Get key c = (case lfu_Get key c of Some r \<Rightarrow> r | None \<Rightarrow> (None, c))"

definition cache_Set :: "bytes \<Rightarrow> mark \<Rightarrow> (bytes, mark) cache \<Rightarrow> (bytes, mark) cache" where
  "cache_Set key m c = (case lfu_Set key m c of Some c' \<Rightarrow> c' | None \<Rightarrow> c)"

text \<open>The keys of the shared store.\<close>

definition ix_key :: "string \<Rightarrow> string \<Rightarrow> bytes" where
  "ix_key bucketID key = ''ix/'' @ bucketID @ ''/'' @ key"

definition domain_key :: "string \<Rightarrow> bytes" where
  "domain_key host = ''if/domain/'' @ host"

definition bc_incr_domain :: "('i, 'b, 'c, 'kv, 'k, 'fs, 'h) bucket_env \<Rightarrow> ID \<Rightarrow>
    ('i, 'kv, 'fs, 'z) bucket_core_scheme \<Rightarrow> ('i, 'kv, 'fs, 'z) bucket_core_scheme" where
  "bc_incr_domain E oid b =
     (case env_host E (ID_Path oid) of
        None \<Rightarrow> b
      | Some host \<Rightarrow> b\<lparr>bc_sharedkv := snd (sk_Incr (env_kv E) (domain_key host) 1 (bc_sharedkv b))\<rparr>)"

definition bc_decr_domain :: "('i, 'b, 'c, 'kv, 'k, 'fs, 'h) bucket_env \<Rightarrow> ID \<Rightarrow>
    ('i, 'kv, 'fs, 'z) bucket_core_scheme \<Rightarrow> ('i, 'kv, 'fs, 'z) bucket_core_scheme" where
  "bc_decr_domain E oid b =
     (case env_host E (ID_Path oid) of
        None \<Rightarrow> b
      | Some host \<Rightarrow> b\<lparr>bc_sharedkv := snd (sk_Decr (env_kv E) (domain_key host) 1 (bc_sharedkv b))\<rparr>)"

definition bc_set_index :: "('i, 'b, 'c, 'kv, 'k, 'fs, 'h) bucket_env \<Rightarrow> ID \<Rightarrow>
    ('i, 'kv, 'fs, 'z) bucket_core_scheme \<Rightarrow> ('i, 'kv, 'fs, 'z) bucket_core_scheme" where
  "bc_set_index E oid b =
     b\<lparr>bc_sharedkv := snd (sk_Set (env_kv E) (ix_key (bc_path b) (ID_Key oid)) (ID_Bytes oid) (bc_sharedkv b))\<rparr>"

definition bc_del_index :: "('i, 'b, 'c, 'kv, 'k, 'fs, 'h) bucket_env \<Rightarrow> ID \<Rightarrow>
    ('i, 'kv, 'fs, 'z) bucket_core_scheme \<Rightarrow> ('i, 'kv, 'fs, 'z) bucket_core_scheme" where
  "bc_del_index E oid b =
     b\<lparr>bc_sharedkv := snd (sk_Delete (env_kv E) (ix_key (bc_path b) (ID_Key oid)) (bc_sharedkv b))\<rparr>"

definition bc_del_meta :: "('i, 'b, 'c, 'kv, 'k, 'fs, 'h) bucket_env \<Rightarrow> ID \<Rightarrow>
    ('i, 'kv, 'fs, 'z) bucket_core_scheme \<Rightarrow> ('i, 'kv, 'fs, 'z) bucket_core_scheme" where
  "bc_del_meta E oid b = b\<lparr>bc_indexdb := snd (ix_Delete (env_index E) (ID_Bytes oid) (bc_indexdb b))\<rparr>"

text \<open>Errors of a removal are only logged.\<close>

definition bc_remove_chunks :: "('i, 'b, 'c, 'kv, 'k, 'fs, 'h) bucket_env \<Rightarrow> 'b Metadata \<Rightarrow>
    ('i, 'kv, 'fs, 'z) bucket_core_scheme \<Rightarrow> ('i, 'kv, 'fs, 'z) bucket_core_scheme" where
  "bc_remove_chunks E md b =
     fold (\<lambda>x b. b\<lparr>bc_fs := snd (fs_Remove (env_fs E) (WPathSlice (bc_path b) x (md_ID md)) (bc_fs b))\<rparr>)
       (bm_Range (env_bm E) (Chunks md)) b"

text \<open>
  \<^verbatim>\<open>discard\<close> of an object also discards its variants, which are looked up again and discarded in the same way.
  The depth of this recursion is bounded by the stack: \<open>None\<close> is a stack overflow, which ends the program.
\<close>

function bc_discard :: "('i, 'b, 'c, 'kv, 'k, 'fs, 'h) bucket_env \<Rightarrow> nat \<Rightarrow> 'b Metadata option \<Rightarrow>
    ('i, 'kv, 'fs, 'z) bucket_core_scheme \<Rightarrow> (st_err option \<times> ('i, 'kv, 'fs, 'z) bucket_core_scheme) option"
  and bc_discard_varies :: "('i, 'b, 'c, 'kv, 'k, 'fs, 'h) bucket_env \<Rightarrow> nat \<Rightarrow> 'b Metadata \<Rightarrow> string list \<Rightarrow>
    ('i, 'kv, 'fs, 'z) bucket_core_scheme \<Rightarrow> ('i, 'kv, 'fs, 'z) bucket_core_scheme option" where
  "bc_discard E 0 md b = None"
| "bc_discard E (Suc n) None b = Some (Some StNotExist, b)"
| "bc_discard E (Suc n) (Some md) b =
     do {
       let b = bc_del_meta E (md_ID md) b;
       b \<leftarrow> (if IsVary md \<and> length (VirtualKey md) > 0 then bc_discard_varies E n md (VirtualKey md) b else Some b);
       let b = bc_remove_chunks E md b;
       let b = bc_del_index E (md_ID md) b;
       Some (None, bc_decr_domain E (md_ID md) b)
     }"
| "bc_discard_varies E n md [] b = Some b"
| "bc_discard_varies E n md (varyKey # ks) b =
     (let oid = NewVirtualID (ID_Path (md_ID md)) varyKey in
      if EqualFold (ID_HashStr oid) (ID_HashStr (md_ID md)) then bc_discard_varies E n md ks b
      else
        do {
          r \<leftarrow> (case ix_Get (env_index E) (ID_Bytes oid) (bc_indexdb b) of
                 (_, Some err) \<Rightarrow> Some (Some err, b)
               | (md', None) \<Rightarrow> bc_discard E n md' b);
          bc_discard_varies E n md ks (snd r)
        })"
  by pat_completeness auto

termination
  by (relation "measures [\<lambda>x. case x of Inl (E, n, _) \<Rightarrow> n | Inr (E, n, _) \<Rightarrow> n,
        \<lambda>x. case x of Inl _ \<Rightarrow> 0 | Inr (E, n, md, ks, b) \<Rightarrow> Suc (length ks)]") auto

definition bc_Discard :: "('i, 'b, 'c, 'kv, 'k, 'fs, 'h) bucket_env \<Rightarrow> nat \<Rightarrow> ID \<Rightarrow>
    ('i, 'kv, 'fs, 'z) bucket_core_scheme \<Rightarrow> (st_err option \<times> ('i, 'kv, 'fs, 'z) bucket_core_scheme) option" where
  "bc_Discard E n oid b =
     (case ix_Get (env_index E) (ID_Bytes oid) (bc_indexdb b) of
        (_, Some err) \<Rightarrow> Some (Some err, b)
      | (md, None) \<Rightarrow> bc_discard E n md b)"

definition bc_DiscardWithHash :: "('i, 'b, 'c, 'kv, 'k, 'fs, 'h) bucket_env \<Rightarrow> nat \<Rightarrow> bytes \<Rightarrow>
    ('i, 'kv, 'fs, 'z) bucket_core_scheme \<Rightarrow> (st_err option \<times> ('i, 'kv, 'fs, 'z) bucket_core_scheme) option" where
  "bc_DiscardWithHash E n hash b =
     (case ix_Get (env_index E) hash (bc_indexdb b) of
        (_, Some err) \<Rightarrow> Some (Some err, b)
      | (md, None) \<Rightarrow> bc_discard E n md b)"

text \<open>The access of an object updates its mark, when it has one with a clock.\<close>

definition bc_touch :: "int \<Rightarrow> ID \<Rightarrow> ('i, 'kv, 'fs, 'z) bucket_core_scheme \<Rightarrow>
    bool \<times> ('i, 'kv, 'fs, 'z) bucket_core_scheme" where
  "bc_touch unix oid b =
     (let (mark, c) = cache_Get (ID_Hash oid) (bc_cache b); b = b\<lparr>bc_cache := c\<rparr> in
      case mark of
        None \<Rightarrow> (False, b)
      | Some m \<Rightarrow>
          if LastAccess m \<le> 0 then (False, b)
          else
            let m = SetLastAccess unix m; m = SetRefs (Refs m + 1) m
            in (True, b\<lparr>bc_cache := cache_Set (ID_Hash oid) m (bc_cache b)\<rparr>))"

text \<open>\<open>None\<close> is a panic: of a negative count, or of a mark that is missing.\<close>

fun topk_lines :: "('i, 'b, 'c, 'kv, 'k, 'fs, 'h) bucket_env \<Rightarrow> ('i, 'kv, 'fs, 'z) bucket_core_scheme \<Rightarrow>
    bytes list \<Rightarrow> string list option" where
  "topk_lines E b [] = Some []"
| "topk_lines E b (hash # hs) =
     (case fst (ix_Get (env_index E) hash (bc_indexdb b)) of
        None \<Rightarrow> topk_lines E b hs
      | Some md \<Rightarrow>
          do {
            mark \<leftarrow> lfu_Peek hash (bc_cache b);
            rest \<leftarrow> topk_lines E b hs;
            Some ((ID_Path (md_ID md) @ ''@@'' @ env_time E (LastAccess mark) @ ''@@'' @
                   FormatInt (uint (Refs mark))) # rest)
          })"

definition bc_TopK :: "('i, 'b, 'c, 'kv, 'k, 'fs, 'h) bucket_env \<Rightarrow> int \<Rightarrow>
    ('i, 'kv, 'fs, 'z) bucket_core_scheme \<Rightarrow> string list option" where
  "bc_TopK E k b = do { arr \<leftarrow> TopK k (bc_cache b); topk_lines E b arr }"

text \<open>The callback of an index reports whether to go on; that of a bucket returns an error.\<close>

definition bc_Iterate :: "('i, 'b, 'c, 'kv, 'k, 'fs, 'h) bucket_env \<Rightarrow> ('b Metadata \<Rightarrow> 'c \<Rightarrow> st_err option \<times> 'c) \<Rightarrow>
    ('i, 'kv, 'fs, 'z) bucket_core_scheme \<Rightarrow> 'c \<Rightarrow> st_err option \<times> 'c" where
  "bc_Iterate E fn b c =
     ix_Iterate (env_index E) None (\<lambda>key val c. let (err, c) = fn val c in (err = None, c)) (bc_indexdb b) c"

subsection \<open>What a bucket holds\<close>

text \<open>
  The abstract state of a bucket: the objects by hash, the entries of the shared store except for the domain
  counters, and the files.
\<close>

record 'b bview =
  v_objs :: "bytes \<rightharpoonup> 'b Metadata"
  v_kv :: "bytes \<rightharpoonup> bytes"
  v_files :: "string \<rightharpoonup> bytes"

definition no_domains :: "(bytes \<rightharpoonup> bytes) \<Rightarrow> (bytes \<rightharpoonup> bytes)" where
  "no_domains m k = (if HasPrefix k ''if/domain/'' then None else m k)"

definition bucket_view :: "('i \<Rightarrow> (bytes \<rightharpoonup> 'b Metadata)) \<Rightarrow> ('kv \<Rightarrow> (bytes \<rightharpoonup> bytes)) \<Rightarrow> ('fs \<Rightarrow> (string \<rightharpoonup> bytes)) \<Rightarrow>
    ('i, 'kv, 'fs, 'z) bucket_core_scheme \<Rightarrow> 'b bview" where
  "bucket_view objs content files b =
     \<lparr>v_objs = objs (bc_indexdb b), v_kv = no_domains (content (bc_sharedkv b)), v_files = files (bc_fs b)\<rparr>"

text \<open>Every object is stored under the hash of its key and has its entry in the inverted index.\<close>

definition view_ok :: "string \<Rightarrow> 'b bview \<Rightarrow> bool" where
  "view_ok path v \<longleftrightarrow> (\<forall>k md. v_objs v k = Some md \<longrightarrow>
     id_hash (md_ID md) = k \<and> k = sha1_Sum (ID_Key (md_ID md)) \<and> v_kv v (ix_key path (ID_Key (md_ID md))) = Some k)"

definition slice_paths :: "'b bitmap_ops \<Rightarrow> string \<Rightarrow> 'b Metadata \<Rightarrow> string set" where
  "slice_paths bm path md = (\<lambda>x. WPathSlice path x (md_ID md)) ` set (bm_Range bm (Chunks md))"

text \<open>The removal of a set of objects with everything that belongs to them.\<close>

definition remove_objs :: "'b bitmap_ops \<Rightarrow> string \<Rightarrow> bytes set \<Rightarrow> 'b bview \<Rightarrow> 'b bview" where
  "remove_objs bm path S v =
     \<lparr>v_objs = (\<lambda>k. if k \<in> S then None else v_objs v k),
      v_kv = (\<lambda>x. if \<exists>k\<in>S. \<exists>md. v_objs v k = Some md \<and> x = ix_key path (ID_Key (md_ID md)) then None else v_kv v x),
      v_files = (\<lambda>p. if \<exists>k\<in>S. \<exists>md. v_objs v k = Some md \<and> p \<in> slice_paths bm path md then None else v_files v p)\<rparr>"

text \<open>The objects that \<^verbatim>\<open>discard\<close> can reach from one: its variants, and theirs.\<close>

inductive_set vary_reach :: "(bytes \<rightharpoonup> 'b Metadata) \<Rightarrow> bytes \<Rightarrow> bytes set" for m k where
  self: "k \<in> vary_reach m k"
| vary: "j \<in> vary_reach m k \<Longrightarrow> m j = Some md \<Longrightarrow> IsVary md \<Longrightarrow> vk \<in> set (VirtualKey md) \<Longrightarrow>
    id_hash (NewVirtualID (ID_Path (md_ID md)) vk) \<in> vary_reach m k"

lemma vary_reach_mono: "m \<subseteq>\<^sub>m m' \<Longrightarrow> vary_reach m k \<subseteq> vary_reach m' k"
proof
  fix j assume le: "m \<subseteq>\<^sub>m m'" and "j \<in> vary_reach m k"
  from this(2) show "j \<in> vary_reach m' k"
    by (induction) (use le in \<open>auto simp: map_le_def dom_def intro: vary_reach.intros\<close>)
qed

lemma vary_reach_trans: "j \<in> vary_reach m k \<Longrightarrow> vary_reach m j \<subseteq> vary_reach m k"
proof
  fix i assume j: "j \<in> vary_reach m k" and "i \<in> vary_reach m j"
  from this(2) show "i \<in> vary_reach m k"
    by (induction) (use j in \<open>auto intro: vary_reach.intros\<close>)
qed

lemma remove_objs_empty [simp]: "remove_objs bm path {} v = v"
  by (simp add: remove_objs_def)

lemma remove_objs_Un: "remove_objs bm path T (remove_objs bm path S v) = remove_objs bm path (S \<union> T) v"
  by (auto simp: remove_objs_def fun_eq_iff)

text \<open>
  The parts of the removal of one object that enclose the removal of its variants: the metadata first, then files
  and index entry.
\<close>

lemma remove_objs_around:
  assumes "v_objs v k = Some md"
  shows "(let w = remove_objs bm path S (v\<lparr>v_objs := (v_objs v)(k := None)\<rparr>) in
      w\<lparr>v_kv := (v_kv w)(ix_key path (ID_Key (md_ID md)) := None),
        v_files := (\<lambda>p. if p \<in> slice_paths bm path md then None else v_files w p)\<rparr>) =
    remove_objs bm path (insert k S) v"
  using assms by (auto simp: remove_objs_def fun_eq_iff Let_def)

lemma ix_key_inj [simp]: "ix_key path a = ix_key path b \<longleftrightarrow> a = b"
  by (simp add: ix_key_def)

lemma no_domains_cong:
  assumes "\<And>k. k \<noteq> domain_key host \<Longrightarrow> m' k = m k"
  shows "no_domains m' = no_domains m"
proof
  fix k show "no_domains m' k = no_domains m k"
    using assms [of k] by (cases "k = domain_key host") (auto simp: no_domains_def domain_key_def HasPrefix_def)
qed

lemma view_ok_remove_objs:
  assumes "view_ok path v"
  shows "view_ok path (remove_objs bm path S v)"
  unfolding view_ok_def
proof (intro allI impI)
  fix k md assume "v_objs (remove_objs bm path S v) k = Some md"
  then have k: "k \<notin> S" "v_objs v k = Some md" by (auto simp: remove_objs_def split: if_splits)
  have "\<not> (\<exists>j\<in>S. \<exists>md'. v_objs v j = Some md' \<and> ix_key path (ID_Key (md_ID md)) = ix_key path (ID_Key (md_ID md')))"
    using assms k unfolding view_ok_def ix_key_inj by metis
  then show "id_hash (md_ID md) = k \<and> k = sha1_Sum (ID_Key (md_ID md)) \<and>
      v_kv (remove_objs bm path S v) (ix_key path (ID_Key (md_ID md))) = Some k"
    using assms k(2) by (simp add: view_ok_def remove_objs_def)
qed

text \<open>The storing of an object.\<close>

definition store_obj :: "string \<Rightarrow> 'b Metadata \<Rightarrow> 'b bview \<Rightarrow> 'b bview" where
  "store_obj path md v =
     v\<lparr>v_objs := (v_objs v)(id_hash (md_ID md) \<mapsto> md),
       v_kv := (v_kv v)(ix_key path (ID_Key (md_ID md)) \<mapsto> id_hash (md_ID md))\<rparr>"

lemma view_ok_store_obj:
  assumes "view_ok path v" "id_hash (md_ID md) = sha1_Sum (ID_Key (md_ID md))"
  shows "view_ok path (store_obj path md v)"
  using assms by (auto simp: view_ok_def store_obj_def) metis

text \<open>A bucket in order.\<close>

definition bucket_ok :: "('i \<Rightarrow> (bytes \<rightharpoonup> 'b Metadata)) \<Rightarrow> ('i \<Rightarrow> bool) \<Rightarrow>
    ('kv \<Rightarrow> (bytes \<rightharpoonup> bytes)) \<Rightarrow> ('fs \<Rightarrow> (string \<rightharpoonup> bytes)) \<Rightarrow> ('i, 'kv, 'fs, 'z) bucket_core_scheme \<Rightarrow> bool" where
  "bucket_ok objs ok content files b \<longleftrightarrow>
     ok (bc_indexdb b) \<and> view_ok (bc_path b) (bucket_view objs content files b)"

subsection \<open>A healthy environment\<close>

locale bucket_laws =
  idx: index_db "env_index E" objs good ok +
  kv: shared_kv "env_kv E" content +
  fsys: file_system "env_fs E" files dirs opened
  for E :: "('i, 'b, 'c, 'kv, 'k, 'fs, 'h) bucket_env" and objs good ok content files dirs opened +
  assumes bitmaps: "bitmap_laws (env_bm E)"
begin

abbreviation vw :: "('i, 'kv, 'fs, 'z) bucket_core_scheme \<Rightarrow> 'b bview" where
  "vw b \<equiv> bucket_view objs content files b"

text \<open>Nothing but the index, the store and the files changes.\<close>

definition same_bucket :: "('i, 'kv, 'fs, 'z) bucket_core_scheme \<Rightarrow> ('i, 'kv, 'fs, 'z) bucket_core_scheme \<Rightarrow> bool" where
  "same_bucket b b' \<longleftrightarrow> (\<exists>i kv fs. b' = b\<lparr>bc_indexdb := i, bc_sharedkv := kv, bc_fs := fs\<rparr>)"

definition discarded :: "bytes set \<Rightarrow> ('i, 'kv, 'fs, 'z) bucket_core_scheme \<Rightarrow> ('i, 'kv, 'fs, 'z) bucket_core_scheme \<Rightarrow> bool" where
  "discarded S b b' \<longleftrightarrow> ok (bc_indexdb b') \<and> same_bucket b b' \<and> vw b' = remove_objs (env_bm E) (bc_path b) S (vw b)"

abbreviation bok :: "('i, 'kv, 'fs, 'z) bucket_core_scheme \<Rightarrow> bool" where
  "bok b \<equiv> bucket_ok objs ok content files b"

lemma same_bucket_path: "same_bucket b b' \<Longrightarrow> bc_path b' = bc_path b \<and> bc_cache b' = bc_cache b"
  by (auto simp: same_bucket_def)

lemma finite_objs: "ok i \<Longrightarrow> finite (dom (objs i))"
proof -
  assume "ok i"
  then obtain es where "\<forall>k md. (k, md) \<in> set es \<longleftrightarrow> objs i k = Some md"
    using idx.iterate [of i None "\<lambda>_ _ c. (True, c)" undefined] by blast
  then have "dom (objs i) = fst ` set es" by force
  then show ?thesis by simp
qed

lemma discarded_refl: "ok (bc_indexdb b) \<Longrightarrow> discarded {} b b"
  by (cases b) (auto simp: discarded_def same_bucket_def)

lemma same_bucket_trans: "same_bucket b b' \<Longrightarrow> same_bucket b' b'' \<Longrightarrow> same_bucket b b''"
  by (cases b) (auto simp: same_bucket_def)

lemma discarded_trans: "discarded S b b' \<Longrightarrow> discarded T b' b'' \<Longrightarrow> discarded (S \<union> T) b b''"
  by (auto simp: discarded_def remove_objs_Un dest: same_bucket_path intro: same_bucket_trans)

lemma discarded_ok:
  assumes "bok b" "discarded S b b'"
  shows "bok b'"
proof -
  have p: "bc_path b' = bc_path b"
    using assms(2) by (auto simp: discarded_def same_bucket_def)
  show ?thesis
    using assms p by (auto simp: bucket_ok_def discarded_def view_ok_remove_objs)
qed

lemma discarded_objs: "discarded S b b' \<Longrightarrow> objs (bc_indexdb b') k = (if k \<in> S then None else objs (bc_indexdb b) k)"
  by (auto simp: discarded_def remove_objs_def bucket_view_def fun_eq_iff)

lemma discarded_card:
  assumes "ok (bc_indexdb b)" "discarded S b b'"
  shows "card (dom (objs (bc_indexdb b'))) \<le> card (dom (objs (bc_indexdb b)))"
  by (rule card_mono [OF finite_objs [OF assms(1)]]) (auto simp: discarded_objs [OF assms(2)] split: if_splits)

lemma del_meta_view:
  assumes "ok (bc_indexdb b)"
  shows "ok (bc_indexdb (bc_del_meta E oid b))" "same_bucket b (bc_del_meta E oid b)"
    "vw (bc_del_meta E oid b) = (vw b)\<lparr>v_objs := (v_objs (vw b))(id_hash oid := None)\<rparr>"
proof -
  obtain i where i: "ix_Delete (env_index E) (ID_Bytes oid) (bc_indexdb b) = (None, i)" "ok i"
      "objs i = (objs (bc_indexdb b))(ID_Bytes oid := None)"
    using idx.delete [OF assms] by blast
  show "ok (bc_indexdb (bc_del_meta E oid b))" using i by (simp add: bc_del_meta_def)
  show "same_bucket b (bc_del_meta E oid b)"
    by (cases b) (auto simp: same_bucket_def bc_del_meta_def)
  show "vw (bc_del_meta E oid b) = (vw b)\<lparr>v_objs := (v_objs (vw b))(id_hash oid := None)\<rparr>"
    using i by (simp add: bc_del_meta_def bucket_view_def ID_Bytes_def)
qed

lemma remove_chunk_list:
  fixes b :: "('i, 'kv, 'fs, 'z) bucket_core_scheme" and md :: "'b Metadata" and xs :: "int list"
  defines "b' \<equiv> fold (\<lambda>x b. b\<lparr>bc_fs := snd (fs_Remove (env_fs E) (WPathSlice (bc_path b) x (md_ID md)) (bc_fs b))\<rparr>) xs b"
  shows "(\<exists>fs. b' = b\<lparr>bc_fs := fs\<rparr>) \<and>
    files (bc_fs b') = (\<lambda>p. if p \<in> (\<lambda>x. WPathSlice (bc_path b) x (md_ID md)) ` set xs then None else files (bc_fs b) p)"
  unfolding assms
proof (induction xs arbitrary: b)
  case Nil
  show ?case by (cases b) auto
next
  case (Cons x xs)
  let ?p = "WPathSlice (bc_path b) x (md_ID md)"
  obtain e fs where fs: "fs_Remove (env_fs E) ?p (bc_fs b) = (e, fs)" "files fs = (files (bc_fs b))(?p := None)"
    using fsys.remove by blast
  from Cons.IH [of "b\<lparr>bc_fs := fs\<rparr>"] fs show ?case by (auto simp: fun_eq_iff)
qed

lemma strip_view:
  fixes md :: "'b Metadata"
  assumes "ok (bc_indexdb b)"
  defines "b' \<equiv> bc_decr_domain E (md_ID md) (bc_del_index E (md_ID md) (bc_remove_chunks E md b))"
  shows "ok (bc_indexdb b')" "same_bucket b b'"
    "vw b' = (vw b)\<lparr>v_kv := (v_kv (vw b))(ix_key (bc_path b) (ID_Key (md_ID md)) := None),
       v_files := (\<lambda>p. if p \<in> slice_paths (env_bm E) (bc_path b) md then None else v_files (vw b) p)\<rparr>"
proof -
  let ?b1 = "bc_remove_chunks E md b"
  obtain fs where b1: "?b1 = b\<lparr>bc_fs := fs\<rparr>"
      "files fs = (\<lambda>p. if p \<in> slice_paths (env_bm E) (bc_path b) md then None else files (bc_fs b) p)"
    using remove_chunk_list [where md = md and b = b and xs = "bm_Range (env_bm E) (Chunks md)"] unfolding bc_remove_chunks_def slice_paths_def by auto
  obtain kv1 where kv1: "sk_Delete (env_kv E) (ix_key (bc_path b) (ID_Key (md_ID md))) (bc_sharedkv b) = (None, kv1)"
      "content kv1 = (content (bc_sharedkv b))(ix_key (bc_path b) (ID_Key (md_ID md)) := None)"
    using kv.kv_delete by blast
  have b2: "bc_del_index E (md_ID md) ?b1 = b\<lparr>bc_fs := fs, bc_sharedkv := kv1\<rparr>"
    using kv1(1) by (simp add: bc_del_index_def b1(1))
  obtain kv2 where b3: "b' = b\<lparr>bc_fs := fs, bc_sharedkv := kv2\<rparr>" and kv2: "no_domains (content kv2) = no_domains (content kv1)"
  proof (cases "env_host E (ID_Path (md_ID md))")
    case (Some host)
    have "no_domains (content (snd (sk_Decr (env_kv E) (domain_key host) 1 kv1))) = no_domains (content kv1)"
      by (rule no_domains_cong) (rule kv.kv_decr)
    with Some that show ?thesis by (simp add: assms(2) b2 bc_decr_domain_def)
  next
    case None
    with that show ?thesis by (simp add: assms(2) b2 bc_decr_domain_def)
  qed
  show "ok (bc_indexdb b')" using assms(1) by (simp add: b3)
  show "same_bucket b b'"
    unfolding same_bucket_def b3 by (cases b) auto
  have "no_domains ((content (bc_sharedkv b))(ix_key p k := None)) = (no_domains (content (bc_sharedkv b)))(ix_key p k := None)" for p k
    by (auto simp: no_domains_def fun_eq_iff)
  then show "vw b' = (vw b)\<lparr>v_kv := (v_kv (vw b))(ix_key (bc_path b) (ID_Key (md_ID md)) := None),
       v_files := (\<lambda>p. if p \<in> slice_paths (env_bm E) (bc_path b) md then None else v_files (vw b) p)\<rparr>"
    by (simp add: bucket_view_def b3 kv2 kv1(2) b1(2) cong: if_cong)
qed


text \<open>
  Discarding an object removes it with its variants: the recursion ends after at most as many nested calls as there
  are objects.
\<close>

definition discards :: "nat \<Rightarrow> ('i, 'kv, 'fs, 'z) bucket_core_scheme \<Rightarrow> bytes \<Rightarrow> 'b Metadata \<Rightarrow> bool" where
  "discards n b k md \<longleftrightarrow> (\<exists>b' S. bc_discard E n (Some md) b = Some (None, b') \<and> discarded S b b' \<and> k \<in> S \<and>
     S \<subseteq> vary_reach (objs (bc_indexdb b)) k \<and>
     (IsVary md \<longrightarrow> (\<forall>vk\<in>set (VirtualKey md).
        objs (bc_indexdb b') (id_hash (NewVirtualID (ID_Path (md_ID md)) vk)) = None)))"

lemma discard_one_vary:
  fixes vk :: string
  assumes IH: "\<And>b h md. bok b \<Longrightarrow> objs (bc_indexdb b) h = Some md \<Longrightarrow> card (dom (objs (bc_indexdb b))) \<le> n \<Longrightarrow>
      discards n (b :: ('i, 'kv, 'fs, 'z) bucket_core_scheme) h md"
    and b: "bok (b :: ('i, 'kv, 'fs, 'z) bucket_core_scheme)" "card (dom (objs (bc_indexdb b))) \<le> n"
      "objs (bc_indexdb b) k = None" "id_hash (md_ID md) = k"
    and T: "discarded T b c"
  defines "h \<equiv> id_hash (NewVirtualID (ID_Path (md_ID md)) vk)"
  shows "\<exists>c1 S. bc_discard_varies E n md (vk # ks) c = bc_discard_varies E n md ks c1 \<and> discarded (T \<union> S) b c1 \<and>
    S \<subseteq> vary_reach (objs (bc_indexdb b)) h \<and> objs (bc_indexdb c1) h = None"
proof -
  have okc: "bok c" "ok (bc_indexdb c)"
    using discarded_ok [OF b(1) T] by (simp_all add: bucket_ok_def)
  have sub: "objs (bc_indexdb c) \<subseteq>\<^sub>m objs (bc_indexdb b)"
    by (auto simp: map_le_def discarded_objs [OF T] split: if_splits)
  note eqs = bc_discard_varies.simps(2) [of E n md vk ks c, unfolded Let_def ID_HashStr_def EqualFold_EncodeToString ID_Bytes_def
      b(4), folded h_def]
  show ?thesis
  proof (cases "h = k \<or> objs (bc_indexdb c) h = None")
    case True
    then have "bc_discard_varies E n md (vk # ks) c = bc_discard_varies E n md ks c"
      unfolding eqs using idx.get [OF okc(2), of h] by auto
    moreover have "objs (bc_indexdb c) h = None"
      using True b(3) by (auto simp: discarded_objs [OF T])
    ultimately show ?thesis using T by (intro exI [of _ c] exI [of _ "{}"]) simp
  next
    case False
    then obtain md' where md': "objs (bc_indexdb c) h = Some md'" by blast
    have "card (dom (objs (bc_indexdb c))) \<le> n"
      using discarded_card [OF _ T] b by (simp add: bucket_ok_def)
    then obtain c1 S where c1: "bc_discard E n (Some md') c = Some (None, c1)" "discarded S c c1" "h \<in> S"
        "S \<subseteq> vary_reach (objs (bc_indexdb c)) h"
      using IH [OF okc(1) md'] unfolding discards_def by blast
    have "bc_discard_varies E n md (vk # ks) c = bc_discard_varies E n md ks c1"
      unfolding eqs using False idx.get [OF okc(2), of h] md' c1(1) by simp
    moreover have "S \<subseteq> vary_reach (objs (bc_indexdb b)) h"
      using c1(4) vary_reach_mono [OF sub, of h] by blast
    ultimately show ?thesis
      using discarded_trans [OF T c1(2)] c1(3) discarded_objs [OF c1(2), of h] by auto
  qed
qed

lemma discard_all_varies:
  assumes IH: "\<And>b h md. bok b \<Longrightarrow> objs (bc_indexdb b) h = Some md \<Longrightarrow> card (dom (objs (bc_indexdb b))) \<le> n \<Longrightarrow>
      discards n (b :: ('i, 'kv, 'fs, 'z) bucket_core_scheme) h md"
    and b: "bok (b :: ('i, 'kv, 'fs, 'z) bucket_core_scheme)" "card (dom (objs (bc_indexdb b))) \<le> n"
      "objs (bc_indexdb b) k = None" "id_hash (md_ID md) = k"
    and T: "discarded T b c" "T \<subseteq> R"
    and R: "\<forall>vk\<in>set ks. vary_reach (objs (bc_indexdb b)) (id_hash (NewVirtualID (ID_Path (md_ID md)) vk)) \<subseteq> R"
  shows "\<exists>c' T'. bc_discard_varies E n md ks c = Some c' \<and> discarded T' b c' \<and> T \<subseteq> T' \<and> T' \<subseteq> R \<and>
    (\<forall>vk\<in>set ks. objs (bc_indexdb c') (id_hash (NewVirtualID (ID_Path (md_ID md)) vk)) = None)"
  using T R
proof (induction ks arbitrary: c T)
  case (Cons vk ks)
  let ?h = "id_hash (NewVirtualID (ID_Path (md_ID md)) vk)"
  obtain c1 S where c1: "bc_discard_varies E n md (vk # ks) c = bc_discard_varies E n md ks c1"
      "discarded (T \<union> S) b c1" "S \<subseteq> vary_reach (objs (bc_indexdb b)) ?h" "objs (bc_indexdb c1) ?h = None"
    using discard_one_vary [OF IH b Cons.prems(1), of vk ks] by blast
  have "T \<union> S \<subseteq> R" using Cons.prems(2,3) c1(3) by (meson Un_least list.set_intros(1) subset_trans)
  then obtain c' T' where c': "bc_discard_varies E n md ks c1 = Some c'" "discarded T' b c'" "T \<union> S \<subseteq> T'" "T' \<subseteq> R"
      "\<forall>vk\<in>set ks. objs (bc_indexdb c') (id_hash (NewVirtualID (ID_Path (md_ID md)) vk)) = None"
    using Cons.IH [OF c1(2)] Cons.prems(3) by (meson list.set_intros(2))
  have "objs (bc_indexdb c') ?h = None"
    using c1(4) c'(3) unfolding discarded_objs [OF c1(2)] discarded_objs [OF c'(2)] by (auto split: if_splits)
  then show ?case using c1(1) c' by (intro exI [of _ c'] exI [of _ T']) auto
qed auto

lemma discard_around:
  assumes b: "bok b" "objs (bc_indexdb b) k = Some md"
    and T: "discarded T (bc_del_meta E (md_ID md) b) c"
  defines "b' \<equiv> bc_decr_domain E (md_ID md) (bc_del_index E (md_ID md) (bc_remove_chunks E md c))"
  shows "discarded (insert k T) b b'"
proof -
  have ok: "ok (bc_indexdb b)" and k: "id_hash (md_ID md) = k"
    using b by (auto simp: bucket_ok_def view_ok_def bucket_view_def)
  note d = del_meta_view [OF ok, of "md_ID md", unfolded k]
  have c: "ok (bc_indexdb c)" "same_bucket b c"
      "vw c = remove_objs (env_bm E) (bc_path b) T (vw (bc_del_meta E (md_ID md) b))"
    using T d(2) same_bucket_path [OF d(2)] by (auto simp: discarded_def intro: same_bucket_trans)
  have p: "bc_path c = bc_path b" using same_bucket_path [OF c(2)] by simp
  note st = strip_view [OF c(1), of md, folded b'_def]
  have "v_objs (vw b) k = Some md" using b(2) by (simp add: bucket_view_def)
  then have "vw b' = remove_objs (env_bm E) (bc_path b) (insert k T) (vw b)"
    unfolding st(3) p c(3) d(3) by (rule remove_objs_around [unfolded Let_def])
  then show ?thesis using st(1) same_bucket_trans [OF c(2) st(2)] by (simp add: discarded_def)
qed

lemma discard_spec:
  assumes "bok b" "objs (bc_indexdb b) k = Some md" "card (dom (objs (bc_indexdb b))) \<le> n"
  shows "discards n b k md"
  using assms
proof (induction n arbitrary: b k md)
  case 0
  then have "dom (objs (bc_indexdb b)) = {}"
    using finite_objs by (simp add: bucket_ok_def)
  then show ?case using 0 by blast
next
  case (Suc n)
  have ok: "ok (bc_indexdb b)" and k: "id_hash (md_ID md) = k"
    using Suc.prems by (auto simp: bucket_ok_def view_ok_def bucket_view_def)
  define m where "m = objs (bc_indexdb b)"
  define b1 where "b1 = bc_del_meta E (md_ID md) b"
  note d = del_meta_view [OF ok, of "md_ID md", folded b1_def]
  have b1m: "objs (bc_indexdb b1) = m(k := None)"
    using d(3) k by (simp add: bucket_view_def m_def)
  have ok1: "bok b1"
    using Suc.prems(1) d same_bucket_path [OF d(2)]
    by (auto simp: bucket_ok_def b1m m_def view_ok_def same_bucket_def bucket_view_def split: if_splits)
  have card1: "card (dom (objs (bc_indexdb b1))) \<le> n"
  proof -
    have "dom (m(k := None)) = dom m - {k}" by auto
    moreover have "k \<in> dom m" "finite (dom m)" using Suc.prems(2) finite_objs [OF ok] by (auto simp: m_def)
    ultimately show ?thesis using Suc.prems(3) by (simp add: b1m m_def [symmetric])
  qed
  have R: "vary_reach (objs (bc_indexdb b1)) (id_hash (NewVirtualID (ID_Path (md_ID md)) vk)) \<subseteq> vary_reach m k"
    if "IsVary md" "vk \<in> set (VirtualKey md)" for vk
  proof -
    have "objs (bc_indexdb b1) \<subseteq>\<^sub>m m" by (auto simp: b1m map_le_def)
    moreover have "id_hash (NewVirtualID (ID_Path (md_ID md)) vk) \<in> vary_reach m k"
      using vary_reach.vary [OF vary_reach.self] Suc.prems(2) that by (simp add: m_def)
    ultimately show ?thesis using vary_reach_mono vary_reach_trans by blast
  qed
  have "\<exists>c T. (if IsVary md \<and> length (VirtualKey md) > 0 then bc_discard_varies E n md (VirtualKey md) b1 else Some b1) = Some c \<and>
      discarded T b1 c \<and> T \<subseteq> vary_reach m k \<and>
      (IsVary md \<longrightarrow> (\<forall>vk\<in>set (VirtualKey md). objs (bc_indexdb c) (id_hash (NewVirtualID (ID_Path (md_ID md)) vk)) = None))"
  proof (cases "IsVary md \<and> length (VirtualKey md) > 0")
    case True
    then have R': "\<forall>vk\<in>set (VirtualKey md).
        vary_reach (objs (bc_indexdb b1)) (id_hash (NewVirtualID (ID_Path (md_ID md)) vk)) \<subseteq> vary_reach m k"
      using R by blast
    have gone: "objs (bc_indexdb b1) k = None" by (simp add: b1m)
    show ?thesis
      unfolding if_P [OF True]
      using discard_all_varies [OF Suc.IH ok1 card1 gone k discarded_refl [OF d(1)] empty_subsetI R'] by blast
  next
    case False
    then show ?thesis using discarded_refl [OF d(1)] by (intro exI [of _ b1] exI [of _ "{}"]) auto
  qed
  then obtain c T where c: "(if IsVary md \<and> length (VirtualKey md) > 0 then bc_discard_varies E n md (VirtualKey md) b1 else Some b1) = Some c"
      "discarded T b1 c" "T \<subseteq> vary_reach m k"
      "IsVary md \<longrightarrow> (\<forall>vk\<in>set (VirtualKey md). objs (bc_indexdb c) (id_hash (NewVirtualID (ID_Path (md_ID md)) vk)) = None)"
    by blast
  note D = discard_around [OF Suc.prems(1,2) c(2) [unfolded b1_def]]
  show ?case
    unfolding discards_def
  proof (intro exI conjI)
    show "bc_discard E (Suc n) (Some md) b =
        Some (None, bc_decr_domain E (md_ID md) (bc_del_index E (md_ID md) (bc_remove_chunks E md c)))"
      unfolding bc_discard.simps(3) Let_def c(1) [unfolded b1_def] by simp
    show "insert k T \<subseteq> vary_reach (objs (bc_indexdb b)) k"
      using c(3) vary_reach.self by (simp add: m_def)
    show "IsVary md \<longrightarrow> (\<forall>vk\<in>set (VirtualKey md). objs (bc_indexdb (bc_decr_domain E (md_ID md)
        (bc_del_index E (md_ID md) (bc_remove_chunks E md c)))) (id_hash (NewVirtualID (ID_Path (md_ID md)) vk)) = None)"
      using c(4) unfolding discarded_objs [OF D] discarded_objs [OF c(2)] b1m m_def by (auto split: if_splits)
  qed (use D in auto)
qed


lemma incr_domain_view:
  "vw (bc_incr_domain E oid b) = vw b" "\<exists>kv. bc_incr_domain E oid b = b\<lparr>bc_sharedkv := kv\<rparr>"
proof -
  have n: "no_domains (content (snd (sk_Incr (env_kv E) (domain_key host) 1 kv))) = no_domains (content kv)" for host kv
    by (rule no_domains_cong) (rule kv.kv_incr)
  show "vw (bc_incr_domain E oid b) = vw b"
    by (simp add: bc_incr_domain_def bucket_view_def n split: option.split)
  show "\<exists>kv. bc_incr_domain E oid b = b\<lparr>bc_sharedkv := kv\<rparr>"
    by (cases b) (auto simp: bc_incr_domain_def split: option.split)
qed

lemma set_index_view:
  "vw (bc_set_index E oid b) = (vw b)\<lparr>v_kv := (v_kv (vw b))(ix_key (bc_path b) (ID_Key oid) \<mapsto> id_hash oid)\<rparr>"
  "\<exists>kv. bc_set_index E oid b = b\<lparr>bc_sharedkv := kv\<rparr>"
proof -
  obtain kv where kv: "sk_Set (env_kv E) (ix_key (bc_path b) (ID_Key oid)) (id_hash oid) (bc_sharedkv b) = (None, kv)"
      "content kv = (content (bc_sharedkv b))(ix_key (bc_path b) (ID_Key oid) \<mapsto> id_hash oid)"
    using kv.kv_set by blast
  have "no_domains (m(ix_key p k \<mapsto> x)) = (no_domains m)(ix_key p k \<mapsto> x)" for m p k x
    by (auto simp: no_domains_def fun_eq_iff ix_key_def HasPrefix_def)
  then show "vw (bc_set_index E oid b) = (vw b)\<lparr>v_kv := (v_kv (vw b))(ix_key (bc_path b) (ID_Key oid) \<mapsto> id_hash oid)\<rparr>"
    using kv by (simp add: bc_set_index_def bucket_view_def ID_Bytes_def)
  show "\<exists>kv. bc_set_index E oid b = b\<lparr>bc_sharedkv := kv\<rparr>" by (auto simp: bc_set_index_def)
qed

lemma index_entry_view:
  "vw (bc_set_index E oid (bc_incr_domain E oid b)) =
     (vw b)\<lparr>v_kv := (v_kv (vw b))(ix_key (bc_path b) (ID_Key oid) \<mapsto> id_hash oid)\<rparr>"
  "\<exists>kv. bc_set_index E oid (bc_incr_domain E oid b) = b\<lparr>bc_sharedkv := kv\<rparr>"
proof -
  obtain kv where "bc_incr_domain E oid b = b\<lparr>bc_sharedkv := kv\<rparr>" using incr_domain_view(2) by blast
  then have p: "bc_path (bc_incr_domain E oid b) = bc_path b" by simp
  show "vw (bc_set_index E oid (bc_incr_domain E oid b)) =
     (vw b)\<lparr>v_kv := (v_kv (vw b))(ix_key (bc_path b) (ID_Key oid) \<mapsto> id_hash oid)\<rparr>"
    unfolding set_index_view(1) incr_domain_view(1) p ..
  show "\<exists>kv. bc_set_index E oid (bc_incr_domain E oid b) = b\<lparr>bc_sharedkv := kv\<rparr>"
    using incr_domain_view(2) [of oid b] set_index_view(2) [of oid "bc_incr_domain E oid b"] by (cases b) auto
qed

lemma set_meta_view:
  assumes "ok (bc_indexdb b)" "good md" "bc_indexdb b' = bc_indexdb b" "bc_sharedkv b' = bc_sharedkv b" "bc_fs b' = bc_fs b"
  shows "\<exists>i. ix_Set (env_index E) (ID_Bytes (md_ID md)) md (bc_indexdb b') = (None, i) \<and> ok i \<and>
    vw (b'\<lparr>bc_indexdb := i\<rparr>) = (vw b)\<lparr>v_objs := (v_objs (vw b))(id_hash (md_ID md) \<mapsto> md)\<rparr>"
proof -
  obtain i where "ix_Set (env_index E) (ID_Bytes (md_ID md)) md (bc_indexdb b) = (None, i)" "ok i"
      "objs i = (objs (bc_indexdb b))(ID_Bytes (md_ID md) \<mapsto> md)"
    using idx.set [OF assms(1,2)] by blast
  then show ?thesis using assms(3-) by (simp add: bucket_view_def ID_Bytes_def)
qed

lemma Discard_missing:
  assumes "ok (bc_indexdb b)" "objs (bc_indexdb b) (id_hash oid) = None"
  shows "bc_Discard E n oid b = Some (Some (StKV ErrKeyNotFound), b)"
  using idx.get [OF assms(1)] assms(2) by (simp add: bc_Discard_def ID_Bytes_def)

lemma DiscardWithHash_found:
  assumes "bok b" "objs (bc_indexdb b) k = Some md" "card (dom (objs (bc_indexdb b))) \<le> n"
  shows "\<exists>b' S. bc_DiscardWithHash E n k b = Some (None, b') \<and> discarded S b b' \<and> bok b' \<and> k \<in> S \<and>
    S \<subseteq> vary_reach (objs (bc_indexdb b)) k \<and>
    (IsVary md \<longrightarrow> (\<forall>vk\<in>set (VirtualKey md).
       objs (bc_indexdb b') (id_hash (NewVirtualID (ID_Path (md_ID md)) vk)) = None))"
proof -
  have "ok (bc_indexdb b)" using assms(1) by (simp add: bucket_ok_def)
  then have "bc_DiscardWithHash E n k b = bc_discard E n (Some md) b"
    using idx.get assms(2) by (simp add: bc_DiscardWithHash_def)
  then show ?thesis
    using discard_spec [OF assms] discarded_ok [OF assms(1)] unfolding discards_def by metis
qed

lemma Discard_DiscardWithHash: "bc_Discard E n oid b = bc_DiscardWithHash E n (id_hash oid) b"
  by (simp add: bc_Discard_def bc_DiscardWithHash_def ID_Bytes_def)

end

text \<open>The environment the program sets up: an index and a shared store over Pebble.\<close>

definition pebble_env :: "('db, 'x) pebble_ops \<Rightarrow> ('ds, 'y) pebble_ops \<Rightarrow> ('fs, 'h) fs_ops \<Rightarrow> 'b bitmap_ops \<Rightarrow>
    (string \<Rightarrow> string option) \<Rightarrow> (64 word \<Rightarrow> string) \<Rightarrow>
    (('db, 'b) PebbleDB, 'b, 'c, 'ds noneSharedKV, 'k, 'fs, 'h) bucket_env" where
  "pebble_env P Q F bm host time =
     \<lparr>env_index = pebble_index P, env_kv = none_kv Q, env_fs = F, env_bm = bm, env_host = host, env_time = time\<rparr>"

definition kv_content :: "('ds \<Rightarrow> (bytes \<rightharpoonup> bytes)) \<Rightarrow> 'ds noneSharedKV \<Rightarrow> (bytes \<rightharpoonup> bytes)" where
  "kv_content cont kv = cont (kv_db kv)"

lemma pebble_bucket_laws:
  assumes "pebble P cont" "pebble Q kcont" "file_system F files dirs opened" "bitmap_laws bm"
  shows "bucket_laws (pebble_env P Q F bm host time) (px_objs cont) (codec_good codec) (px_ok cont codec)
    (kv_content kcont) files dirs opened"
proof -
  have c: "kv_content kcont = (\<lambda>kv. kcont (kv_db kv))" by (simp add: fun_eq_iff kv_content_def)
  show ?thesis
    unfolding bucket_laws_def bucket_laws_axioms_def c
    by (simp add: pebble_env_def pebble_index_db [OF assms(1)] none_kv_shared [OF assms(2)] assms(3,4))
qed

interpretation list_bucket: bucket_laws "pebble_env list_pebble list_pebble list_fs_ops list_bitmap host time"
    "px_objs map_of" "codec_good codec" "px_ok map_of codec" "kv_content map_of" "\<lambda>fs. map_of (lf_files fs)"
    "\<lambda>fs. set (lf_dirs fs)" "\<lambda>fs h. lf_handle h fs"
  for host time codec
  by (rule pebble_bucket_laws)
    (rule list_db.pebble_axioms list_fs.file_system_axioms list_bitmap_laws)+

end
