(* ===== verification/Disk_Bucket.thy ===== *)
theory Disk_Bucket
  imports Bucket_Core Heavy_Keeper
begin

text \<open>
  The bucket on disk, \<^verbatim>\<open>src/storage/bucket/disk/disk.go\<close>.  Times are nanoseconds; \<open>now\<close> is the time of a call.
  The goroutines that an access starts to promote an object are listed in \<open>dk_promotions\<close>, the evictions that wait
  for the evicting goroutine in the channel of the cache.  Metrics and logging have no effect on the state.
\<close>

text \<open>
  The configuration.  \<^verbatim>\<open>Occupancy\<close> of a demotion, a floating-point number, is read nowhere; the options of the database are
  part of what opens an index.
\<close>

record PromoteConfig =
  pc_MinHits :: int
  pc_Window :: int

record DemoteConfig =
  dc_MinHits :: int
  dc_Window :: int

record MigrationConfig =
  mc_Enabled :: bool
  mc_Promote :: PromoteConfig
  mc_Demote :: DemoteConfig

record BucketConfig =
  opt_Path :: string
  opt_Driver :: string
  opt_Type :: string
  opt_DBType :: string
  opt_DBPath :: string
  opt_AsyncLoad :: bool
  opt_SliceSize :: int
  opt_MaxObjectLimit :: int
  opt_Migration :: "MigrationConfig option"

record ('i, 'kv, 'fs) diskBucket = "('i, 'kv, 'fs) bucket_core" +
  dk_opt :: BucketConfig
  dk_asyncLoad :: bool
  dk_hasMigration :: bool
  dk_hkPromote :: "heavykeeper option"
  dk_lastPromoteReset :: int
  dk_promotions :: "ID list"

definition unix :: "int \<Rightarrow> int" where
  "unix now = now div 1000000000"

definition initWorkdir :: "('fs, 'h) fs_ops \<Rightarrow> ('i, 'kv, 'fs) diskBucket \<Rightarrow> ('i, 'kv, 'fs) diskBucket" where
  "initWorkdir F b =
     b\<lparr>bc_fs := snd (fs_MkdirAll F (bc_dbPath b) (snd (fs_MkdirAll F (bc_path b) (bc_fs b))))\<rparr>"

text \<open>The eviction goroutine first gives the cache a channel for 100 evictions.\<close>

definition start_evict :: "('i, 'kv, 'fs) diskBucket \<Rightarrow> ('i, 'kv, 'fs) diskBucket" where
  "start_evict b = b\<lparr>bc_cache := (bc_cache b)\<lparr>EvictionChannel := Some (100, [])\<rparr>\<rparr>"

definition load_entry :: "('i, 'b, 'c, 'kv, 'k, 'fs, 'h) bucket_env \<Rightarrow> bytes \<Rightarrow> 'b Metadata \<Rightarrow>
    ('i, 'kv, 'fs) diskBucket \<Rightarrow> bool \<times> ('i, 'kv, 'fs) diskBucket" where
  "load_entry E key meta b =
     (let oid = md_ID meta;
          b = b\<lparr>bc_cache := cache_Set (ID_Hash oid) (NewMark (LastRefUnix meta) (md_Refs meta)) (bc_cache b)\<rparr>;
          b = bc_incr_domain E oid b
      in (True, bc_set_index E oid b))"

text \<open>
  \<open>iterate\<close> is \<^verbatim>\<open>Iterate\<close> of the index with a callback that works on the bucket.  With \<^verbatim>\<open>asyncLoad\<close> the loading runs
  beside the other operations, as one more operation.
\<close>

definition loadLRU :: "('i, 'b, 'c, 'kv, 'k, 'fs, 'h) bucket_env \<Rightarrow>
    (bytes option \<Rightarrow> (bytes \<Rightarrow> 'b Metadata \<Rightarrow> ('i, 'kv, 'fs) diskBucket \<Rightarrow> bool \<times> ('i, 'kv, 'fs) diskBucket) \<Rightarrow> 'i \<Rightarrow>
      ('i, 'kv, 'fs) diskBucket \<Rightarrow> st_err option \<times> ('i, 'kv, 'fs) diskBucket) \<Rightarrow>
    ('i, 'kv, 'fs) diskBucket \<Rightarrow> ('i, 'kv, 'fs) diskBucket" where
  "loadLRU E iterate b = snd (iterate None (load_entry E) (bc_indexdb b) b)"

text \<open>\<open>create\<close> opens an index of a type at a path; \<open>hk\<close> are the draws of the sketch.\<close>

definition disk_New :: "('i, 'b, 'c, 'kv, 'k, 'fs, 'h) bucket_env \<Rightarrow>
    (bytes option \<Rightarrow> (bytes \<Rightarrow> 'b Metadata \<Rightarrow> ('i, 'kv, 'fs) diskBucket \<Rightarrow> bool \<times> ('i, 'kv, 'fs) diskBucket) \<Rightarrow> 'i \<Rightarrow>
      ('i, 'kv, 'fs) diskBucket \<Rightarrow> st_err option \<times> ('i, 'kv, 'fs) diskBucket) \<Rightarrow>
    (string \<Rightarrow> string \<Rightarrow> st_err + 'i) \<Rightarrow> bool stream \<Rightarrow> int \<Rightarrow> 'fs \<Rightarrow> BucketConfig \<Rightarrow> 'kv \<Rightarrow>
    st_err + ('i, 'kv, 'fs) diskBucket" where
  "disk_New E iterate create cs now fs opt sharedkv =
     (let enabled = (case opt_Migration opt of None \<Rightarrow> False | Some m \<Rightarrow> mc_Enabled m);
          w = (if opt_MaxObjectLimit opt < 4096 then 4096 else opt_MaxObjectLimit opt);
          hk = (if enabled then hk_New 3 w cs else None)
      in if enabled \<and> hk = None then Inl StPanic
         else
           case create (opt_DBType opt) (opt_DBPath opt) of
             Inl err \<Rightarrow> Inl err
           | Inr db \<Rightarrow>
               let b = \<lparr>bc_path = opt_Path opt, bc_dbPath = opt_DBPath opt, bc_driver = opt_Driver opt,
                        bc_storeType = opt_Type opt, bc_weight = 100, bc_sharedkv = sharedkv, bc_indexdb = db,
                        bc_cache = lfu_New (opt_MaxObjectLimit opt), bc_fs = fs, bc_migration = False,
                        dk_opt = opt, dk_asyncLoad = opt_AsyncLoad opt, dk_hasMigration = enabled, dk_hkPromote = hk,
                        dk_lastPromoteReset = (if enabled then now else 0), dk_promotions = []\<rparr>;
                   b = start_evict (initWorkdir (env_fs E) b)
               in Inr (if dk_asyncLoad b then b else loadLRU E iterate b))"

text \<open>An access is counted for promotion when migration is on; \<open>None\<close> is a panic of the sketch.\<close>

definition count_access :: "int \<Rightarrow> ID \<Rightarrow> ('i, 'kv, 'fs) diskBucket \<Rightarrow> ('i, 'kv, 'fs) diskBucket option" where
  "count_access now oid b =
     do {
       hk \<leftarrow> dk_hkPromote b;
       m \<leftarrow> opt_Migration (dk_opt b);
       let stale = (pc_Window (mc_Promote m) > 0 \<and> now - dk_lastPromoteReset b > pc_Window (mc_Promote m));
       let hk = (if stale then hk_Clear hk else hk);
       hk \<leftarrow> hk_Add (ID_Bytes oid) hk;
       hits \<leftarrow> Query (ID_Bytes oid) hk;
       Some (b\<lparr>dk_hkPromote := Some hk, dk_lastPromoteReset := (if stale then now else dk_lastPromoteReset b),
               dk_promotions := (if hits \<ge> word_of_int (pc_MinHits (mc_Promote m)) then dk_promotions b @ [oid]
                                 else dk_promotions b)\<rparr>)
     }"

definition disk_touch :: "int \<Rightarrow> ID \<Rightarrow> ('i, 'kv, 'fs) diskBucket \<Rightarrow> ('i, 'kv, 'fs) diskBucket option" where
  "disk_touch now oid b =
     (let (updated, b) = bc_touch (unix now) oid b in
      if \<not> updated then Some b else if dk_hasMigration b then count_access now oid b else Some b)"

definition disk_Lookup :: "('i, 'b, 'c, 'kv, 'k, 'fs, 'h) bucket_env \<Rightarrow> int \<Rightarrow> ID \<Rightarrow> ('i, 'kv, 'fs) diskBucket \<Rightarrow>
    ('b Metadata option \<times> st_err option) \<times> ('i, 'kv, 'fs) diskBucket" where
  "disk_Lookup E now oid b =
     (let (md, err) = ix_Get (env_index E) (ID_Bytes oid) (bc_indexdb b) in
      if err = None \<and> md \<noteq> None then
        (case disk_touch now oid b of None \<Rightarrow> ((None, Some StPanic), b) | Some b \<Rightarrow> ((md, err), b))
      else ((md, err), b))"

definition disk_Remove :: "('i, 'b, 'c, 'kv, 'k, 'fs, 'h) bucket_env \<Rightarrow> ID \<Rightarrow> ('i, 'kv, 'fs) diskBucket \<Rightarrow>
    st_err option \<times> ('i, 'kv, 'fs) diskBucket" where
  "disk_Remove E oid b =
     (let (err, i) = ix_Delete (env_index E) (ID_Bytes oid) (bc_indexdb b) in (err, b\<lparr>bc_indexdb := i\<rparr>))"

definition clean_meta :: "'b Metadata \<Rightarrow> 'b Metadata" where
  "clean_meta meta =
     meta\<lparr>Headers := Del (Del (Del (Headers meta) ''X-Protocol'') ''X-Protocol-Cache'') ''X-Protocol-Request-Id''\<rparr>"

definition disk_Store :: "('i, 'b, 'c, 'kv, 'k, 'fs, 'h) bucket_env \<Rightarrow> 'b Metadata \<Rightarrow> ('i, 'kv, 'fs) diskBucket \<Rightarrow>
    st_err option \<times> ('i, 'kv, 'fs) diskBucket" where
  "disk_Store E meta b =
     (let meta = clean_meta meta; oid = md_ID meta;
          b = (if \<not> lfu_Has (ID_Hash oid) (bc_cache b)
               then b\<lparr>bc_cache := cache_Set (ID_Hash oid) (NewMark (LastRefUnix meta) (md_Refs meta)) (bc_cache b)\<rparr>
               else b);
          (err, i) = ix_Set (env_index E) (ID_Bytes oid) meta (bc_indexdb b);
          b = b\<lparr>bc_indexdb := i\<rparr>
      in if err \<noteq> None then (err, b)
         else (None, bc_set_index E oid (bc_incr_domain E oid b)))"

definition disk_Exist :: "('i, 'b, 'c, 'kv, 'k, 'fs, 'h) bucket_env \<Rightarrow> bytes \<Rightarrow> ('i, 'kv, 'fs) diskBucket \<Rightarrow> bool option" where
  "disk_Exist E hash b = Some (ix_Exist (env_index E) hash (bc_indexdb b))"

definition disk_Expired :: "ID \<Rightarrow> 'b Metadata \<Rightarrow> ('i, 'kv, 'fs) diskBucket \<Rightarrow> bool option" where
  "disk_Expired oid md b = Some False"

definition disk_discard :: "('i, 'b, 'c, 'kv, 'k, 'fs, 'h) bucket_env \<Rightarrow> nat \<Rightarrow> 'b Metadata option \<Rightarrow>
    ('i, 'kv, 'fs) diskBucket \<Rightarrow> (st_err option \<times> ('i, 'kv, 'fs) diskBucket) option" where
  "disk_discard = bc_discard"

definition disk_Discard :: "('i, 'b, 'c, 'kv, 'k, 'fs, 'h) bucket_env \<Rightarrow> nat \<Rightarrow> ID \<Rightarrow> ('i, 'kv, 'fs) diskBucket \<Rightarrow>
    (st_err option \<times> ('i, 'kv, 'fs) diskBucket) option" where
  "disk_Discard = bc_Discard"

definition disk_DiscardWithMessage :: "('i, 'b, 'c, 'kv, 'k, 'fs, 'h) bucket_env \<Rightarrow> nat \<Rightarrow> ID \<Rightarrow> string \<Rightarrow>
    ('i, 'kv, 'fs) diskBucket \<Rightarrow> (st_err option \<times> ('i, 'kv, 'fs) diskBucket) option" where
  "disk_DiscardWithMessage E n oid msg b = disk_Discard E n oid b"

definition disk_DiscardWithMetadata :: "('i, 'b, 'c, 'kv, 'k, 'fs, 'h) bucket_env \<Rightarrow> nat \<Rightarrow> 'b Metadata \<Rightarrow>
    ('i, 'kv, 'fs) diskBucket \<Rightarrow> (st_err option \<times> ('i, 'kv, 'fs) diskBucket) option" where
  "disk_DiscardWithMetadata E n meta b = disk_Discard E n (md_ID meta) b"

text \<open>\<open>stamp\<close> is the time as \<^verbatim>\<open>20060102150405\<close> prints it.  The error of a failed creation is kept in the error that wraps it.\<close>

definition disk_WriteChunkFile :: "('i, 'b, 'c, 'kv, 'k, 'fs, 'h) bucket_env \<Rightarrow> string \<Rightarrow> ID \<Rightarrow> int \<Rightarrow>
    ('i, 'kv, 'fs) diskBucket \<Rightarrow> ((st_err + 'h chunkWriter) \<times> string) \<times> ('i, 'kv, 'fs) diskBucket" where
  "disk_WriteChunkFile E stamp oid index b =
     (let wpath = WPathSlice (bc_path b) index oid;
          fs = snd (fs_MkdirAll (env_fs E) (filepath_Dir wpath) (bc_fs b));
          tmpPath = wpath @ ''.tmp'' @ stamp;
          (f, fs) = fs_Create (env_fs E) tmpPath fs;
          b = b\<lparr>bc_fs := fs\<rparr>
      in case f of
           Inl err \<Rightarrow> ((Inl err, wpath), b)
         | Inr h \<Rightarrow> ((Inr (ChunkWriterCloser h (Some (tmpPath, wpath))), wpath), b))"

definition disk_ReadChunkFile :: "('i, 'b, 'c, 'kv, 'k, 'fs, 'h) bucket_env \<Rightarrow> ID \<Rightarrow> int \<Rightarrow>
    ('i, 'kv, 'fs) diskBucket \<Rightarrow> ((st_err + 'h) \<times> string) \<times> ('i, 'kv, 'fs) diskBucket" where
  "disk_ReadChunkFile E oid index b =
     (let wpath = WPathSlice (bc_path b) index oid;
          (f, fs) = fs_Open (env_fs E) wpath (bc_fs b)
      in ((f, wpath), b\<lparr>bc_fs := fs\<rparr>))"

definition disk_SetMigration :: "bool \<Rightarrow> ('i, 'kv, 'fs) diskBucket \<Rightarrow> st_err option \<times> ('i, 'kv, 'fs) diskBucket" where
  "disk_SetMigration migration b = (None, b\<lparr>bc_migration := migration\<rparr>)"

definition disk_Close :: "('i, 'b, 'c, 'kv, 'k, 'fs, 'h) bucket_env \<Rightarrow> ('i, 'kv, 'fs) diskBucket \<Rightarrow>
    st_err option \<times> ('i, 'kv, 'fs) diskBucket" where
  "disk_Close E b = (let (err, i) = ix_Close (env_index E) (bc_indexdb b) in (err, b\<lparr>bc_indexdb := i\<rparr>))"

definition disk_Allow :: "('i, 'kv, 'fs) diskBucket \<Rightarrow> int option" where
  "disk_Allow b = None"

definition disk_Objects :: "('i, 'kv, 'fs) diskBucket \<Rightarrow> int" where
  "disk_Objects b = u64 (lfu_Len (bc_cache b))"

text \<open>The first eviction that waits.\<close>

definition next_eviction :: "('i, 'kv, 'fs) diskBucket \<Rightarrow> ((bytes \<times> mark) \<times> ('i, 'kv, 'fs) diskBucket) option" where
  "next_eviction b =
     (case EvictionChannel (bc_cache b) of
        Some (cap, e # q) \<Rightarrow> Some (e, b\<lparr>bc_cache := (bc_cache b)\<lparr>EvictionChannel := Some (cap, q)\<rparr>\<rparr>)
      | _ \<Rightarrow> None)"

definition IDPath :: "string \<Rightarrow> ID \<Rightarrow> string" where
  "IDPath path oid =
     (let hash = ID_HashStr oid in filepath_Join [path, take 1 hash, take 2 (drop 2 hash), hash])"

text \<open>\<open>buf\<close> are the 16 random bytes.\<close>

definition IDPathRandomSuffix :: "bytes \<Rightarrow> string \<Rightarrow> string" where
  "IDPathRandomSuffix buf path = path @ ''_'' @ EncodeToString buf"

definition formatSync :: "bool \<Rightarrow> string" where
  "formatSync async = (if async then ''async'' else ''sync'')"

subsection \<open>Accesses\<close>

text \<open>The sketch of a bucket with migration is one that \<^verbatim>\<open>New\<close> makes.\<close>

definition hk_fit :: "('i, 'kv, 'fs) diskBucket \<Rightarrow> bool" where
  "hk_fit b \<longleftrightarrow> (dk_hasMigration b \<longrightarrow>
     (case dk_hkPromote b of None \<Rightarrow> False | Some hk \<Rightarrow> hk_shape hk) \<and> opt_Migration (dk_opt b) \<noteq> None)"

definition same_store :: "('i, 'kv, 'fs, 'z) bucket_core_scheme \<Rightarrow> ('i, 'kv, 'fs, 'z) bucket_core_scheme \<Rightarrow> bool" where
  "same_store b b' \<longleftrightarrow> bc_indexdb b' = bc_indexdb b \<and> bc_sharedkv b' = bc_sharedkv b \<and> bc_fs b' = bc_fs b \<and> bc_path b' = bc_path b"

lemma hk_access:
  assumes "hk_shape hk"
  shows "\<exists>hk' q. hk_Add key hk = Some hk' \<and> hk_shape hk' \<and> Query key hk' = Some q"
proof -
  have "unat (hk_cnt b) \<le> 2 ^ 32" for b :: hk_bucket
    using unsigned_less [of "hk_cnt b", where ?'a = nat] by simp
  then have "rows_sound (\<lambda>_. 2 ^ 32) hk" by (auto simp: rows_sound_def hk_sound_def)
  from hk_Add_sound [OF assms this] obtain hk' where hk': "hk_Add key hk = Some hk'" "hk_shape hk'"
      "rows_sound (inc (hk_hash key) (\<lambda>_. 2 ^ 32)) hk'" by blast
  have "\<exists>q. query_rows key [0..<nat (depth hk')] hk' 0 = Some q"
    using query_rows_bound [OF hk'(2,3), of "[0..<nat (depth hk')]" 0 key] by auto
  then show ?thesis using hk' by (auto simp: Query_def)
qed

lemma hk_shape_Clear [simp]: "hk_shape (hk_Clear hk) \<longleftrightarrow> hk_shape hk"
  by (simp add: hk_shape_def hk_Clear_def)

lemma bc_touch_store: "same_store b (snd (bc_touch u oid b))" "bucket_core.more (snd (bc_touch u oid b)) = bucket_core.more b"
  by (simp_all add: bc_touch_def Let_def same_store_def split: prod.split option.split)

lemma disk_touch_store:
  assumes "hk_fit b"
  shows "\<exists>b'. disk_touch now oid b = Some b' \<and> hk_fit b' \<and> same_store b b'"
proof -
  obtain u b1 where b1: "bc_touch (unix now) oid b = (u, b1)" by fastforce
  have st: "same_store b b1" "hk_fit b1"
    using bc_touch_store [where b = b and u = "unix now" and oid = oid] assms unfolding b1 by (cases b; cases b1; simp add: hk_fit_def)+
  show ?thesis
  proof (cases "u \<and> dk_hasMigration b1")
    case True
    then obtain hk m where hk: "dk_hkPromote b1 = Some hk" "hk_shape hk" "opt_Migration (dk_opt b1) = Some m"
      using st(2) by (auto simp: hk_fit_def split: option.splits)
    let ?hk = "if pc_Window (mc_Promote m) > 0 \<and> now - dk_lastPromoteReset b1 > pc_Window (mc_Promote m) then hk_Clear hk else hk"
    have "hk_shape ?hk" using hk(2) by simp
    then obtain hk' q where "hk_Add (ID_Bytes oid) ?hk = Some hk'" "hk_shape hk'" "Query (ID_Bytes oid) hk' = Some q"
      using hk_access by blast
    then show ?thesis
      using True b1 hk st by (simp add: disk_touch_def count_access_def Let_def hk_fit_def same_store_def)
  next
    case False
    then show ?thesis using b1 st by (auto simp: disk_touch_def)
  qed
qed

subsection \<open>The operations on what the bucket holds\<close>

lemma view_same_store: "same_store b b' \<Longrightarrow> bucket_view objs content files b' = bucket_view objs content files b"
  by (simp add: same_store_def bucket_view_def)

context bucket_laws
begin

lemma disk_Store_view:
  assumes "ok (bc_indexdb b)" "good (clean_meta md)"
  shows "\<exists>b'. disk_Store E md b = (None, b') \<and> ok (bc_indexdb b') \<and> bc_path b' = bc_path b \<and> (hk_fit b \<longrightarrow> hk_fit b') \<and>
    vw b' = store_obj (bc_path b) (clean_meta md) (vw b)"
proof -
  let ?md = "clean_meta md"
  let ?oid = "md_ID ?md"
  define b1 where "b1 = (if \<not> lfu_Has (ID_Hash ?oid) (bc_cache b)
    then b\<lparr>bc_cache := cache_Set (ID_Hash ?oid) (NewMark (LastRefUnix ?md) (md_Refs ?md)) (bc_cache b)\<rparr> else b)"
  have b1: "bc_indexdb b1 = bc_indexdb b" "bc_sharedkv b1 = bc_sharedkv b" "bc_fs b1 = bc_fs b" "bc_path b1 = bc_path b"
      "hk_fit b1 = hk_fit b"
    by (simp_all add: b1_def hk_fit_def)
  obtain i where i: "ix_Set (env_index E) (ID_Bytes ?oid) ?md (bc_indexdb b1) = (None, i)" "ok i"
      "vw (b1\<lparr>bc_indexdb := i\<rparr>) = (vw b)\<lparr>v_objs := (v_objs (vw b))(id_hash ?oid \<mapsto> ?md)\<rparr>"
    using set_meta_view [OF assms b1(1-3)] by blast
  let ?b2 = "b1\<lparr>bc_indexdb := i\<rparr>"
  obtain kv where kv: "bc_set_index E ?oid (bc_incr_domain E ?oid ?b2) = ?b2\<lparr>bc_sharedkv := kv\<rparr>"
    using index_entry_view(2) by blast
  have "disk_Store E md b = (None, bc_set_index E ?oid (bc_incr_domain E ?oid ?b2))"
    using i(1) unfolding disk_Store_def Let_def b1_def [symmetric] by simp
  moreover have "vw (bc_set_index E ?oid (bc_incr_domain E ?oid ?b2)) = store_obj (bc_path b) ?md (vw b)"
    unfolding index_entry_view(1) i(3) by (simp add: store_obj_def b1)
  ultimately show ?thesis using i(2) b1 unfolding kv by (simp add: hk_fit_def)
qed

lemma disk_Store_ok:
  assumes "bok b" "good (clean_meta md)" "id_hash (md_ID md) = sha1_Sum (ID_Key (md_ID md))"
  shows "bok (snd (disk_Store E md b))"
proof -
  have "md_ID (clean_meta md) = md_ID md" by (simp add: clean_meta_def)
  then show ?thesis
    using disk_Store_view [OF _ assms(2), of b] assms(1,3) view_ok_store_obj [of "bc_path b" "vw b" "clean_meta md"]
    by (auto simp: bucket_ok_def)
qed

lemma disk_Lookup_objs:
  assumes "ok (bc_indexdb b)" "hk_fit b"
  shows "\<exists>b'. disk_Lookup E now oid b =
      ((case objs (bc_indexdb b) (id_hash oid) of None \<Rightarrow> (None, Some (StKV ErrKeyNotFound)) | Some md \<Rightarrow> (Some md, None)), b') \<and>
    hk_fit b' \<and> same_store b b'"
proof (cases "objs (bc_indexdb b) (id_hash oid)")
  case None
  then show ?thesis using idx.get [OF assms(1)] assms(2) by (simp add: disk_Lookup_def ID_Bytes_def same_store_def)
next
  case (Some md)
  then show ?thesis
    using idx.get [OF assms(1)] disk_touch_store [OF assms(2), of now oid] by (auto simp: disk_Lookup_def ID_Bytes_def)
qed

end

text \<open>One call of the bucket; \<open>n\<close> bounds the depth of the stack and \<open>good\<close> are the metadata the codec preserves.\<close>

inductive disk_step :: "('i, 'b, 'c, 'kv, 'k, 'fs, 'h) bucket_env \<Rightarrow> ('i \<Rightarrow> (bytes \<rightharpoonup> 'b Metadata)) \<Rightarrow> ('b Metadata \<Rightarrow> bool) \<Rightarrow>
    ('i, 'kv, 'fs) diskBucket \<Rightarrow> ('i, 'kv, 'fs) diskBucket \<Rightarrow> bool" for E objs good where
  st_Lookup: "disk_Lookup E now oid b = (r, b') \<Longrightarrow> disk_step E objs good b b'"
| st_Touch: "disk_touch now oid b = Some b' \<Longrightarrow> disk_step E objs good b b'"
| st_Store: "good (clean_meta md) \<Longrightarrow> id_hash (md_ID md) = sha1_Sum (ID_Key (md_ID md)) \<Longrightarrow>
    disk_Store E md b = (r, b') \<Longrightarrow> disk_step E objs good b b'"
| st_Remove: "disk_Remove E oid b = (r, b') \<Longrightarrow> disk_step E objs good b b'"
| st_Discard: "card (dom (objs (bc_indexdb b))) \<le> n \<Longrightarrow> disk_Discard E n oid b = Some (r, b') \<Longrightarrow> disk_step E objs good b b'"
| st_DiscardWithHash: "card (dom (objs (bc_indexdb b))) \<le> n \<Longrightarrow> bc_DiscardWithHash E n hash b = Some (r, b') \<Longrightarrow>
    disk_step E objs good b b'"
| st_WriteChunkFile: "disk_WriteChunkFile E stamp oid i b = (r, b') \<Longrightarrow> disk_step E objs good b b'"
| st_ReadChunkFile: "disk_ReadChunkFile E oid i b = (r, b') \<Longrightarrow> disk_step E objs good b b'"
| st_File: "disk_step E objs good b (b\<lparr>bc_fs := fs\<rparr>)"
| st_evict: "next_eviction b = Some (e, b') \<Longrightarrow> disk_step E objs good b b'"
| st_SetMigration: "disk_SetMigration m b = (r, b') \<Longrightarrow> disk_step E objs good b b'"

lemma same_store_ok: "same_store b b' \<Longrightarrow> bucket_ok objs ok content files b' \<longleftrightarrow> bucket_ok objs ok content files b"
  using view_same_store [of b b' objs content files] by (simp add: bucket_ok_def same_store_def)

lemma bucket_ok_files: "bucket_ok objs ok content files (b\<lparr>bc_fs := fs\<rparr>) \<longleftrightarrow> bucket_ok objs ok content files b"
  by (simp add: bucket_ok_def view_ok_def bucket_view_def)

lemma hk_fit_same: "hk_fit (b\<lparr>bc_indexdb := i, bc_sharedkv := kv, bc_fs := fs\<rparr>) \<longleftrightarrow> hk_fit b"
  by (simp add: hk_fit_def)

lemma chunk_file_step:
  "\<exists>fs. snd (disk_WriteChunkFile E stamp oid i b) = b\<lparr>bc_fs := fs\<rparr>"
  "\<exists>fs. snd (disk_ReadChunkFile E oid i b) = b\<lparr>bc_fs := fs\<rparr>"
  by (auto simp: disk_WriteChunkFile_def disk_ReadChunkFile_def Let_def split: prod.split sum.split)

context bucket_laws
begin

lemma discarded_fit: "discarded S b b' \<Longrightarrow> hk_fit b \<Longrightarrow> hk_fit b'"
  by (auto simp: discarded_def same_bucket_def hk_fit_same)

lemma DiscardWithHash_ok:
  assumes "bok b" "hk_fit b" "card (dom (objs (bc_indexdb b))) \<le> n" "bc_DiscardWithHash E n hash b = Some (r, b')"
  shows "bok b' \<and> hk_fit b'"
proof (cases "objs (bc_indexdb b) hash")
  case None
  have "ok (bc_indexdb b)" using assms(1) by (simp add: bucket_ok_def)
  then have "b' = b" using None idx.get assms(4) by (simp add: bc_DiscardWithHash_def)
  then show ?thesis using assms by simp
next
  case (Some md)
  then show ?thesis
    using DiscardWithHash_found [OF assms(1) Some assms(3)] assms(2,4) by (auto intro: discarded_fit)
qed

lemma disk_Remove_ok:
  assumes "bok b" "hk_fit b"
  shows "bok (snd (disk_Remove E oid b)) \<and> hk_fit (snd (disk_Remove E oid b))"
proof -
  have ok: "ok (bc_indexdb b)" using assms(1) by (simp add: bucket_ok_def)
  have eq: "snd (disk_Remove E oid b) = bc_del_meta E oid b"
    by (simp add: disk_Remove_def bc_del_meta_def split: prod.split)
  have "view_ok (bc_path b) ((vw b)\<lparr>v_objs := (v_objs (vw b))(id_hash oid := None)\<rparr>)"
    using assms(1) by (auto simp: bucket_ok_def view_ok_def)
  then have "bok (bc_del_meta E oid b)"
    using del_meta_view [OF ok, of oid] by (simp add: bucket_ok_def bc_del_meta_def)
  then show ?thesis using assms(2) unfolding eq by (simp add: bc_del_meta_def hk_fit_def)
qed

lemma disk_step_ok:
  assumes "disk_step E objs good b b'" "bok b" "hk_fit b"
  shows "bok b' \<and> hk_fit b'"
  using assms
proof (induction)
  case (st_Lookup now oid b r b')
  then have "ok (bc_indexdb b)" by (simp add: bucket_ok_def)
  from disk_Lookup_objs [OF this, of now oid] st_Lookup show ?case by (auto intro: same_store_ok [THEN iffD2])
next
  case (st_Touch now oid b b')
  then show ?case using disk_touch_store [of b now oid] by (auto intro: same_store_ok [THEN iffD2])
next
  case (st_Store md b r b')
  then have "ok (bc_indexdb b)" by (simp add: bucket_ok_def)
  then show ?case using disk_Store_view [of b md] disk_Store_ok [of b md] st_Store by auto
next
  case (st_Remove oid b r b')
  then show ?case using disk_Remove_ok [of b oid] by simp
next
  case (st_Discard b n oid r b')
  then have "bc_DiscardWithHash E n (id_hash oid) b = Some (r, b')"
    by (simp add: disk_Discard_def Discard_DiscardWithHash)
  with st_Discard show ?case by (intro DiscardWithHash_ok)
next
  case (st_DiscardWithHash b n hash r b')
  then show ?case by (intro DiscardWithHash_ok)
next
  case (st_WriteChunkFile stamp oid i b r b')
  then show ?case using chunk_file_step(1) [of E stamp oid i b] by (auto simp: bucket_ok_files hk_fit_def)
next
  case (st_ReadChunkFile oid i b r b')
  then show ?case using chunk_file_step(2) [of E oid i b] by (auto simp: bucket_ok_files hk_fit_def)
next
  case (st_File b fs)
  then show ?case by (simp add: bucket_ok_files hk_fit_def)
next
  case (st_evict b e b')
  then show ?case
    by (auto simp: next_eviction_def bucket_ok_def bucket_view_def hk_fit_def split: option.splits list.splits)
next
  case (st_SetMigration m b r b')
  then show ?case by (auto simp: disk_SetMigration_def bucket_ok_def bucket_view_def hk_fit_def)
qed

end

subsection \<open>Chunk files\<close>

fun cw_writes :: "('fs, 'h) fs_ops \<Rightarrow> 'h chunkWriter \<Rightarrow> bytes list \<Rightarrow> 'fs \<Rightarrow> st_err option \<times> 'fs" where
  "cw_writes F cw [] fs = (None, fs)"
| "cw_writes F cw (p # ps) fs =
     (let (err, fs) = cw_Write F cw p fs in if err \<noteq> None then (err, fs) else cw_writes F cw ps fs)"

context file_system
begin

lemma cw_writes_fresh:
  assumes "opened fs (cw_w cw) = Some (p, length b)" "files fs p = Some b"
  shows "\<exists>fs'. cw_writes F cw ps fs = (None, fs') \<and> files fs' = (files fs)(p \<mapsto> b @ concat ps) \<and> dirs fs' = dirs fs \<and>
    opened fs' = (opened fs)(cw_w cw \<mapsto> (p, length (b @ concat ps)))"
  using assms
proof (induction ps arbitrary: fs b)
  case Nil
  then show ?case by (auto simp: fun_eq_iff)
next
  case (Cons x ps)
  obtain fs1 where fs1: "fs_Write F (cw_w cw) x fs = (None, fs1)" "files fs1 = (files fs)(p \<mapsto> b @ x)" "dirs fs1 = dirs fs"
      "opened fs1 = (opened fs)(cw_w cw \<mapsto> (p, length (b @ x)))"
    using write_file [OF Cons.prems, of x] by auto
  have p: "opened fs1 (cw_w cw) = Some (p, length (b @ x))" "files fs1 p = Some (b @ x)" using fs1 by simp_all
  obtain fs' where "cw_writes F cw ps fs1 = (None, fs')" "files fs' = (files fs1)(p \<mapsto> (b @ x) @ concat ps)"
      "dirs fs' = dirs fs1" "opened fs' = (opened fs1)(cw_w cw \<mapsto> (p, length ((b @ x) @ concat ps)))"
    using Cons.IH [OF p] by blast
  then show ?case using fs1 by (simp add: cw_Write_def fun_eq_iff)
qed

lemma write_chunk:
  assumes "filepath_Dir tmp \<in> dirs fs" "filepath_Dir wpath \<in> dirs fs" "wpath \<notin> dirs fs" "files fs tmp = None"
  shows "\<exists>h fs1 fs2 fs3. fs_Create F tmp fs = (Inr h, fs1) \<and>
    cw_writes F (ChunkWriterCloser h (Some (tmp, wpath))) ps fs1 = (None, fs2) \<and>
    cw_Close F (ChunkWriterCloser h (Some (tmp, wpath))) fs2 = (None, fs3) \<and>
    files fs3 = (files fs)(tmp := None, wpath \<mapsto> concat ps)"
proof -
  obtain h fs1 where 1: "fs_Create F tmp fs = (Inr h, fs1)" "files fs1 = (files fs)(tmp \<mapsto> [])" "dirs fs1 = dirs fs"
      "opened fs1 = (opened fs)(h \<mapsto> (tmp, 0))"
    using create [OF assms(1)] assms(4) by auto
  let ?cw = "ChunkWriterCloser h (Some (tmp, wpath))"
  obtain fs2 where 2: "cw_writes F ?cw ps fs1 = (None, fs2)" "files fs2 = (files fs)(tmp \<mapsto> concat ps)" "dirs fs2 = dirs fs"
      "opened fs2 h \<noteq> None"
    using cw_writes_fresh [of fs1 ?cw tmp "[]" ps] 1 by (auto simp: ChunkWriterCloser_def)
  obtain fs2' where 3: "fs_CloseFile F h fs2 = (None, fs2')" "files fs2' = files fs2" "dirs fs2' = dirs fs"
    using close_file [OF 2(4)] 2(3) by auto
  obtain fs3 where "fs_Rename F tmp wpath fs2' = (None, fs3)" "files fs3 = (files fs2')(tmp := None, wpath \<mapsto> concat ps)"
    using rename [of fs2' tmp "concat ps" wpath] 2 3 assms by auto
  then show ?thesis
    using 1(1) 2(1,2) 3 by (auto simp: cw_Close_def run_closer_def ChunkWriterCloser_def)
qed

end

subsection \<open>Loading after a restart\<close>

context bucket_laws
begin

lemma load_entry_view:
  fixes b :: "('i, 'kv, 'fs) diskBucket" and md :: "'b Metadata" and key :: bytes
  defines "b' \<equiv> snd (load_entry E key md b)"
  shows "bc_indexdb b' = bc_indexdb b" "bc_path b' = bc_path b" "hk_fit b' = hk_fit b"
    "v_kv (vw b') = (v_kv (vw b))(ix_key (bc_path b) (ID_Key (md_ID md)) \<mapsto> id_hash (md_ID md))"
proof -
  let ?b1 = "b\<lparr>bc_cache := cache_Set (ID_Hash (md_ID md)) (NewMark (LastRefUnix md) (md_Refs md)) (bc_cache b)\<rparr>"
  have b': "b' = bc_set_index E (md_ID md) (bc_incr_domain E (md_ID md) ?b1)"
    by (simp add: b'_def load_entry_def Let_def)
  obtain kv where kv: "b' = ?b1\<lparr>bc_sharedkv := kv\<rparr>" unfolding b' using index_entry_view(2) by blast
  show "bc_indexdb b' = bc_indexdb b" "bc_path b' = bc_path b" "hk_fit b' = hk_fit b"
    by (simp_all add: kv hk_fit_def)
  show "v_kv (vw b') = (v_kv (vw b))(ix_key (bc_path b) (ID_Key (md_ID md)) \<mapsto> id_hash (md_ID md))"
    unfolding b' index_entry_view(1) by (simp add: bucket_view_def)
qed

lemma load_entries:
  fixes b :: "('i, 'kv, 'fs) diskBucket"
  assumes "\<forall>(k, md)\<in>set es. id_hash (md_ID md) = sha1_Sum (ID_Key (md_ID md))"
  defines "b' \<equiv> fold (\<lambda>(k, md) b. snd (load_entry E k md b)) es b"
  shows "bc_indexdb b' = bc_indexdb b \<and> bc_path b' = bc_path b \<and> hk_fit b' = hk_fit b \<and>
    (\<forall>oid. id_hash oid = sha1_Sum (ID_Key oid) \<and>
       (v_kv (vw b) (ix_key (bc_path b) (ID_Key oid)) = Some (id_hash oid) \<or> oid \<in> md_ID ` snd ` set es) \<longrightarrow>
       v_kv (vw b') (ix_key (bc_path b) (ID_Key oid)) = Some (id_hash oid))"
  using assms(1) unfolding assms(2)
proof (induction es arbitrary: b)
  case (Cons e es)
  obtain k md where e: "e = (k, md)" by fastforce
  have "id_hash (md_ID md) = sha1_Sum (ID_Key (md_ID md))" using Cons.prems e by simp
  then show ?case
    using Cons.IH [of "snd (load_entry E k md b)"] Cons.prems by (auto simp: e load_entry_view)
qed simp

end

lemma disk_New_load:
  assumes "pebble P cont" "pebble Q kcont" "file_system F files dirs opened" "bitmap_laws bm"
    "E = pebble_env P Q F bm host time" "px_ok cont codec (bc_indexdb b)"
    "\<forall>k md. px_objs cont (bc_indexdb b) k = Some md \<longrightarrow> id_hash (md_ID md) = k \<and> k = sha1_Sum (ID_Key (md_ID md))"
  shows "bucket_ok (px_objs cont) (px_ok cont codec) (kv_content kcont) files (loadLRU E (px_Iterate P) b) \<and>
    bc_indexdb (loadLRU E (px_Iterate P) b) = bc_indexdb b \<and> (hk_fit b \<longrightarrow> hk_fit (loadLRU E (px_Iterate P) b))"
proof -
  have laws: "bucket_laws E (px_objs cont) (codec_good codec) (px_ok cont codec) (kv_content kcont) files dirs opened"
    unfolding assms(5) by (rule pebble_bucket_laws [OF assms(1-4)])
  obtain es where es: "px_Iterate P None (load_entry E) (bc_indexdb b) b =
        (None, fold (\<lambda>(k, md) c. snd (load_entry E k md c)) es b)"
      "\<forall>k md. (k, md) \<in> set es \<longleftrightarrow> px_objs cont (bc_indexdb b) k = Some md"
    using pebble.px_Iterate_objs [OF assms(1,6), of None "load_entry E" b] by blast
  have wf: "\<forall>(k, md)\<in>set es. id_hash (md_ID md) = sha1_Sum (ID_Key (md_ID md))"
    using es(2) assms(7) by auto
  let ?b = "loadLRU E (px_Iterate P) b"
  note L = bucket_laws.load_entries [OF laws wf, of b]
  have b: "?b = fold (\<lambda>(k, md) b. snd (load_entry E k md b)) es b" by (simp add: loadLRU_def es(1))
  have "view_ok (bc_path ?b) (bucket_view (px_objs cont) (kv_content kcont) files ?b)"
    unfolding view_ok_def
  proof (intro allI impI)
    fix k md assume "v_objs (bucket_view (px_objs cont) (kv_content kcont) files ?b) k = Some md"
    then have md: "px_objs cont (bc_indexdb b) k = Some md" using L by (simp add: bucket_view_def b)
    then have "md_ID md \<in> md_ID ` snd ` set es" using es(2) by force
    then show "id_hash (md_ID md) = k \<and> k = sha1_Sum (ID_Key (md_ID md)) \<and>
        v_kv (bucket_view (px_objs cont) (kv_content kcont) files ?b) (ix_key (bc_path ?b) (ID_Key (md_ID md))) = Some k"
      using assms(7) md L unfolding b by auto
  qed
  then show ?thesis using L assms(6) unfolding b by (auto simp: bucket_ok_def)
qed

subsection \<open>Properties\<close>

text \<open>C10: What is stored can be looked up: over a healthy database, storing an object succeeds, and from then on
  a lookup finds it, without the three internal header fields, under every identifier with its hash, whatever the
  state of the access cache; every other lookup returns what it returned before.\<close>
theorem disk_Store_Lookup:
  assumes "pebble P cont" "pebble Q kcont" "file_system F files dirs opened" "bitmap_laws bm"
    "E = pebble_env P Q F bm host time"
    "px_ok cont codec (bc_indexdb b)" "codec_good codec (clean_meta md)" "hk_fit b"
  shows "\<exists>b'. disk_Store E md b = (None, b') \<and>
    (\<forall>oid now. fst (disk_Lookup E now oid b') =
       (if id_hash oid = id_hash (md_ID md) then (Some (clean_meta md), None) else fst (disk_Lookup E now oid b)))"
proof -
  have laws: "bucket_laws E (px_objs cont) (codec_good codec) (px_ok cont codec) (kv_content kcont) files dirs opened"
    unfolding assms(5) by (rule pebble_bucket_laws [OF assms(1-4)])
  obtain b' where b': "disk_Store E md b = (None, b')" "px_ok cont codec (bc_indexdb b')" "hk_fit b'"
      "bucket_view (px_objs cont) (kv_content kcont) files b' =
         store_obj (bc_path b) (clean_meta md) (bucket_view (px_objs cont) (kv_content kcont) files b)"
    using bucket_laws.disk_Store_view [OF laws assms(6,7)] assms(8) by blast
  from b'(4) have "px_objs cont (bc_indexdb b') = (px_objs cont (bc_indexdb b))(id_hash (md_ID md) \<mapsto> clean_meta md)"
    by (simp add: bucket_view_def store_obj_def clean_meta_def)
  then have "fst (disk_Lookup E now oid b') =
      (if id_hash oid = id_hash (md_ID md) then (Some (clean_meta md), None) else fst (disk_Lookup E now oid b))" for now oid
    using bucket_laws.disk_Lookup_objs [OF laws b'(2,3), of now oid]
      bucket_laws.disk_Lookup_objs [OF laws assms(6,8), of now oid] by auto
  then show ?thesis using b'(1) by blast
qed

text \<open>C7: Discarding an object ends, and removes it completely.  A call stack as deep as the number of objects is enough
  for the recursion over variants, also when they refer to each other.  Afterwards the object is gone
  with its chunk files and its entry of the inverted index, as are all its variants; whatever else is
  removed is an object reached from it by references to variants, and every other object, file and entry is as before.\<close>
theorem disk_Discard_removes:
  assumes "pebble P cont" "pebble Q kcont" "file_system F files dirs opened" "bitmap_laws bm"
    "E = pebble_env P Q F bm host time"
    "bucket_ok (px_objs cont) (px_ok cont codec) (kv_content kcont) files b"
    "px_objs cont (bc_indexdb b) (id_hash oid) = Some md" "card (dom (px_objs cont (bc_indexdb b))) \<le> n"
  shows "\<exists>b' S. disk_Discard E n oid b = Some (None, b') \<and>
    bucket_view (px_objs cont) (kv_content kcont) files b' =
      remove_objs bm (bc_path b) S (bucket_view (px_objs cont) (kv_content kcont) files b) \<and>
    id_hash oid \<in> S \<and> S \<subseteq> vary_reach (px_objs cont (bc_indexdb b)) (id_hash oid) \<and>
    (IsVary md \<longrightarrow> (\<forall>vk\<in>set (VirtualKey md).
       px_objs cont (bc_indexdb b') (id_hash (NewVirtualID (ID_Path (md_ID md)) vk)) = None))"
proof -
  have laws: "bucket_laws E (px_objs cont) (codec_good codec) (px_ok cont codec) (kv_content kcont) files dirs opened"
    unfolding assms(5) by (rule pebble_bucket_laws [OF assms(1-4)])
  have "env_bm E = bm" by (simp add: assms(5) pebble_env_def)
  then show ?thesis
    using bucket_laws.DiscardWithHash_found [OF laws assms(6-8)]
    unfolding disk_Discard_def bucket_laws.Discard_DiscardWithHash [OF laws] bucket_laws.discarded_def [OF laws] by blast
qed

text \<open>A codec for one object and a bucket without objects, for the examples.\<close>

definition one_codec :: "'b Metadata \<Rightarrow> 'b codec_ops" where
  "one_codec md0 = \<lparr>cd_Marshal = (\<lambda>md. if md = md0 then Inr [] else Inl StCodec), cd_Unmarshal = (\<lambda>_. (md0, None))\<rparr>"

definition sample_env :: "(((bytes \<times> bytes) list, u32_list) PebbleDB, u32_list, unit, (bytes \<times> bytes) list noneSharedKV, unit,
    list_fs, nat) bucket_env" where
  "sample_env = pebble_env list_pebble list_pebble list_fs_ops list_bitmap (\<lambda>_. Some ''h'') (\<lambda>_. [])"

definition sample_opt :: BucketConfig where
  "sample_opt = \<lparr>opt_Path = ''/d'', opt_Driver = ''native'', opt_Type = ''warm'', opt_DBType = ''pebble'', opt_DBPath = ''/i'',
     opt_AsyncLoad = False, opt_SliceSize = 0, opt_MaxObjectLimit = 10, opt_Migration = None\<rparr>"

definition sample_disk :: "u32_list Metadata \<Rightarrow> (((bytes \<times> bytes) list, u32_list) PebbleDB, (bytes \<times> bytes) list noneSharedKV, list_fs) diskBucket" where
  "sample_disk md = \<lparr>bc_path = ''/d'', bc_dbPath = ''/i'', bc_driver = ''native'', bc_storeType = ''warm'', bc_weight = 100,
     bc_sharedkv = \<lparr>kv_db = [], kv_closed = False\<rparr>,
     bc_indexdb = \<lparr>px_codec = one_codec md, px_db = [], px_skipErrRecord = True, px_closed = False\<rparr>,
     bc_cache = lfu_New 10, bc_fs = \<lparr>lf_files = [], lf_dirs = [], lf_opened = [], lf_next = 0\<rparr>, bc_migration = False,
     dk_opt = sample_opt, dk_asyncLoad = False, dk_hasMigration = False, dk_hkPromote = None, dk_lastPromoteReset = 0,
     dk_promotions = []\<rparr>"

lemma sample_disk_ok:
  "px_ok map_of (one_codec md) (bc_indexdb (sample_disk md))" "codec_good (one_codec md) md" "hk_fit (sample_disk md)"
  "bucket_ok (px_objs map_of) (px_ok map_of (one_codec md)) (kv_content map_of) files (sample_disk md)"
  by (simp_all add: px_ok_def sample_disk_def codec_good_def one_codec_def hk_fit_def bucket_ok_def view_ok_def bucket_view_def
      px_objs_def)

lemma clean_sample_md: "clean_meta sample_md = sample_md"
  by (simp add: clean_meta_def sample_md_def Del_def)

lemmas sample_laws = list_db.pebble_axioms list_db.pebble_axioms list_fs.file_system_axioms list_bitmap_laws sample_env_def

lemma disk_Store_Lookup_witness:
  "\<exists>b. disk_Store sample_env sample_md (sample_disk sample_md) = (None, b) \<and>
     fst (disk_Lookup sample_env 0 (NewID ''a'') b) = (Some sample_md, None)"
  using disk_Store_Lookup [OF sample_laws sample_disk_ok(1), of sample_md sample_md] sample_disk_ok(2,3)
  by (auto simp: clean_sample_md) (simp add: sample_md_def)

lemma disk_Discard_removes_witness:
  "\<exists>b b' S. disk_Store sample_env sample_md (sample_disk sample_md) = (None, b) \<and>
     disk_Discard sample_env 1 (NewID ''a'') b = Some (None, b') \<and> id_hash (NewID ''a'') \<in> S \<and>
     bucket_view (px_objs map_of) (kv_content map_of) (\<lambda>fs. map_of (lf_files fs)) b' =
       remove_objs list_bitmap ''/d'' S (bucket_view (px_objs map_of) (kv_content map_of) (\<lambda>fs. map_of (lf_files fs)) b)"
proof -
  have sample_path: "bc_path (sample_disk sample_md) = ''/d''" by (simp add: sample_disk_def)
  have laws: "bucket_laws sample_env (px_objs map_of) (codec_good (one_codec sample_md)) (px_ok map_of (one_codec sample_md))
      (kv_content map_of) (\<lambda>fs. map_of (lf_files fs)) (\<lambda>fs. set (lf_dirs fs)) (\<lambda>fs h. lf_handle h fs)"
    unfolding sample_env_def by (rule list_bucket.bucket_laws_axioms)
  obtain b where b: "disk_Store sample_env sample_md (sample_disk sample_md) = (None, b)" "bc_path b = ''/d''"
      "bucket_view (px_objs map_of) (kv_content map_of) (\<lambda>fs. map_of (lf_files fs)) b =
         store_obj ''/d'' sample_md (bucket_view (px_objs map_of) (kv_content map_of) (\<lambda>fs. map_of (lf_files fs)) (sample_disk sample_md))"
    using bucket_laws.disk_Store_view [OF laws sample_disk_ok(1), of sample_md] sample_disk_ok(2) [of sample_md]
    by (auto simp: clean_sample_md sample_path)
  have wf: "id_hash (md_ID sample_md) = sha1_Sum (ID_Key (md_ID sample_md))"
    by (simp add: sample_md_def NewID_def ID_Key_def Let_def)
  have ok: "bucket_ok (px_objs map_of) (px_ok map_of (one_codec sample_md)) (kv_content map_of) (\<lambda>fs. map_of (lf_files fs)) b"
    using bucket_laws.disk_Store_ok [OF laws sample_disk_ok(4) _ wf] b(1) sample_disk_ok(2) by (simp add: clean_sample_md)
  have objs: "px_objs map_of (bc_indexdb b) = [id_hash (NewID ''a'') \<mapsto> sample_md]"
    using b(3) by (simp add: bucket_view_def store_obj_def) (simp add: sample_disk_def sample_md_def px_objs_def fun_eq_iff)
  show ?thesis
    using disk_Discard_removes [OF sample_laws ok, of "NewID ''a''" sample_md 1] b(1,2) by (auto simp: objs)
qed

text \<open>C8: The invariant of the bucket on disk: every object lies under the hash of its own key and has an entry in the
  inverted index that leads to it.  Every sequence of operations keeps it, storing, discarding and removing
  objects, lookups, writing chunk files and evictions in any order; and no access ever makes the sketch of the promotions panic.\<close>
theorem disk_reachable_ok:
  assumes "pebble P cont" "pebble Q kcont" "file_system F files dirs opened" "bitmap_laws bm"
    "E = pebble_env P Q F bm host time"
    "(disk_step E (px_objs cont) (codec_good codec))\<^sup>*\<^sup>* b b'"
    "bucket_ok (px_objs cont) (px_ok cont codec) (kv_content kcont) files b" "hk_fit b"
  shows "bucket_ok (px_objs cont) (px_ok cont codec) (kv_content kcont) files b' \<and> (\<forall>now oid. disk_touch now oid b' \<noteq> None)"
proof -
  have laws: "bucket_laws E (px_objs cont) (codec_good codec) (px_ok cont codec) (kv_content kcont) files dirs opened"
    unfolding assms(5) by (rule pebble_bucket_laws [OF assms(1-4)])
  from assms(6) have "bucket_ok (px_objs cont) (px_ok cont codec) (kv_content kcont) files b' \<and> hk_fit b'"
  proof (induction)
    case (step b1 b2)
    then show ?case using bucket_laws.disk_step_ok [OF laws] by blast
  qed (use assms(7,8) in simp)
  then show ?thesis using disk_touch_store by blast
qed

lemma disk_reachable_ok_witness:
  "bucket_ok (px_objs map_of) (px_ok map_of (one_codec sample_md)) (kv_content map_of) (\<lambda>fs. map_of (lf_files fs))
     (snd (disk_Store sample_env sample_md (sample_disk sample_md)))"
proof -
  let ?b = "sample_disk sample_md"
  have "id_hash (md_ID sample_md) = sha1_Sum (ID_Key (md_ID sample_md))"
    by (simp add: sample_md_def NewID_def ID_Key_def Let_def)
  then have "disk_step sample_env (px_objs map_of) (codec_good (one_codec sample_md)) ?b (snd (disk_Store sample_env sample_md ?b))"
    using disk_step.st_Store [of "codec_good (one_codec sample_md)" sample_md sample_env ?b
        "fst (disk_Store sample_env sample_md ?b)" "snd (disk_Store sample_env sample_md ?b)" "px_objs map_of"] sample_disk_ok(2)
    by (simp add: clean_sample_md)
  then have "(disk_step sample_env (px_objs map_of) (codec_good (one_codec sample_md)))\<^sup>*\<^sup>* ?b (snd (disk_Store sample_env sample_md ?b))"
    by (rule r_into_rtranclp)
  from disk_reachable_ok [OF sample_laws this sample_disk_ok(4,3)] show ?thesis by blast
qed

text \<open>C11: A chunk file holds what was written to it.  When no other file is in the way and the temporary file does not exist
  yet, writing a chunk in any pieces and closing it succeeds; reading the chunk then delivers the pieces joined
  together, no temporary file is left, and every other chunk of every object is as before.\<close>
theorem disk_chunk_roundtrip:
  assumes "file_system F files dirs opened" "env_fs E = F"
    "wpath = WPathSlice (bc_path b) i oid" "CHR ''/'' \<notin> set stamp"
    "\<forall>q\<in>dom (files (bc_fs b)). \<not> HasPrefix (filepath_Dir wpath @ ''/'') (q @ ''/'')"
    "wpath \<notin> dirs (snd (fs_MkdirAll F (filepath_Dir wpath) (bc_fs b)))"
    "files (bc_fs b) (wpath @ ''.tmp'' @ stamp) = None"
    "is_u32 i" "length (id_hash oid) = 20"
  shows "\<exists>cw b1 fs2 fs3 h b4. disk_WriteChunkFile E stamp oid i b = ((Inr cw, wpath), b1) \<and>
    cw_writes F cw ps (bc_fs b1) = (None, fs2) \<and> cw_Close F cw fs2 = (None, fs3) \<and>
    disk_ReadChunkFile E oid i (b1\<lparr>bc_fs := fs3\<rparr>) = ((Inr h, wpath), b4) \<and>
    fst (fs_ReadAll F h (bc_fs b4)) = (concat ps, None) \<and>
    (\<forall>oid' j. length (id_hash oid') = 20 \<and> is_u32 j \<and> (id_hash oid', j) \<noteq> (id_hash oid, i) \<longrightarrow>
       files fs3 (WPathSlice (bc_path b) j oid') = files (bc_fs b) (WPathSlice (bc_path b) j oid')) \<and>
    files fs3 (wpath @ ''.tmp'' @ stamp) = None"
proof -
  let ?tmp = "wpath @ ''.tmp'' @ stamp"
  have "?tmp \<noteq> wpath" by simp
  have dir: "filepath_Dir ?tmp = filepath_Dir wpath" using assms(4) by (intro filepath_Dir_suffix) simp
  obtain fs0 where 0: "fs_MkdirAll F (filepath_Dir wpath) (bc_fs b) = (None, fs0)" "files fs0 = files (bc_fs b)"
      "filepath_Dir wpath \<in> dirs fs0"
    using file_system.mkdir [OF assms(1,5)] by blast
  obtain h fs1 fs2 fs3 where w: "fs_Create F ?tmp fs0 = (Inr h, fs1)"
      "cw_writes F (ChunkWriterCloser h (Some (?tmp, wpath))) ps fs1 = (None, fs2)"
      "cw_Close F (ChunkWriterCloser h (Some (?tmp, wpath))) fs2 = (None, fs3)"
      "files fs3 = (files fs0)(?tmp := None, wpath \<mapsto> concat ps)"
    using file_system.write_chunk [OF assms(1), of ?tmp fs0 wpath ps] 0 assms(6,7) dir by auto
  obtain h' fs4 where r: "fs_Open F wpath fs3 = (Inr h', fs4)" "files fs4 = files fs3" "opened fs4 h' = Some (wpath, 0)"
    using file_system.open_some [OF assms(1), of fs3 wpath "concat ps"] w(4) by auto
  have rd: "fst (fs_ReadAll F h' fs4) = (concat ps, None)"
    using file_system.read_all [OF assms(1) r(3), of "concat ps"] r(2) w(4) by auto
  have other: "files fs3 (WPathSlice (bc_path b) j oid') = files (bc_fs b) (WPathSlice (bc_path b) j oid')"
    if "length (id_hash oid') = 20" "is_u32 j" "(id_hash oid', j) \<noteq> (id_hash oid, i)" for oid' j
  proof -
    have "WPathSlice (bc_path b) j oid' \<noteq> wpath"
      using WPathSlice_eqD [OF that(1) assms(9) that(2) assms(8)] that(3) assms(3) by blast
    then show ?thesis using w(4) 0(2) assms(7) by auto
  qed
  have W: "disk_WriteChunkFile E stamp oid i b =
      ((Inr (ChunkWriterCloser h (Some (?tmp, wpath))), wpath), b\<lparr>bc_fs := fs1\<rparr>)"
    using 0(1) w(1) by (simp add: disk_WriteChunkFile_def assms(2) assms(3) [symmetric])
  have R: "disk_ReadChunkFile E oid i (b\<lparr>bc_fs := fs1\<rparr>\<lparr>bc_fs := fs3\<rparr>) = ((Inr h', wpath), b\<lparr>bc_fs := fs4\<rparr>)"
    using r(1) by (simp add: disk_ReadChunkFile_def assms(2) assms(3) [symmetric])
  have w': "cw_writes F (ChunkWriterCloser h (Some (?tmp, wpath))) ps (bc_fs (b\<lparr>bc_fs := fs1\<rparr>)) = (None, fs2)"
    and rd': "fst (fs_ReadAll F h' (bc_fs (b\<lparr>bc_fs := fs4\<rparr>))) = (concat ps, None)" and "files fs3 ?tmp = None"
    using w(2,4) rd by simp_all
  then show ?thesis using W R w(3) other by blast
qed

lemma disk_chunk_roundtrip_witness:
  "\<exists>cw b1 fs2 fs3 h b4.
    disk_WriteChunkFile sample_env ''20200101000000'' \<lparr>id_path = ''a'', id_ext = [], id_hash = replicate 20 (CHR 0x00), id_cacheID = []\<rparr> 1
      (sample_disk sample_md) = ((Inr cw, ''/d/0/00/0000000000000000000000000000000000000000-000001''), b1) \<and>
    cw_writes list_fs_ops cw [''a'', ''b''] (bc_fs b1) = (None, fs2) \<and> cw_Close list_fs_ops cw fs2 = (None, fs3) \<and>
    disk_ReadChunkFile sample_env \<lparr>id_path = ''a'', id_ext = [], id_hash = replicate 20 (CHR 0x00), id_cacheID = []\<rparr> 1
      (b1\<lparr>bc_fs := fs3\<rparr>) = ((Inr h, ''/d/0/00/0000000000000000000000000000000000000000-000001''), b4) \<and>
    fst (fs_ReadAll list_fs_ops h (bc_fs b4)) = (''ab'', None)"
proof -
  let ?oid = "\<lparr>id_path = ''a'', id_ext = [], id_hash = replicate 20 (CHR 0x00), id_cacheID = []\<rparr>"
  let ?w = "''/d/0/00/0000000000000000000000000000000000000000-000001''"
  have w: "?w = WPathSlice (bc_path (sample_disk sample_md)) 1 ?oid"
    by (simp add: sample_disk_def) code_simp
  have d: "?w \<noteq> filepath_Dir ?w" by code_simp
  have fs: "lf_files (bc_fs (sample_disk sample_md)) = []" "lf_dirs (bc_fs (sample_disk sample_md)) = []"
    by (simp_all add: sample_disk_def)
  show ?thesis
    using disk_chunk_roundtrip [OF list_fs.file_system_axioms _ w, of sample_env "''20200101000000''" "[''a'', ''b'']"] d
    by (simp add: fs sample_env_def pebble_env_def list_fs_ops_def is_u32_def) blast
qed



end
