(* ===== verification/Memory_Bucket.thy ===== *)
theory Memory_Bucket
  imports Disk_Bucket
begin

text \<open>
  The bucket in memory, \<^verbatim>\<open>src/storage/bucket/memory/memory.go\<close>, and the bucket without objects,
  \<^verbatim>\<open>src/storage/bucket/empty/empty.go\<close>.  The files of the bucket in memory lie in a file system of its own.
\<close>

subsection \<open>memory.go\<close>

record ('i, 'kv, 'fs) memoryBucket = "('i, 'kv, 'fs) bucket_core" +
  mb_maxSize :: int
  mb_closed :: bool

text \<open>\<open>newMem\<close> is an empty file system, \<open>create\<close> opens an index.\<close>

definition mem_New :: "'fs \<Rightarrow> (string \<Rightarrow> string \<Rightarrow> st_err + 'i) \<Rightarrow> BucketConfig \<Rightarrow> 'kv \<Rightarrow> st_err + ('i, 'kv, 'fs) memoryBucket" where
  "mem_New newMem create opt sharedkv =
     (case create ''pebble'' ''memory'' of
        Inl err \<Rightarrow> Inl err
      | Inr db \<Rightarrow> Inr
          \<lparr>bc_path = ''/'', bc_dbPath = ''memory'', bc_driver = opt_Driver opt, bc_storeType = opt_Type opt, bc_weight = 100,
           bc_sharedkv = sharedkv, bc_indexdb = db, bc_cache = lfu_New (opt_MaxObjectLimit opt), bc_fs = newMem,
           bc_migration = False, mb_maxSize = 1024 * 1024 * 100, mb_closed = False\<rparr>)"

definition mem_Allow :: "('i, 'kv, 'fs) memoryBucket \<Rightarrow> int option" where
  "mem_Allow b = Some (i64 (mb_maxSize b))"

definition mem_Close :: "('i, 'b, 'c, 'kv, 'k, 'fs, 'h) bucket_env \<Rightarrow> ('i, 'kv, 'fs) memoryBucket \<Rightarrow>
    st_err option \<times> ('i, 'kv, 'fs) memoryBucket" where
  "mem_Close E b =
     (if mb_closed b then (None, b)
      else let (err, i) = ix_Close (env_index E) (bc_indexdb b) in (err, b\<lparr>mb_closed := True, bc_indexdb := i\<rparr>))"

definition mem_discard :: "('i, 'b, 'c, 'kv, 'k, 'fs, 'h) bucket_env \<Rightarrow> nat \<Rightarrow> 'b Metadata option \<Rightarrow>
    ('i, 'kv, 'fs) memoryBucket \<Rightarrow> (st_err option \<times> ('i, 'kv, 'fs) memoryBucket) option" where
  "mem_discard = bc_discard"

definition mem_Discard :: "('i, 'b, 'c, 'kv, 'k, 'fs, 'h) bucket_env \<Rightarrow> nat \<Rightarrow> ID \<Rightarrow> ('i, 'kv, 'fs) memoryBucket \<Rightarrow>
    (st_err option \<times> ('i, 'kv, 'fs) memoryBucket) option" where
  "mem_Discard = bc_Discard"

definition mem_DiscardWithHash :: "('i, 'b, 'c, 'kv, 'k, 'fs, 'h) bucket_env \<Rightarrow> nat \<Rightarrow> bytes \<Rightarrow> ('i, 'kv, 'fs) memoryBucket \<Rightarrow>
    (st_err option \<times> ('i, 'kv, 'fs) memoryBucket) option" where
  "mem_DiscardWithHash = bc_DiscardWithHash"

definition mem_DiscardWithMessage :: "('i, 'b, 'c, 'kv, 'k, 'fs, 'h) bucket_env \<Rightarrow> nat \<Rightarrow> ID \<Rightarrow> string \<Rightarrow>
    ('i, 'kv, 'fs) memoryBucket \<Rightarrow> (st_err option \<times> ('i, 'kv, 'fs) memoryBucket) option" where
  "mem_DiscardWithMessage E n oid msg b = mem_Discard E n oid b"

definition mem_DiscardWithMetadata :: "('i, 'b, 'c, 'kv, 'k, 'fs, 'h) bucket_env \<Rightarrow> nat \<Rightarrow> 'b Metadata \<Rightarrow>
    ('i, 'kv, 'fs) memoryBucket \<Rightarrow> (st_err option \<times> ('i, 'kv, 'fs) memoryBucket) option" where
  "mem_DiscardWithMetadata E n meta b = mem_Discard E n (md_ID meta) b"

text \<open>The conversion of the slice to a hash takes its first 20 bytes and panics when it is shorter.\<close>

definition mem_Exist :: "bytes \<Rightarrow> ('i, 'kv, 'fs) memoryBucket \<Rightarrow> bool option" where
  "mem_Exist idb b = (if length idb < 20 then None else Some (lfu_Has (take 20 idb) (bc_cache b)))"

definition mem_Objects :: "('i, 'kv, 'fs) memoryBucket \<Rightarrow> int" where
  "mem_Objects b = u64 (lfu_Len (bc_cache b))"

definition mem_Expired :: "ID \<Rightarrow> 'b Metadata \<Rightarrow> ('i, 'kv, 'fs) memoryBucket \<Rightarrow> bool option" where
  "mem_Expired oid md b = None"

definition mem_Lookup :: "('i, 'b, 'c, 'kv, 'k, 'fs, 'h) bucket_env \<Rightarrow> ID \<Rightarrow> ('i, 'kv, 'fs) memoryBucket \<Rightarrow>
    ('b Metadata option \<times> st_err option) \<times> ('i, 'kv, 'fs) memoryBucket" where
  "mem_Lookup E oid b = (ix_Get (env_index E) (ID_Bytes oid) (bc_indexdb b), b)"

definition mem_Touch :: "int \<Rightarrow> ID \<Rightarrow> ('i, 'kv, 'fs) memoryBucket \<Rightarrow> ('i, 'kv, 'fs) memoryBucket" where
  "mem_Touch now oid b = snd (bc_touch (unix now) oid b)"

definition mem_Remove :: "ID \<Rightarrow> ('i, 'kv, 'fs) memoryBucket \<Rightarrow> st_err option \<times> ('i, 'kv, 'fs) memoryBucket" where
  "mem_Remove oid b = (None, b)"

definition mem_Store :: "('i, 'b, 'c, 'kv, 'k, 'fs, 'h) bucket_env \<Rightarrow> 'b Metadata \<Rightarrow> ('i, 'kv, 'fs) memoryBucket \<Rightarrow>
    st_err option \<times> ('i, 'kv, 'fs) memoryBucket" where
  "mem_Store E meta b =
     (let oid = md_ID meta;
          (err, i) = ix_Set (env_index E) (ID_Bytes oid) meta (bc_indexdb b);
          b = b\<lparr>bc_indexdb := i\<rparr>
      in if err \<noteq> None then (err, b)
         else
           let b = b\<lparr>bc_cache := cache_Set (ID_Hash oid) (NewMark (LastRefUnix meta) (md_Refs meta)) (bc_cache b)\<rparr>
           in (None, bc_set_index E oid (bc_incr_domain E oid b)))"

definition mem_WriteChunkFile :: "('i, 'b, 'c, 'kv, 'k, 'fs, 'h) bucket_env \<Rightarrow> ID \<Rightarrow> int \<Rightarrow>
    ('i, 'kv, 'fs) memoryBucket \<Rightarrow> ((st_err + 'h chunkWriter) \<times> string) \<times> ('i, 'kv, 'fs) memoryBucket" where
  "mem_WriteChunkFile E oid index b =
     (let wpath = WPathSlice (bc_path b) index oid;
          fs = snd (fs_MkdirAll (env_fs E) (filepath_Dir wpath) (bc_fs b));
          (f, fs) = fs_Create (env_fs E) wpath fs;
          b = b\<lparr>bc_fs := fs\<rparr>
      in case f of
           Inl err \<Rightarrow> ((Inl err, wpath), b)
         | Inr h \<Rightarrow> ((Inr (ChunkWriterCloser h None), wpath), b))"

definition mem_ReadChunkFile :: "('i, 'b, 'c, 'kv, 'k, 'fs, 'h) bucket_env \<Rightarrow> ID \<Rightarrow> int \<Rightarrow>
    ('i, 'kv, 'fs) memoryBucket \<Rightarrow> ((st_err + 'h vfsFile) \<times> string) \<times> ('i, 'kv, 'fs) memoryBucket" where
  "mem_ReadChunkFile E oid index b =
     (let wpath = WPathSlice (bc_path b) index oid;
          (f, fs) = fs_Open (env_fs E) wpath (bc_fs b);
          b = b\<lparr>bc_fs := fs\<rparr>
      in case f of Inl err \<Rightarrow> ((Inl err, wpath), b) | Inr h \<Rightarrow> ((Inr (WrapVFSFile h), wpath), b))"

definition mem_SetMigration :: "bool \<Rightarrow> ('i, 'kv, 'fs) memoryBucket \<Rightarrow> st_err option \<times> ('i, 'kv, 'fs) memoryBucket" where
  "mem_SetMigration migration b = (None, b\<lparr>bc_migration := migration\<rparr>)"

subsection \<open>empty.go\<close>

record emptyBucket =
  eb_path :: string

definition empty_New :: "BucketConfig \<Rightarrow> st_err + emptyBucket" where
  "empty_New c = Inr \<lparr>eb_path = (if opt_Path c = [] then ''/dev/null'' else opt_Path c)\<rparr>"

text \<open>Every operation is constant.  A chunk that is read is nil without an error, here the value \<open>None\<close>.\<close>

definition empty_ops :: "(emptyBucket, 'b, 'w, 'f option, 'g, 'd, 'c) bucket_ops" where
  "empty_ops =
     \<lparr>bk_Lookup = (\<lambda>oid e. ((None, Some (StKV ErrKeyNotFound)), e)),
      bk_Touch = (\<lambda>oid e. e),
      bk_Store = (\<lambda>meta e. (None, e)),
      bk_Exist = (\<lambda>oid e. Some False),
      bk_Remove = (\<lambda>oid e. (None, e)),
      bk_Discard = (\<lambda>oid e. (None, e)),
      bk_DiscardWithHash = (\<lambda>hash e. (None, e)),
      bk_DiscardWithMessage = (\<lambda>oid msg e. (None, e)),
      bk_DiscardWithMetadata = (\<lambda>meta e. (None, e)),
      bk_Iterate = (\<lambda>fn e c. (None, c)),
      bk_Expired = (\<lambda>oid md e. Some True),
      bk_WriteChunkFile = (\<lambda>oid index e. ((Inl StNotExist, ''/dev/null''), e)),
      bk_ReadChunkFile = (\<lambda>oid index e. ((Inr None, ''discard''), e)),
      bk_Migrate = (\<lambda>oid dest e. (None, e)),
      bk_SetMigration = (\<lambda>migration e. (None, e)),
      bk_ID = (\<lambda>e. ''empty:/dev/null''),
      bk_Weight = (\<lambda>e. 1000),
      bk_Allow = (\<lambda>e. Some 100),
      bk_UseAllow = (\<lambda>e. True),
      bk_Objects = (\<lambda>e. 0),
      bk_HasBad = (\<lambda>e. False),
      bk_Type = (\<lambda>e. ''empty''),
      bk_StoreType = (\<lambda>e. ''empty''),
      bk_Path = eb_path,
      bk_TopK = (\<lambda>k e. Some []),
      bk_Close = (\<lambda>e. (None, e))\<rparr>"

subsection \<open>Properties\<close>

text \<open>C15: The bucket in memory forgets to forget: discarding an object removes it from the index and its chunk files from the file
  system, so that a lookup no longer finds it, but never changes what \<^verbatim>\<open>Exist\<close> answers.  An object that was stored and
  discarded is still said to exist.\<close>
theorem mem_Exist_after_Discard:
  assumes "pebble P cont" "pebble Q kcont" "file_system F files dirs opened" "bitmap_laws bm"
    "E = pebble_env P Q F bm host time"
    "bucket_ok (px_objs cont) (px_ok cont codec) (kv_content kcont) files b"
    "px_objs cont (bc_indexdb b) (id_hash oid) = Some md" "card (dom (px_objs cont (bc_indexdb b))) \<le> n"
  shows "\<exists>b'. mem_Discard E n oid b = Some (None, b') \<and>
    fst (mem_Lookup E oid b') = (None, Some (StKV ErrKeyNotFound)) \<and>
    (\<forall>p\<in>slice_paths bm (bc_path b) md. files (bc_fs b') p = None) \<and>
    (\<forall>idb. mem_Exist idb b' = mem_Exist idb b)"
proof -
  have laws: "bucket_laws E (px_objs cont) (codec_good codec) (px_ok cont codec) (kv_content kcont) files dirs opened"
    unfolding assms(5) by (rule pebble_bucket_laws [OF assms(1-4)])
  have bm: "env_bm E = bm" by (simp add: assms(5) pebble_env_def)
  obtain b' S where b': "bc_DiscardWithHash E n (id_hash oid) b = Some (None, b')"
      "bucket_laws.discarded E (px_objs cont) (px_ok cont codec) (kv_content kcont) files S b b'" "id_hash oid \<in> S"
    using bucket_laws.DiscardWithHash_found [OF laws assms(6-8)] by blast
  note D = b'(2) [unfolded bucket_laws.discarded_def [OF laws] bm]
  have "px_objs cont (bc_indexdb b') (id_hash oid) = None"
    using bucket_laws.discarded_objs [OF laws b'(2)] b'(3) by simp
  moreover have "px_ok cont codec (bc_indexdb b')" using D by blast
  ultimately have "fst (mem_Lookup E oid b') = (None, Some (StKV ErrKeyNotFound))"
    by (simp add: mem_Lookup_def assms(5) pebble_env_def pebble_index_def ID_Bytes_def pebble.px_Get_objs [OF assms(1)])
  moreover have "bc_cache b' = bc_cache b"
    using D bucket_laws.same_bucket_path [OF laws] by blast
  moreover have "files (bc_fs b') = v_files (remove_objs bm (bc_path b) S (bucket_view (px_objs cont) (kv_content kcont) files b))"
    using D by (metis bucket_view_def bview.select_convs(3))
  then have "\<forall>p\<in>slice_paths bm (bc_path b) md. files (bc_fs b') p = None"
    using assms(7) b'(3) by (auto simp: remove_objs_def bucket_view_def)
  ultimately show ?thesis
    using b'(1) unfolding mem_Discard_def bucket_laws.Discard_DiscardWithHash [OF laws] by (simp add: mem_Exist_def)
qed

definition sample_memory :: "(((bytes \<times> bytes) list, u32_list) PebbleDB, (bytes \<times> bytes) list noneSharedKV, list_fs) memoryBucket" where
  "sample_memory =
     \<lparr>bc_path = ''/'', bc_dbPath = ''memory'', bc_driver = ''memory'', bc_storeType = ''memory'', bc_weight = 100,
      bc_sharedkv = \<lparr>kv_db = [(ix_key ''/'' ''a'', id_hash (NewID ''a''))], kv_closed = False\<rparr>,
      bc_indexdb = \<lparr>px_codec = one_codec sample_md, px_db = [(id_hash (NewID ''a''), [])], px_skipErrRecord = True, px_closed = False\<rparr>,
      bc_cache = cache_Set (id_hash (NewID ''a'')) 0 (lfu_New 10),
      bc_fs = \<lparr>lf_files = [], lf_dirs = [], lf_opened = [], lf_next = 0\<rparr>, bc_migration = False,
      mb_maxSize = 1024 * 1024 * 100, mb_closed = False\<rparr>"

lemma sample_memory_objs: "px_objs map_of (bc_indexdb sample_memory) = [id_hash (NewID ''a'') \<mapsto> sample_md]"
  by (auto simp: sample_memory_def px_objs_def one_codec_def fun_eq_iff)

lemma sample_memory_ok:
  "bucket_ok (px_objs map_of) (px_ok map_of (one_codec sample_md)) (kv_content map_of) (\<lambda>fs. map_of (lf_files fs)) sample_memory"
proof -
  have "md_ID sample_md = NewID ''a''" "id_hash (NewID ''a'') = sha1_Sum (ID_Key (NewID ''a''))" "ID_Key (NewID ''a'') = ''a''"
    by (simp_all add: sample_md_def NewID_def ID_Key_def Let_def)
  moreover have "px_ok map_of (one_codec sample_md) (bc_indexdb sample_memory)"
    by (simp add: px_ok_def sample_memory_def one_codec_def)
  moreover have "no_domains (kv_content map_of (bc_sharedkv sample_memory)) (ix_key ''/'' ''a'') = Some (id_hash (NewID ''a''))"
    by (simp add: no_domains_def kv_content_def sample_memory_def ix_key_def HasPrefix_def)
  moreover have "bc_path sample_memory = ''/''" by (simp add: sample_memory_def)
  ultimately show ?thesis by (simp add: bucket_ok_def view_ok_def bucket_view_def sample_memory_objs)
qed

lemma mem_Exist_after_Discard_witness:
  "\<exists>b'. mem_Discard sample_env 1 (NewID ''a'') sample_memory = Some (None, b') \<and>
     fst (mem_Lookup sample_env (NewID ''a'') b') = (None, Some (StKV ErrKeyNotFound)) \<and>
     mem_Exist (id_hash (NewID ''a'')) b' = mem_Exist (id_hash (NewID ''a'')) sample_memory"
  using mem_Exist_after_Discard [OF sample_laws sample_memory_ok, of "NewID ''a''" sample_md 1] by (auto simp: sample_memory_objs)

end
