(* ===== verification/Bucket_World.thy ===== *)
theory Bucket_World
  imports Memory_Bucket
begin

text \<open>
  The buckets of a storage side by side.  A bucket is a pointer into a heap, the interface \<^verbatim>\<open>storage.Bucket\<close> dispatches on the
  kind of the bucket it finds there, and all buckets share one key-value store.  On top of it \<^verbatim>\<open>Migrate\<close> of the buckets
  on disk and in memory, which moves an object from one bucket to another.
\<close>

datatype ('i, 'kv, 'fs) bucket_obj =
  DiskB "('i, 'kv, 'fs) diskBucket" | MemB "('i, 'kv, 'fs) memoryBucket" | EmptyB emptyBucket

record ('i, 'kv, 'fs) world =
  w_kv :: 'kv
  w_heap :: "nat \<Rightarrow> ('i, 'kv, 'fs) bucket_obj"

text \<open>A method call: the bucket sees the shared store of the moment.\<close>

definition call :: "(('i, 'kv, 'fs) diskBucket \<Rightarrow> 'r \<times> ('i, 'kv, 'fs) diskBucket) \<Rightarrow>
    (('i, 'kv, 'fs) memoryBucket \<Rightarrow> 'r \<times> ('i, 'kv, 'fs) memoryBucket) \<Rightarrow> (emptyBucket \<Rightarrow> 'r \<times> emptyBucket) \<Rightarrow>
    nat \<Rightarrow> ('i, 'kv, 'fs) world \<Rightarrow> 'r \<times> ('i, 'kv, 'fs) world" where
  "call f g h d w =
     (case w_heap w d of
        DiskB b \<Rightarrow> let (r, b) = f (b\<lparr>bc_sharedkv := w_kv w\<rparr>)
                   in (r, w\<lparr>w_kv := bc_sharedkv b, w_heap := (w_heap w)(d := DiskB b)\<rparr>)
      | MemB b \<Rightarrow> let (r, b) = g (b\<lparr>bc_sharedkv := w_kv w\<rparr>)
                  in (r, w\<lparr>w_kv := bc_sharedkv b, w_heap := (w_heap w)(d := MemB b)\<rparr>)
      | EmptyB e \<Rightarrow> let (r, e) = h e in (r, w\<lparr>w_heap := (w_heap w)(d := EmptyB e)\<rparr>))"

definition ask :: "(('i, 'kv, 'fs) diskBucket \<Rightarrow> 'r) \<Rightarrow> (('i, 'kv, 'fs) memoryBucket \<Rightarrow> 'r) \<Rightarrow> (emptyBucket \<Rightarrow> 'r) \<Rightarrow>
    nat \<Rightarrow> ('i, 'kv, 'fs) world \<Rightarrow> 'r" where
  "ask f g h d w = fst (call (\<lambda>b. (f b, b)) (\<lambda>b. (g b, b)) (\<lambda>e. (h e, e)) d w)"

text \<open>A stack overflow ends the program.\<close>

definition stack :: "('b \<Rightarrow> (st_err option \<times> 'b) option) \<Rightarrow> 'b \<Rightarrow> st_err option \<times> 'b" where
  "stack f b = (case f b of None \<Rightarrow> (Some StPanic, b) | Some r \<Rightarrow> r)"

text \<open>The files that the buckets hand out, with the bucket they belong to.\<close>

datatype 'h rfile = OsFile nat 'h | VfsFile nat "'h vfsFile" | NilFile

definition on_files :: "('fs \<Rightarrow> 'r \<times> 'fs) \<Rightarrow> 'r \<Rightarrow> nat \<Rightarrow> ('i, 'kv, 'fs) world \<Rightarrow> 'r \<times> ('i, 'kv, 'fs) world" where
  "on_files f r0 d w =
     call (\<lambda>b. let (r, fs) = f (bc_fs b) in (r, b\<lparr>bc_fs := fs\<rparr>))
          (\<lambda>b. let (r, fs) = f (bc_fs b) in (r, b\<lparr>bc_fs := fs\<rparr>)) (\<lambda>e. (r0, e)) d w"

definition rf_ReadAll :: "('fs, 'h) fs_ops \<Rightarrow> 'h rfile \<Rightarrow> ('i, 'kv, 'fs) world \<Rightarrow> (bytes \<times> st_err option) \<times> ('i, 'kv, 'fs) world" where
  "rf_ReadAll F rfl w =
     (case rfl of
        OsFile d h \<Rightarrow> on_files (fs_ReadAll F h) ([], Some StPanic) d w
      | VfsFile d v \<Rightarrow> on_files (fs_ReadAll F (vf_File v)) ([], Some StPanic) d w
      | NilFile \<Rightarrow> (([], Some StPanic), w))"

definition rf_Close :: "('fs, 'h) fs_ops \<Rightarrow> 'h rfile \<Rightarrow> ('i, 'kv, 'fs) world \<Rightarrow> st_err option \<times> ('i, 'kv, 'fs) world" where
  "rf_Close F rfl w =
     (case rfl of
        OsFile d h \<Rightarrow> on_files (fs_CloseFile F h) (Some StPanic) d w
      | VfsFile d v \<Rightarrow> on_files (\<lambda>fs. let (e, v, fs) = vf_Close F v fs in (e, fs)) (Some StPanic) d w
      | NilFile \<Rightarrow> (Some StPanic, w))"

definition w_ReadChunkFile :: "('i, 'b, 'c, 'kv, 'k, 'fs, 'h) bucket_env \<Rightarrow> ID \<Rightarrow> int \<Rightarrow> nat \<Rightarrow> ('i, 'kv, 'fs) world \<Rightarrow>
    ((st_err + 'h rfile) \<times> string) \<times> ('i, 'kv, 'fs) world" where
  "w_ReadChunkFile E oid i d w =
     call (\<lambda>b. let ((f, p), b) = disk_ReadChunkFile E oid i b in ((map_sum (\<lambda>e. e) (OsFile d) f, p), b))
          (\<lambda>b. let ((f, p), b) = mem_ReadChunkFile E oid i b in ((map_sum (\<lambda>e. e) (VfsFile d) f, p), b))
          (\<lambda>e. ((Inr NilFile, ''discard''), e)) d w"

definition w_WriteChunkFile :: "('i, 'b, 'c, 'kv, 'k, 'fs, 'h) bucket_env \<Rightarrow> string \<Rightarrow> ID \<Rightarrow> int \<Rightarrow> nat \<Rightarrow> ('i, 'kv, 'fs) world \<Rightarrow>
    ((st_err + nat \<times> 'h chunkWriter) \<times> string) \<times> ('i, 'kv, 'fs) world" where
  "w_WriteChunkFile E stamp oid i d w =
     call (\<lambda>b. let ((f, p), b) = disk_WriteChunkFile E stamp oid i b in ((map_sum (\<lambda>e. e) (Pair d) f, p), b))
          (\<lambda>b. let ((f, p), b) = mem_WriteChunkFile E oid i b in ((map_sum (\<lambda>e. e) (Pair d) f, p), b))
          (\<lambda>e. ((Inl StNotExist, ''/dev/null''), e)) d w"

definition w_Store :: "('i, 'b, 'c, 'kv, 'k, 'fs, 'h) bucket_env \<Rightarrow> 'b Metadata \<Rightarrow> nat \<Rightarrow> ('i, 'kv, 'fs) world \<Rightarrow>
    st_err option \<times> ('i, 'kv, 'fs) world" where
  "w_Store E md = call (disk_Store E md) (mem_Store E md) (\<lambda>e. (None, e))"

subsection \<open>Migrate\<close>

text \<open>\<^verbatim>\<open>io.Copy\<close> moves the bytes in pieces of 32 KiB; an error of a write goes before one of the reads.\<close>

function pieces :: "nat \<Rightarrow> 'a list \<Rightarrow> 'a list list" where
  "pieces n xs = (if xs = [] \<or> n = 0 then [] else take n xs # pieces n (drop n xs))"
  by auto

termination
  by (relation "measure (length \<circ> snd)") auto

declare pieces.simps [simp del]

definition io_Copy :: "('fs, 'h) fs_ops \<Rightarrow> nat \<times> 'h chunkWriter \<Rightarrow> 'h rfile \<Rightarrow> ('i, 'kv, 'fs) world \<Rightarrow>
    st_err option \<times> ('i, 'kv, 'fs) world" where
  "io_Copy F wfile rfl w =
     (let ((bs, rerr), w) = rf_ReadAll F rfl w;
          (werr, w) = on_files (cw_writes F (snd wfile) (pieces 32768 bs)) (Some StPanic) (fst wfile) w
      in (if werr \<noteq> None then werr else rerr, w))"

text \<open>The deferred closes run in the reverse order; their errors are dropped.\<close>

definition migrate_chunk :: "('i, 'b, 'c, 'kv, 'k, 'fs, 'h) bucket_env \<Rightarrow> string \<Rightarrow> ID \<Rightarrow> nat \<Rightarrow> nat \<Rightarrow> int \<Rightarrow>
    ('i, 'kv, 'fs) world \<Rightarrow> st_err option \<times> ('i, 'kv, 'fs) world" where
  "migrate_chunk E stamp oid src dest x w =
     (let ((rfl, _), w) = w_ReadChunkFile E oid x src w in
      case rfl of
        Inl err1 \<Rightarrow> (Some err1, w)
      | Inr rfl \<Rightarrow>
          let ((wfile, _), w) = w_WriteChunkFile E stamp oid x dest w in
          case wfile of
            Inl err2 \<Rightarrow> (Some err2, snd (rf_Close (env_fs E) rfl w))
          | Inr wfile \<Rightarrow>
              let (err2, w) = io_Copy (env_fs E) wfile rfl w;
                  w = snd (on_files (cw_Close (env_fs E) (snd wfile)) None (fst wfile) w)
              in (err2, snd (rf_Close (env_fs E) rfl w)))"

fun migrate_chunks :: "('i, 'b, 'c, 'kv, 'k, 'fs, 'h) bucket_env \<Rightarrow> string \<Rightarrow> ID \<Rightarrow> nat \<Rightarrow> nat \<Rightarrow> int list \<Rightarrow>
    ('i, 'kv, 'fs) world \<Rightarrow> st_err option \<times> ('i, 'kv, 'fs) world" where
  "migrate_chunks E stamp oid src dest [] w = (None, w)"
| "migrate_chunks E stamp oid src dest (x # xs) w =
     (let (moveErr, w) = migrate_chunk E stamp oid src dest x w in
      if moveErr \<noteq> None then (moveErr, w) else migrate_chunks E stamp oid src dest xs w)"

text \<open>
  \<^verbatim>\<open>Migrate\<close> of a bucket that is on disk or in memory; the two bodies agree.  Storing in a bucket on disk takes the
  internal fields out of the header of \<open>md\<close>, on which \<^verbatim>\<open>discard\<close> does not depend.  Metadata without an error is never nil here.
\<close>

definition w_Get :: "('i, 'b, 'c, 'kv, 'k, 'fs, 'h) bucket_env \<Rightarrow> bytes \<Rightarrow> nat \<Rightarrow> ('i, 'kv, 'fs) world \<Rightarrow>
    'b Metadata option \<times> st_err option" where
  "w_Get E hash = ask (\<lambda>b. ix_Get (env_index E) hash (bc_indexdb b)) (\<lambda>b. ix_Get (env_index E) hash (bc_indexdb b))
     (\<lambda>e. (None, Some (StKV ErrKeyNotFound)))"

definition disk_Migrate :: "('i, 'b, 'c, 'kv, 'k, 'fs, 'h) bucket_env \<Rightarrow> nat \<Rightarrow> string \<Rightarrow> ID \<Rightarrow> nat \<Rightarrow> nat \<Rightarrow>
    ('i, 'kv, 'fs) world \<Rightarrow> st_err option \<times> ('i, 'kv, 'fs) world" where
  "disk_Migrate E n stamp oid dest d w =
     (case w_Get E (ID_Bytes oid) d w of
        (_, Some err) \<Rightarrow> (Some err, w)
      | (None, None) \<Rightarrow> (Some StPanic, w)
      | (Some md, None) \<Rightarrow>
          let (moveErr, w) = migrate_chunks E stamp oid d dest (bm_Range (env_bm E) (Chunks md)) w in
          if moveErr \<noteq> None then (moveErr, w)
          else
            let (err, w) = w_Store E md dest w in
            if err \<noteq> None then (err, w)
            else call (stack (disk_discard E n (Some md))) (stack (mem_discard E n (Some md))) (\<lambda>e. (None, e)) d w)"

definition mem_Migrate :: "('i, 'b, 'c, 'kv, 'k, 'fs, 'h) bucket_env \<Rightarrow> nat \<Rightarrow> string \<Rightarrow> ID \<Rightarrow> nat \<Rightarrow> nat \<Rightarrow>
    ('i, 'kv, 'fs) world \<Rightarrow> st_err option \<times> ('i, 'kv, 'fs) world" where
  "mem_Migrate = disk_Migrate"

definition w_Migrate :: "('i, 'b, 'c, 'kv, 'k, 'fs, 'h) bucket_env \<Rightarrow> nat \<Rightarrow> string \<Rightarrow> ID \<Rightarrow> nat \<Rightarrow> nat \<Rightarrow>
    ('i, 'kv, 'fs) world \<Rightarrow> st_err option \<times> ('i, 'kv, 'fs) world" where
  "w_Migrate E n stamp oid dest d w =
     (case w_heap w d of
        DiskB _ \<Rightarrow> disk_Migrate E n stamp oid dest d w
      | MemB _ \<Rightarrow> mem_Migrate E n stamp oid dest d w
      | EmptyB _ \<Rightarrow> (None, w))"

subsection \<open>The interface\<close>

text \<open>The methods of the bucket at a pointer; \<open>n\<close> is the depth of the stack, \<open>now\<close> and \<open>stamp\<close> are the time.\<close>

definition world_ops :: "('i, 'b, 'c, 'kv, 'k, 'fs, 'h) bucket_env \<Rightarrow> nat \<Rightarrow> int \<Rightarrow> string \<Rightarrow> nat \<Rightarrow>
    (('i, 'kv, 'fs) world, 'b, nat \<times> 'h chunkWriter, 'h rfile, bool, nat, 'c) bucket_ops" where
  "world_ops E n now stamp d =
     \<lparr>bk_Lookup = (\<lambda>oid. call (disk_Lookup E now oid) (mem_Lookup E oid) (\<lambda>e. ((None, Some (StKV ErrKeyNotFound)), e)) d),
      bk_Touch = (\<lambda>oid w. snd (call (\<lambda>b. ((), case disk_touch now oid b of None \<Rightarrow> b | Some b \<Rightarrow> b))
                                (\<lambda>b. ((), mem_Touch now oid b)) (\<lambda>e. ((), e)) d w)),
      bk_Store = (\<lambda>md. w_Store E md d),
      bk_Exist = (\<lambda>hash. ask (disk_Exist E hash) (mem_Exist hash) (\<lambda>e. Some False) d),
      bk_Remove = (\<lambda>oid. call (disk_Remove E oid) (mem_Remove oid) (\<lambda>e. (None, e)) d),
      bk_Discard = (\<lambda>oid. call (stack (disk_Discard E n oid)) (stack (mem_Discard E n oid)) (\<lambda>e. (None, e)) d),
      bk_DiscardWithHash = (\<lambda>hash. call (stack (bc_DiscardWithHash E n hash)) (stack (mem_DiscardWithHash E n hash)) (\<lambda>e. (None, e)) d),
      bk_DiscardWithMessage = (\<lambda>oid msg. call (stack (disk_DiscardWithMessage E n oid msg))
                                 (stack (mem_DiscardWithMessage E n oid msg)) (\<lambda>e. (None, e)) d),
      bk_DiscardWithMetadata = (\<lambda>md. call (stack (disk_DiscardWithMetadata E n md))
                                  (stack (mem_DiscardWithMetadata E n md)) (\<lambda>e. (None, e)) d),
      bk_Iterate = (\<lambda>fn w c. ask (\<lambda>b. bc_Iterate E fn b c) (\<lambda>b. bc_Iterate E fn b c) (\<lambda>e. (None, c)) d w),
      bk_Expired = (\<lambda>oid md. ask (disk_Expired oid md) (mem_Expired oid md) (\<lambda>e. Some True) d),
      bk_WriteChunkFile = (\<lambda>oid i. w_WriteChunkFile E stamp oid i d),
      bk_ReadChunkFile = (\<lambda>oid i. w_ReadChunkFile E oid i d),
      bk_Migrate = (\<lambda>oid dest. w_Migrate E n stamp oid dest d),
      bk_SetMigration = (\<lambda>m. call (disk_SetMigration m) (mem_SetMigration m) (\<lambda>e. (None, e)) d),
      bk_ID = ask bc_path bc_path (\<lambda>e. ''empty:/dev/null'') d,
      bk_Weight = ask bc_weight bc_weight (\<lambda>e. 1000) d,
      bk_Allow = ask disk_Allow mem_Allow (\<lambda>e. Some 100) d,
      bk_UseAllow = ask (\<lambda>b. True) (\<lambda>b. True) (\<lambda>e. True) d,
      bk_Objects = ask disk_Objects mem_Objects (\<lambda>e. 0) d,
      bk_HasBad = ask (\<lambda>b. False) (\<lambda>b. False) (\<lambda>e. False) d,
      bk_Type = ask bc_driver bc_driver (\<lambda>e. ''empty'') d,
      bk_StoreType = ask bc_storeType bc_storeType (\<lambda>e. ''empty'') d,
      bk_Path = ask bc_path bc_path eb_path d,
      bk_TopK = (\<lambda>k. ask (bc_TopK E k) (bc_TopK E k) (\<lambda>e. Some []) d),
      bk_Close = call (disk_Close E) (mem_Close E) (\<lambda>e. (None, e)) d\<rparr>"

end
