(* ===== verification/Native_Storage.thy ===== *)
theory Native_Storage
  imports Bucket_World
begin

text \<open>
  The storage, \<^verbatim>\<open>src/storage/storage.go\<close> and \<^verbatim>\<open>src/storage/builder.go\<close>, and the storage with migration between layers,
  \<^verbatim>\<open>src/storage/migrator.go\<close>.  \<open>'w\<close> is the state of all buckets, \<open>'n\<close> a reference to a bucket and \<open>B n\<close> its methods; \<open>K\<close> is
  the shared store of the storage.  A selector is made from a list of buckets and a policy; \<open>sel\<close> is its \<^verbatim>\<open>Select\<close>.
\<close>

type_synonym ('w, 'b, 'x, 'y, 'n) buckets = "'n \<Rightarrow> ('w, 'b, 'x, 'y, bool, 'n, 'w \<times> int) bucket_ops"

subsection \<open>builder.go\<close>

record globalBucketOption =
  g_AsyncLoad :: bool
  g_EvictionPolicy :: string
  g_SelectionPolicy :: string
  g_Driver :: string
  g_DBType :: string
  g_DBPath :: string
  g_Migration :: "MigrationConfig option"

record conf_Bucket =
  cb_Path :: string
  cb_Driver :: string
  cb_Type :: string
  cb_DBType :: string
  cb_DBPath :: string
  cb_AsyncLoad :: bool
  cb_SliceSize :: int
  cb_MaxObjectLimit :: int

text \<open>A factory makes a bucket in the state.\<close>

definition NewBucket :: "(string \<times> (BucketConfig \<Rightarrow> 'w \<Rightarrow> (st_err + 'n) \<times> 'w)) list \<Rightarrow> BucketConfig \<Rightarrow> 'w \<Rightarrow> (st_err + 'n) \<times> 'w" where
  "NewBucket bucketMap opt w =
     (case map_of bucketMap (opt_Driver opt) of
        None \<Rightarrow> (Inl (StMsg ''bucket factory not found''), w)
      | Some factory \<Rightarrow> factory opt w)"

definition IsAbs :: "string \<Rightarrow> bool" where
  "IsAbs path \<longleftrightarrow> HasPrefix path ''/''"

text \<open>The flag for asynchronous loading and the size of a slice are not among the fields that are copied.\<close>

definition mergeConfig :: "globalBucketOption \<Rightarrow> conf_Bucket \<Rightarrow> BucketConfig" where
  "mergeConfig global bucket =
     (let copied = \<lparr>opt_Path = cb_Path bucket, opt_Driver = cb_Driver bucket, opt_Type = cb_Type bucket,
                    opt_DBType = cb_DBType bucket, opt_DBPath = cb_DBPath bucket, opt_AsyncLoad = False, opt_SliceSize = 0,
                    opt_MaxObjectLimit = cb_MaxObjectLimit bucket, opt_Migration = g_Migration global\<rparr>;
          copied = (if opt_Driver copied = [] then copied\<lparr>opt_Driver := g_Driver global\<rparr> else copied);
          copied = (if opt_Type copied = [] then copied\<lparr>opt_Type := ''warm''\<rparr> else copied);
          copied = (if opt_Type copied = ''normal'' then copied\<lparr>opt_Type := ''warm''\<rparr> else copied);
          copied = (if opt_DBType copied = [] then copied\<lparr>opt_DBType := g_DBType global\<rparr> else copied);
          copied = (if opt_MaxObjectLimit copied \<le> 0 then copied\<lparr>opt_MaxObjectLimit := 10000000\<rparr> else copied);
          copied = (if opt_DBPath copied = [] then copied\<lparr>opt_DBPath := g_DBPath global\<rparr> else copied)
      in if \<not> IsAbs (opt_DBPath copied)
         then copied\<lparr>opt_DBPath := filepath_Join [cb_Path bucket, opt_DBPath copied]\<rparr> else copied)"

subsection \<open>Purging\<close>

text \<open>The part of \<^verbatim>\<open>PURGE\<close> that both storages have in common, by their shared store and their buckets.\<close>

definition purge_entry :: "('w, 'w \<times> int) shared_kv_ops \<Rightarrow> ('w, 'b, 'x, 'y, 'n) buckets \<Rightarrow> PurgeControl \<Rightarrow> 'n \<Rightarrow>
    bytes \<Rightarrow> bytes \<Rightarrow> 'w \<times> int \<Rightarrow> kv_err option \<times> 'w \<times> int" where
  "purge_entry K B typ n key val s =
     (if length val < 20 then (None, s)
      else
        let (w, processed) = s;
            h = take 20 val;
            (w, processed) =
              (if Hard typ \<or> \<not> MarkExpired typ then
                 let (err, w) = bk_DiscardWithHash (B n) h w in (w, if err = None then processed + 1 else processed)
               else (w, processed))
        in (None, snd (sk_Delete K key w), processed))"

definition purge_index :: "('w, 'w \<times> int) shared_kv_ops \<Rightarrow> ('w, 'b, 'x, 'y, 'n) buckets \<Rightarrow> string \<Rightarrow> PurgeControl \<Rightarrow> 'n \<Rightarrow>
    'w \<times> int \<Rightarrow> 'w \<times> int" where
  "purge_index K B storeUrl typ n s =
     snd (sk_IteratePrefix K (ix_key (bk_ID (B n) (fst s)) storeUrl) (purge_entry K B typ n) (fst s) s)"

definition purge_meta :: "('w, 'b, 'x, 'y, 'n) buckets \<Rightarrow> int \<Rightarrow> string \<Rightarrow> PurgeControl \<Rightarrow> 'n \<Rightarrow> 'b Metadata \<Rightarrow>
    'w \<times> int \<Rightarrow> st_err option \<times> 'w \<times> int" where
  "purge_meta B now storeUrl typ n md s =
     (if HasPrefix (ID_Path (md_ID md)) storeUrl then
        let (w, processed) = s;
            w = (if Hard typ \<or> \<not> MarkExpired typ then snd (bk_DiscardWithMetadata (B n) md w)
                 else snd (bk_Store (B n) (md\<lparr>ExpiresAt := unix (now - 1)\<rparr>) w))
        in (None, w, processed + 1)
      else (None, s))"

definition purge_scan :: "('w, 'b, 'x, 'y, 'n) buckets \<Rightarrow> int \<Rightarrow> string \<Rightarrow> PurgeControl \<Rightarrow> 'n \<Rightarrow> 'w \<times> int \<Rightarrow> 'w \<times> int" where
  "purge_scan B now storeUrl typ n s = snd (bk_Iterate (B n) (purge_meta B now storeUrl typ n) (fst s) s)"

definition purge_dir :: "('w, 'w \<times> int) shared_kv_ops \<Rightarrow> ('w, 'b, 'x, 'y, 'n) buckets \<Rightarrow> int \<Rightarrow> 'n list \<Rightarrow> string \<Rightarrow>
    PurgeControl \<Rightarrow> 'w \<Rightarrow> st_err option \<times> 'w" where
  "purge_dir K B now ns storeUrl typ w =
     (if MarkExpired typ then (None, w)
      else
        let s = fold (purge_index K B storeUrl typ) ns (w, 0);
            s = (if snd s = 0 then fold (purge_scan B now storeUrl typ) ns s else s)
        in (if snd s = 0 then Some (StKV ErrKeyNotFound) else None, fst s))"

definition purge_single :: "(ID \<Rightarrow> 'w \<Rightarrow> 'n option) \<Rightarrow> ('w, 'b, 'x, 'y, 'n) buckets \<Rightarrow> int \<Rightarrow> string \<Rightarrow> PurgeControl \<Rightarrow> 'w \<Rightarrow>
    st_err option \<times> 'w" where
  "purge_single select B now storeUrl typ w =
     (let cacheKey = NewID storeUrl in
      case select cacheKey w of
        None \<Rightarrow> (Some (StMsg ''bucket not found''), w)
      | Some n \<Rightarrow>
          if Hard typ then bk_Discard (B n) cacheKey w
          else
            let ((md, err), w) = bk_Lookup (B n) cacheKey w in
            if err \<noteq> None then (err, w)
            else case md of
                   None \<Rightarrow> (Some StPanic, w)
                 | Some md \<Rightarrow> bk_Store (B n) (md\<lparr>ExpiresAt := unix (now - 1)\<rparr>) w)"

subsection \<open>storage.go\<close>

record ('n, 'sel) nativeStorage =
  ns_closed :: bool
  ns_selector :: 'sel
  ns_memoryBucket :: "'n option"
  ns_hotBucket :: "'n list"
  ns_warmlBucket :: "'n list"

text \<open>Puts a new bucket into the list of its type.\<close>

definition native_place :: "string \<Rightarrow> 'n \<Rightarrow> ('n, 'sel) nativeStorage \<Rightarrow> st_err + ('n, 'sel) nativeStorage" where
  "native_place typ bucket n =
     (if typ = ''normal'' \<or> typ = ''warm'' then Inr (n\<lparr>ns_warmlBucket := ns_warmlBucket n @ [bucket]\<rparr>)
      else if typ = ''hot'' then Inr (n\<lparr>ns_hotBucket := ns_hotBucket n @ [bucket]\<rparr>)
      else if typ = ''memory'' then
        (if ns_memoryBucket n \<noteq> None then Inl (StMsg ''only one inmemory bucket is allowed'')
         else Inr (n\<lparr>ns_memoryBucket := Some bucket\<rparr>))
      else Inr n)"

fun native_buckets :: "(BucketConfig \<Rightarrow> 'w \<Rightarrow> (st_err + 'n) \<times> 'w) \<Rightarrow> ('w, 'b, 'x, 'y, 'n) buckets \<Rightarrow> globalBucketOption \<Rightarrow>
    conf_Bucket list \<Rightarrow> ('n, 'sel) nativeStorage \<Rightarrow> 'w \<Rightarrow> (st_err + ('n, 'sel) nativeStorage) \<times> 'w" where
  "native_buckets newBucket B global [] n w = (Inr n, w)"
| "native_buckets newBucket B global (c # cs) n w =
     (let (r, w) = newBucket (mergeConfig global c) w in
      case r of
        Inl err \<Rightarrow> (Inl err, w)
      | Inr bucket \<Rightarrow>
          (case native_place (bk_StoreType (B bucket) w) bucket n of
             Inl err \<Rightarrow> (Inl err, w)
           | Inr n \<Rightarrow> native_buckets newBucket B global cs n w))"

definition native_reinit :: "('w, 'w \<times> int) shared_kv_ops \<Rightarrow> (BucketConfig \<Rightarrow> 'w \<Rightarrow> (st_err + 'n) \<times> 'w) \<Rightarrow>
    ('n list \<Rightarrow> string \<Rightarrow> 'w \<Rightarrow> 'sel) \<Rightarrow> ('w, 'b, 'x, 'y, 'n) buckets \<Rightarrow> globalBucketOption \<Rightarrow> conf_Bucket list \<Rightarrow>
    ('n, 'sel) nativeStorage \<Rightarrow> 'w \<Rightarrow> (st_err + ('n, 'sel) nativeStorage) \<times> 'w" where
  "native_reinit K newBucket newSelector B global cs n w =
     (let w = snd (sk_DropPrefix K ''if/domain/'' w);
          (r, w) = native_buckets newBucket B global cs n w
      in case r of
           Inl err \<Rightarrow> (Inl err, w)
         | Inr n \<Rightarrow>
             let n = (case (ns_warmlBucket n, ns_memoryBucket n) of
                        ([], Some m) \<Rightarrow> n\<lparr>ns_warmlBucket := [m]\<rparr>
                      | _ \<Rightarrow> n)
             in (Inr (n\<lparr>ns_selector := newSelector (ns_warmlBucket n) (g_SelectionPolicy global) w\<rparr>), w))"

definition native_Select :: "('sel \<Rightarrow> ID \<Rightarrow> 'w \<Rightarrow> 'n option) \<Rightarrow> ('n, 'sel) nativeStorage \<Rightarrow> ID \<Rightarrow> 'w \<Rightarrow> 'n option" where
  "native_Select sel n oid w = sel (ns_selector n) oid w"

definition native_Rebuild :: "'n list \<Rightarrow> ('n, 'sel) nativeStorage \<Rightarrow> st_err option \<times> ('n, 'sel) nativeStorage" where
  "native_Rebuild buckets n = (None, n)"

definition native_Buckets :: "('n, 'sel) nativeStorage \<Rightarrow> 'n list" where
  "native_Buckets n = ns_warmlBucket n @ ns_hotBucket n"

definition native_PURGE :: "('w, 'w \<times> int) shared_kv_ops \<Rightarrow> ('w, 'b, 'x, 'y, 'n) buckets \<Rightarrow> ('sel \<Rightarrow> ID \<Rightarrow> 'w \<Rightarrow> 'n option) \<Rightarrow>
    int \<Rightarrow> string \<Rightarrow> PurgeControl \<Rightarrow> ('n, 'sel) nativeStorage \<Rightarrow> 'w \<Rightarrow> st_err option \<times> 'w" where
  "native_PURGE K B sel now storeUrl typ n w =
     (if Dir typ then purge_dir K B now (native_Buckets n) storeUrl typ w
      else purge_single (native_Select sel n) B now storeUrl typ w)"

text \<open>The errors that are joined; an empty list is nil.\<close>

definition close_all :: "('w, 'b, 'x, 'y, 'n) buckets \<Rightarrow> 'n list \<Rightarrow> st_err list \<times> 'w \<Rightarrow> st_err list \<times> 'w" where
  "close_all B ns s =
     fold (\<lambda>n (errs, w). let (e, w) = bk_Close (B n) w in (errs @ (case e of None \<Rightarrow> [] | Some e \<Rightarrow> [e]), w)) ns s"

definition close_kv :: "('w, 'w \<times> int) shared_kv_ops \<Rightarrow> st_err list \<times> 'w \<Rightarrow> st_err list \<times> 'w" where
  "close_kv K s =
     (let (errs, w) = s; (e, w) = sk_Close K w in (errs @ (case e of None \<Rightarrow> [] | Some e \<Rightarrow> [StKV e]), w))"

definition native_Close :: "('w, 'w \<times> int) shared_kv_ops \<Rightarrow> ('w, 'b, 'x, 'y, 'n) buckets \<Rightarrow> ('n, 'sel) nativeStorage \<Rightarrow> 'w \<Rightarrow>
    st_err list \<times> 'w" where
  "native_Close K B n w =
     close_kv K (close_all B (ns_warmlBucket n @ ns_hotBucket n @ (case ns_memoryBucket n of None \<Rightarrow> [] | Some m \<Rightarrow> [m])) ([], w))"

subsection \<open>migrator.go\<close>

record ('n, 'sel) migratorStorage =
  mg_warmSelector :: "'sel option"
  mg_hotSelector :: "'sel option"
  mg_coldSelector :: "'sel option"
  mg_memoryBucket :: "'n option"
  mg_hotBucket :: "'n list"
  mg_warmBucket :: "'n list"
  mg_coldBucket :: "'n list"

definition migrator_place :: "string \<Rightarrow> 'n \<Rightarrow> ('n, 'sel) migratorStorage \<Rightarrow> st_err + ('n, 'sel) migratorStorage" where
  "migrator_place typ bucket m =
     (if typ = ''normal'' \<or> typ = ''warm'' then Inr (m\<lparr>mg_warmBucket := mg_warmBucket m @ [bucket]\<rparr>)
      else if typ = ''hot'' then Inr (m\<lparr>mg_hotBucket := mg_hotBucket m @ [bucket]\<rparr>)
      else if typ = ''cold'' then Inr (m\<lparr>mg_coldBucket := mg_coldBucket m @ [bucket]\<rparr>)
      else if typ = ''memory'' then
        (if mg_memoryBucket m \<noteq> None then Inl (StMsg ''only one inmemory bucket is allowed'')
         else Inr (m\<lparr>mg_memoryBucket := Some bucket\<rparr>))
      else Inr m)"

fun migrator_buckets :: "(BucketConfig \<Rightarrow> 'w \<Rightarrow> (st_err + 'n) \<times> 'w) \<Rightarrow> ('w, 'b, 'x, 'y, 'n) buckets \<Rightarrow> globalBucketOption \<Rightarrow>
    conf_Bucket list \<Rightarrow> ('n, 'sel) migratorStorage \<Rightarrow> 'w \<Rightarrow> (st_err + ('n, 'sel) migratorStorage) \<times> 'w" where
  "migrator_buckets newBucket B global [] m w = (Inr m, w)"
| "migrator_buckets newBucket B global (c # cs) m w =
     (let (r, w) = newBucket (mergeConfig global c) w in
      case r of
        Inl err \<Rightarrow> (Inl err, w)
      | Inr bucket \<Rightarrow>
          (case migrator_place (bk_StoreType (B bucket) w) bucket m of
             Inl err \<Rightarrow> (Inl err, w)
           | Inr m \<Rightarrow> migrator_buckets newBucket B global cs m w))"

definition migrator_Buckets :: "('n, 'sel) migratorStorage \<Rightarrow> 'n list" where
  "migrator_Buckets m = mg_warmBucket m @ mg_hotBucket m @ mg_coldBucket m"

definition migrator_reinit :: "('w, 'w \<times> int) shared_kv_ops \<Rightarrow> (BucketConfig \<Rightarrow> 'w \<Rightarrow> (st_err + 'n) \<times> 'w) \<Rightarrow>
    ('n list \<Rightarrow> string \<Rightarrow> 'w \<Rightarrow> 'sel) \<Rightarrow> ('w, 'b, 'x, 'y, 'n) buckets \<Rightarrow> globalBucketOption \<Rightarrow> conf_Bucket list \<Rightarrow>
    ('n, 'sel) migratorStorage \<Rightarrow> 'w \<Rightarrow> (st_err + ('n, 'sel) migratorStorage) \<times> 'w" where
  "migrator_reinit K newBucket newSelector B global cs m w =
     (let w = snd (sk_DropPrefix K ''if/domain/'' w);
          (r, w) = migrator_buckets newBucket B global cs m w
      in case r of
           Inl err \<Rightarrow> (Inl err, w)
         | Inr m \<Rightarrow>
             let new = (\<lambda>ns. newSelector ns (g_SelectionPolicy global) w);
                 m = (if mg_hotBucket m \<noteq> [] then m\<lparr>mg_hotSelector := Some (new (mg_hotBucket m))\<rparr> else m);
                 m = (case (mg_warmBucket m, mg_memoryBucket m) of
                        ([], Some mb) \<Rightarrow> m\<lparr>mg_warmBucket := [mb]\<rparr>
                      | _ \<Rightarrow> m);
                 m = m\<lparr>mg_warmSelector := Some (new (mg_warmBucket m))\<rparr>;
                 m = (if mg_coldBucket m \<noteq> [] then m\<lparr>mg_coldSelector := Some (new (mg_coldBucket m))\<rparr> else m);
                 enabled = (case g_Migration global of None \<Rightarrow> False | Some c \<Rightarrow> mc_Enabled c);
                 w = (if enabled then fold (\<lambda>n w. snd (bk_SetMigration (B n) True w)) (migrator_Buckets m) w else w)
             in (Inr m, w))"

text \<open>
  A selector may be missing, and so may its bucket.  The last resort calls \<^verbatim>\<open>Select\<close> of the warm selector, which is set from
  the start on; the inner \<open>None\<close> is a nil bucket and the outer one a panic.
\<close>

fun chainSelector :: "('sel \<Rightarrow> ID \<Rightarrow> 'w \<Rightarrow> 'n option) \<Rightarrow> ('w, 'b, 'x, 'y, 'n) buckets \<Rightarrow> 'sel option \<Rightarrow> ID \<Rightarrow>
    'sel option list \<Rightarrow> 'w \<Rightarrow> 'n option option" where
  "chainSelector sel B warm oid [] w = map_option (\<lambda>s. sel s oid w) warm"
| "chainSelector sel B warm oid (s # ss) w =
     (case s of
        None \<Rightarrow> chainSelector sel B warm oid ss w
      | Some s \<Rightarrow>
          (case sel s oid w of
             None \<Rightarrow> chainSelector sel B warm oid ss w
           | Some n \<Rightarrow>
               (case bk_Exist (B n) (ID_Bytes oid) w of
                  None \<Rightarrow> None
                | Some e \<Rightarrow> if e then Some (Some n) else chainSelector sel B warm oid ss w)))"

definition migrator_Select :: "('sel \<Rightarrow> ID \<Rightarrow> 'w \<Rightarrow> 'n option) \<Rightarrow> ('w, 'b, 'x, 'y, 'n) buckets \<Rightarrow> ('n, 'sel) migratorStorage \<Rightarrow>
    ID \<Rightarrow> 'w \<Rightarrow> 'n option option" where
  "migrator_Select sel B m oid w =
     chainSelector sel B (mg_warmSelector m) oid [mg_hotSelector m, mg_warmSelector m, mg_coldSelector m] w"

definition SelectLayer :: "('sel \<Rightarrow> ID \<Rightarrow> 'w \<Rightarrow> 'n option) \<Rightarrow> ('n, 'sel) migratorStorage \<Rightarrow> ID \<Rightarrow> string \<Rightarrow> 'w \<Rightarrow> 'n option" where
  "SelectLayer sel m oid layer w =
     (let select = (\<lambda>s. case s of None \<Rightarrow> None | Some s \<Rightarrow> sel s oid w) in
      if layer = ''hot'' then select (mg_hotSelector m)
      else if layer = ''normal'' \<or> layer = ''warm'' then select (mg_warmSelector m)
      else if layer = ''cold'' then select (mg_coldSelector m)
      else if layer = ''memory'' then mg_memoryBucket m
      else None)"

definition move_to :: "('sel \<Rightarrow> ID \<Rightarrow> 'w \<Rightarrow> 'n option) \<Rightarrow> ('w, 'b, 'x, 'y, 'n) buckets \<Rightarrow> ('n, 'sel) migratorStorage \<Rightarrow> string \<Rightarrow>
    string \<Rightarrow> ID \<Rightarrow> 'n \<Rightarrow> 'w \<Rightarrow> st_err option \<times> 'w" where
  "move_to sel B m what layer oid src w =
     (case SelectLayer sel m oid layer w of
        None \<Rightarrow> (Some (StMsg (''no target bucket found for '' @ what @ '' from '' @ bk_StoreType (B src) w @ '' to '' @ layer)), w)
      | Some target \<Rightarrow> bk_Migrate (B src) oid target w)"

definition Demote :: "('sel \<Rightarrow> ID \<Rightarrow> 'w \<Rightarrow> 'n option) \<Rightarrow> ('w, 'b, 'x, 'y, 'n) buckets \<Rightarrow> ('n, 'sel) migratorStorage \<Rightarrow> ID \<Rightarrow> 'n \<Rightarrow> 'w \<Rightarrow>
    st_err option \<times> 'w" where
  "Demote sel B m oid src w =
     (if bk_StoreType (B src) w = ''hot'' then move_to sel B m ''demotion'' ''warm'' oid src w
      else if bk_StoreType (B src) w = ''warm'' then move_to sel B m ''demotion'' ''cold'' oid src w
      else (None, w))"

definition Promote :: "('sel \<Rightarrow> ID \<Rightarrow> 'w \<Rightarrow> 'n option) \<Rightarrow> ('w, 'b, 'x, 'y, 'n) buckets \<Rightarrow> ('n, 'sel) migratorStorage \<Rightarrow> ID \<Rightarrow> 'n \<Rightarrow> 'w \<Rightarrow>
    st_err option \<times> 'w" where
  "Promote sel B m oid src w =
     (if bk_StoreType (B src) w = ''cold'' then move_to sel B m ''promotion'' ''warm'' oid src w
      else if bk_StoreType (B src) w = ''warm'' then move_to sel B m ''promotion'' ''hot'' oid src w
      else (None, w))"

text \<open>A panic of the selection is the error \<open>StPanic\<close>.\<close>

definition migrator_PURGE :: "('w, 'w \<times> int) shared_kv_ops \<Rightarrow> ('w, 'b, 'x, 'y, 'n) buckets \<Rightarrow> ('sel \<Rightarrow> ID \<Rightarrow> 'w \<Rightarrow> 'n option) \<Rightarrow>
    int \<Rightarrow> string \<Rightarrow> PurgeControl \<Rightarrow> ('n, 'sel) migratorStorage \<Rightarrow> 'w \<Rightarrow> st_err option \<times> 'w" where
  "migrator_PURGE K B sel now storeUrl typ m w =
     (if Dir typ then purge_dir K B now (migrator_Buckets m) storeUrl typ w
      else case migrator_Select sel B m (NewID storeUrl) w of
             None \<Rightarrow> (Some StPanic, w)
           | Some bucket \<Rightarrow> purge_single (\<lambda>oid w. bucket) B now storeUrl typ w)"

definition migrator_Rebuild :: "'n list \<Rightarrow> ('n, 'sel) migratorStorage \<Rightarrow> st_err option \<times> ('n, 'sel) migratorStorage" where
  "migrator_Rebuild buckets m = (None, m)"

definition migrator_Close :: "('w, 'w \<times> int) shared_kv_ops \<Rightarrow> ('w, 'b, 'x, 'y, 'n) buckets \<Rightarrow> ('n, 'sel) migratorStorage \<Rightarrow> 'w \<Rightarrow>
    st_err list \<times> 'w" where
  "migrator_Close K B m w =
     close_kv K (close_all B (mg_warmBucket m @ mg_hotBucket m @ mg_coldBucket m @
       (case mg_memoryBucket m of None \<Rightarrow> [] | Some mb \<Rightarrow> [mb])) ([], w))"

subsection \<open>What a purge of a directory relies on\<close>

text \<open>
  \<open>objs w n\<close> are the objects of the bucket \<open>n\<close> by hash and \<open>content w\<close> is the shared store; \<open>N\<close> are the buckets of the
  storage and \<open>inv\<close> is their invariant.
\<close>

locale purgeable =
  fixes K :: "('w, 'w \<times> int) shared_kv_ops"
    and B :: "('w, 'b, 'x, 'y, 'n) buckets"
    and N :: "'n set"
    and inv :: "'w \<Rightarrow> bool"
    and objs :: "'w \<Rightarrow> 'n \<Rightarrow> (bytes \<rightharpoonup> 'b Metadata)"
    and content :: "'w \<Rightarrow> (bytes \<rightharpoonup> bytes)"
  assumes discard_found: "inv w \<Longrightarrow> n \<in> N \<Longrightarrow> objs w n k = Some md \<Longrightarrow>
      \<exists>w' S. bk_DiscardWithHash (B n) k w = (None, w') \<and> inv w' \<and> k \<in> S \<and>
        objs w' n = (\<lambda>j. if j \<in> S then None else objs w n j) \<and>
        (\<forall>m\<in>N. m \<noteq> n \<longrightarrow> objs w' m = objs w m) \<and> (\<forall>m\<in>N. bk_ID (B m) w' = bk_ID (B m) w)"
    and discard_missing: "inv w \<Longrightarrow> n \<in> N \<Longrightarrow> objs w n k = None \<Longrightarrow>
      \<exists>w' e. bk_DiscardWithHash (B n) k w = (Some e, w') \<and> inv w' \<and>
        (\<forall>m\<in>N. objs w' m = objs w m \<and> bk_ID (B m) w' = bk_ID (B m) w)"
    and indexed: "inv w \<Longrightarrow> n \<in> N \<Longrightarrow> objs w n k = Some md \<Longrightarrow>
      content w (ix_key (bk_ID (B n) w) (ID_Key (md_ID md))) = Some k \<and> length k = 20"
    and entries: "inv w \<Longrightarrow> \<exists>es. sk_IteratePrefix K p f w c = (None, fold (\<lambda>(k, v) c. snd (f k v c)) es c) \<and>
      (\<forall>k v. (k, v) \<in> set es \<longleftrightarrow> HasPrefix k p \<and> content w k = Some v)"
    and drop_entry: "inv w \<Longrightarrow>
      (\<forall>m\<in>N. \<forall>k md. objs w m k = Some md \<longrightarrow> ix_key (bk_ID (B m) w) (ID_Key (md_ID md)) \<noteq> key) \<Longrightarrow>
      \<exists>w'. sk_Delete K key w = (None, w') \<and> inv w' \<and> (\<forall>m\<in>N. objs w' m = objs w m \<and> bk_ID (B m) w' = bk_ID (B m) w)"
    and apart: "inv w \<Longrightarrow> n \<in> N \<Longrightarrow> m \<in> N \<Longrightarrow> m \<noteq> n \<Longrightarrow> ix_key (bk_ID (B m) w) a \<noteq> ix_key (bk_ID (B n) w) b"
    and scan: "inv w \<Longrightarrow> n \<in> N \<Longrightarrow> \<exists>es. bk_Iterate (B n) g w c = (None, fold (\<lambda>md c. snd (g md c)) es c) \<and>
      (\<forall>md\<in>set es. \<exists>k. objs w n k = Some md)"
begin

text \<open>Between two states only objects of \<open>n\<close> were removed, none of them without being counted.\<close>

definition purged :: "'n \<Rightarrow> 'w \<Rightarrow> int \<Rightarrow> 'w \<Rightarrow> int \<Rightarrow> bool" where
  "purged n w c w' c' \<longleftrightarrow> inv w' \<and> objs w' n \<subseteq>\<^sub>m objs w n \<and> (\<forall>m\<in>N. m \<noteq> n \<longrightarrow> objs w' m = objs w m) \<and>
     (\<forall>m\<in>N. bk_ID (B m) w' = bk_ID (B m) w) \<and> c \<le> c' \<and> (c' = c \<longleftrightarrow> objs w' n = objs w n)"

lemma purged_trans:
  assumes "purged n w c w1 c1" "purged n w1 c1 w2 c2"
  shows "purged n w c w2 c2"
proof -
  have "objs w2 n = objs w n \<Longrightarrow> objs w1 n = objs w n"
    using assms by (metis map_le_antisym purged_def)
  then show ?thesis
    using assms unfolding purged_def by (auto intro: map_le_trans)
qed

lemma purge_entry_step:
  assumes w: "inv w" "n \<in> N" and hard: "\<not> MarkExpired typ"
    and es: "content w key = Some val" "key = ix_key (bk_ID (B n) w) a"
    and p: "purged n w c w1 c1"
  shows "\<exists>w2 c2. snd (purge_entry K B typ n key val (w1, c1)) = (w2, c2) \<and> purged n w1 c1 w2 c2 \<and>
    (length val = 20 \<longrightarrow> objs w2 n val = None)"
proof (cases "length val < 20")
  case True
  then show ?thesis using p by (auto simp: purge_entry_def purged_def)
next
  case False
  let ?h = "take 20 val"
  have inv1: "inv w1" using p by (simp add: purged_def)
  obtain w2 c2 where d: "purge_entry K B typ n key val (w1, c1) = (None, snd (sk_Delete K key w2), c2)"
      "purged n w1 c1 w2 c2" "objs w2 n ?h = None"
  proof (cases "objs w1 n ?h")
    case None
    then obtain w' e where "bk_DiscardWithHash (B n) ?h w1 = (Some e, w')" "inv w'"
        "\<forall>m\<in>N. objs w' m = objs w1 m \<and> bk_ID (B m) w' = bk_ID (B m) w1"
      using discard_missing [OF inv1 w(2)] by blast
    then show ?thesis using that [of w' c1] None False hard w(2) by (simp add: purge_entry_def purged_def)
  next
    case (Some md)
    then obtain w' S where w': "bk_DiscardWithHash (B n) ?h w1 = (None, w')" "inv w'" "?h \<in> S"
        "objs w' n = (\<lambda>j. if j \<in> S then None else objs w1 n j)" "\<forall>m\<in>N. m \<noteq> n \<longrightarrow> objs w' m = objs w1 m"
        "\<forall>m\<in>N. bk_ID (B m) w' = bk_ID (B m) w1"
      using discard_found [OF inv1 w(2) Some] by blast
    then have "objs w' n ?h = None" "objs w' n \<subseteq>\<^sub>m objs w1 n" by (auto simp: map_le_def split: if_splits)
    moreover from this(1) have "objs w' n \<noteq> objs w1 n" using Some by auto
    ultimately show ?thesis
      using that [of w' "c1 + 1"] w' False hard by (simp add: purge_entry_def purged_def)
  qed
  have p2: "purged n w c w2 c2" using purged_trans [OF p d(2)] .
  have free: "\<forall>m\<in>N. \<forall>k md. objs w2 m k = Some md \<longrightarrow> ix_key (bk_ID (B m) w2) (ID_Key (md_ID md)) \<noteq> key"
  proof (intro ballI allI impI)
    fix m k md assume m: "m \<in> N" "objs w2 m k = Some md"
    show "ix_key (bk_ID (B m) w2) (ID_Key (md_ID md)) \<noteq> key"
    proof (cases "m = n")
      case True
      have k: "objs w n k = Some md" using m(2) True p2 by (auto simp: purged_def map_le_def dom_def)
      show ?thesis
      proof
        assume "ix_key (bk_ID (B m) w2) (ID_Key (md_ID md)) = key"
        then have "content w (ix_key (bk_ID (B n) w) (ID_Key (md_ID md))) = Some val"
          using es(1) p2 True m(1) by (simp add: purged_def)
        then have "val = k" "length k = 20" using indexed [OF w k] by simp_all
        then show False using d(3) m(2) True by simp
      qed
    next
      case False
      then show ?thesis using apart [OF w m(1) False] p2 m(1) w(2) es(2) by (simp add: purged_def)
    qed
  qed
  have "inv w2" using p2 by (simp add: purged_def)
  then obtain w3 where "sk_Delete K key w2 = (None, w3)" "inv w3"
      "\<forall>m\<in>N. objs w3 m = objs w2 m \<and> bk_ID (B m) w3 = bk_ID (B m) w2"
    using drop_entry free by blast
  then show ?thesis using d w(2) by (auto simp: purged_def)
qed

lemma purge_index_step:
  assumes w: "inv w" "n \<in> N" and hard: "\<not> MarkExpired typ"
  shows "\<exists>w' c'. purge_index K B storeUrl typ n (w, c) = (w', c') \<and> purged n w c w' c' \<and>
    (\<forall>k md. objs w' n k = Some md \<longrightarrow> \<not> HasPrefix (ID_Key (md_ID md)) storeUrl)"
proof -
  let ?f = "purge_entry K B typ n"
  obtain es where es: "sk_IteratePrefix K (ix_key (bk_ID (B n) w) storeUrl) ?f w (w, c) =
        (None, fold (\<lambda>(k, v) s. snd (?f k v s)) es (w, c))"
      "\<forall>k v. (k, v) \<in> set es \<longleftrightarrow> HasPrefix k (ix_key (bk_ID (B n) w) storeUrl) \<and> content w k = Some v"
    using entries [OF w(1), of "ix_key (bk_ID (B n) w) storeUrl" ?f "(w, c)"] by blast
  have key: "\<exists>a. k = ix_key (bk_ID (B n) w) a" if "(k, v) \<in> set es" for k v
  proof -
    have "HasPrefix k (ix_key (bk_ID (B n) w) storeUrl)" using es(2) that by blast
    then have "k = ix_key (bk_ID (B n) w) storeUrl @ drop (length (ix_key (bk_ID (B n) w) storeUrl)) k"
      by (metis HasPrefix_def append_take_drop_id)
    then show ?thesis unfolding ix_key_def by (metis append.assoc)
  qed
  have loop: "\<exists>w2 c2. fold (\<lambda>(k, v) s. snd (?f k v s)) fs (w1, c1) = (w2, c2) \<and> purged n w c w2 c2 \<and>
      objs w2 n \<subseteq>\<^sub>m objs w1 n \<and> (\<forall>(k, v)\<in>set fs. length v = 20 \<longrightarrow> objs w2 n v = None)"
    if "set fs \<subseteq> set es" "purged n w c w1 c1" for fs w1 c1
    using that
  proof (induction fs arbitrary: w1 c1)
    case (Cons e fs)
    obtain k v where e: "e = (k, v)" by fastforce
    then have "(k, v) \<in> set es" using Cons.prems(1) by simp
    then obtain a where a: "content w k = Some v" "k = ix_key (bk_ID (B n) w) a" using es(2) key by blast
    obtain w2 c2 where 2: "snd (?f k v (w1, c1)) = (w2, c2)" "purged n w1 c1 w2 c2" "length v = 20 \<longrightarrow> objs w2 n v = None"
      using purge_entry_step [OF w hard a Cons.prems(2)] by blast
    obtain w3 c3 where 3: "fold (\<lambda>(k, v) s. snd (?f k v s)) fs (w2, c2) = (w3, c3)" "purged n w c w3 c3"
        "objs w3 n \<subseteq>\<^sub>m objs w2 n" "\<forall>(k, v)\<in>set fs. length v = 20 \<longrightarrow> objs w3 n v = None"
      using Cons.IH [OF _ purged_trans [OF Cons.prems(2) 2(2)]] Cons.prems(1) by auto
    have "length v = 20 \<longrightarrow> objs w3 n v = None" using 2(3) 3(3) by (metis domIff map_le_implies_dom_le subsetD)
    then show ?case using 2 3 by (auto simp: e purged_def intro: map_le_trans)
  qed auto
  have "purged n w c w c" using w by (simp add: purged_def)
  then obtain w' c' where w': "fold (\<lambda>(k, v) s. snd (?f k v s)) es (w, c) = (w', c')" "purged n w c w' c'"
      "\<forall>(k, v)\<in>set es. length v = 20 \<longrightarrow> objs w' n v = None"
    using loop [OF subset_refl] by blast
  have "\<not> HasPrefix (ID_Key (md_ID md)) storeUrl" if "objs w' n k = Some md" for k md
  proof
    assume pre: "HasPrefix (ID_Key (md_ID md)) storeUrl"
    have k: "objs w n k = Some md" using that w'(2) by (auto simp: purged_def map_le_def dom_def)
    have "HasPrefix (ix_key (bk_ID (B n) w) (ID_Key (md_ID md))) (ix_key (bk_ID (B n) w) storeUrl)"
      using pre by (simp add: HasPrefix_def ix_key_def)
    then have "(ix_key (bk_ID (B n) w) (ID_Key (md_ID md)), k) \<in> set es" "length k = 20"
      using es(2) indexed [OF w k] by simp_all
    then show False using w'(3) that by fastforce
  qed
  then show ?thesis using w'(1,2) es(1) by (simp add: purge_index_def)
qed

lemma purge_indexes:
  assumes "inv w" "set ns \<subseteq> N" "\<not> MarkExpired typ"
  shows "\<exists>w' c'. fold (purge_index K B storeUrl typ) ns (w, c) = (w', c') \<and> inv w' \<and> c \<le> c' \<and>
    (\<forall>m\<in>N. objs w' m \<subseteq>\<^sub>m objs w m) \<and> (c' = c \<longleftrightarrow> (\<forall>m\<in>N. objs w' m = objs w m)) \<and>
    (\<forall>n\<in>set ns. \<forall>k md. objs w' n k = Some md \<longrightarrow> \<not> HasPrefix (ID_Key (md_ID md)) storeUrl)"
  using assms(1,2)
proof (induction ns arbitrary: w c)
  case (Cons n ns)
  obtain w1 c1 where 1: "purge_index K B storeUrl typ n (w, c) = (w1, c1)" "purged n w c w1 c1"
      "\<forall>k md. objs w1 n k = Some md \<longrightarrow> \<not> HasPrefix (ID_Key (md_ID md)) storeUrl"
    using purge_index_step [OF Cons.prems(1) _ assms(3), of n] Cons.prems(2) by fastforce
  have n: "n \<in> N" "set ns \<subseteq> N" "inv w1" using Cons.prems 1(2) by (simp_all add: purged_def)
  obtain w2 c2 where 2: "fold (purge_index K B storeUrl typ) ns (w1, c1) = (w2, c2)" "inv w2" "c1 \<le> c2"
      "\<forall>m\<in>N. objs w2 m \<subseteq>\<^sub>m objs w1 m" "c2 = c1 \<longleftrightarrow> (\<forall>m\<in>N. objs w2 m = objs w1 m)"
      "\<forall>n\<in>set ns. \<forall>k md. objs w2 n k = Some md \<longrightarrow> \<not> HasPrefix (ID_Key (md_ID md)) storeUrl"
    using Cons.IH [OF n(3,2)] by blast
  have sub: "objs w1 m \<subseteq>\<^sub>m objs w m" if "m \<in> N" for m
    using 1(2) that by (cases "m = n") (auto simp: purged_def)
  have le: "\<forall>m\<in>N. objs w2 m \<subseteq>\<^sub>m objs w m" using sub 2(4) map_le_trans by blast
  have "objs w1 m = objs w m" if "\<forall>m\<in>N. objs w2 m = objs w m" "m \<in> N" for m
    using that sub 2(4) by (metis map_le_antisym)
  then have same: "c2 = c \<longleftrightarrow> (\<forall>m\<in>N. objs w2 m = objs w m)"
    using 1(2) 2(3,5) n(1) unfolding purged_def by (metis order_antisym)
  have "\<not> HasPrefix (ID_Key (md_ID md)) storeUrl" if "objs w2 n k = Some md" for k md
  proof -
    have "objs w1 n k = Some md" using 2(4) n(1) that by (metis domI map_le_def)
    then show ?thesis using 1(3) by blast
  qed
  then show ?case using 1(1,2) 2 le same by (auto simp: purged_def)
qed simp

lemma purge_scan_nothing:
  assumes "inv w" "n \<in> N" "\<forall>k md. objs w n k = Some md \<longrightarrow> \<not> HasPrefix (ID_Key (md_ID md)) storeUrl"
  shows "purge_scan B now storeUrl typ n (w, c) = (w, c)"
proof -
  let ?g = "purge_meta B now storeUrl typ n"
  obtain es where es: "bk_Iterate (B n) ?g w (w, c) = (None, fold (\<lambda>md c. snd (?g md c)) es (w, c))"
      "\<forall>md\<in>set es. \<exists>k. objs w n k = Some md"
    using scan [OF assms(1,2), of ?g "(w, c)"] by blast
  have "\<forall>md\<in>set es. \<not> HasPrefix (ID_Path (md_ID md)) storeUrl"
    using es(2) assms(3) by (fastforce simp: HasPrefix_def ID_Key_def ID_Path_def)
  then have "fold (\<lambda>md c. snd (?g md c)) es s = s" for s
    by (induction es arbitrary: s) (simp_all add: purge_meta_def)
  then show ?thesis using es(1) by (simp add: purge_scan_def)
qed

lemma purge_dir_spec:
  assumes "inv w" "set ns \<subseteq> N" "\<not> MarkExpired typ"
  shows "\<exists>w' err. purge_dir K B now ns storeUrl typ w = (err, w') \<and> inv w' \<and>
    (\<forall>n\<in>set ns. \<forall>k md. objs w' n k = Some md \<longrightarrow> \<not> HasPrefix (ID_Key (md_ID md)) storeUrl) \<and>
    (\<forall>m\<in>N. objs w' m \<subseteq>\<^sub>m objs w m) \<and>
    (err = None \<or> err = Some (StKV ErrKeyNotFound) \<and> (\<forall>m\<in>N. objs w' m = objs w m))"
proof -
  obtain w' c where w': "fold (purge_index K B storeUrl typ) ns (w, 0) = (w', c)" "inv w'" "\<forall>m\<in>N. objs w' m \<subseteq>\<^sub>m objs w m"
      "c = 0 \<longleftrightarrow> (\<forall>m\<in>N. objs w' m = objs w m)"
      "\<forall>n\<in>set ns. \<forall>k md. objs w' n k = Some md \<longrightarrow> \<not> HasPrefix (ID_Key (md_ID md)) storeUrl"
    using purge_indexes [OF assms(1-3), of storeUrl 0] by blast
  have "fold (purge_scan B now storeUrl typ) ms (w', c) = (w', c)" if "set ms \<subseteq> set ns" for ms
    using that
  proof (induction ms)
    case (Cons m ms)
    then have "m \<in> N" "\<forall>k md. objs w' m k = Some md \<longrightarrow> \<not> HasPrefix (ID_Key (md_ID md)) storeUrl"
      using assms(2) w'(5) by auto
    then show ?case using Cons purge_scan_nothing [OF w'(2)] by simp
  qed simp
  from this [OF subset_refl] have dir: "purge_dir K B now ns storeUrl typ w = (if c = 0 then Some (StKV ErrKeyNotFound) else None, w')"
    using assms(3) w'(1) by (cases "c = 0") (simp_all add: purge_dir_def Let_def)
  show ?thesis using dir w' by auto
qed

end

subsection \<open>Buckets on disk and in memory can be purged\<close>

definition world_kv :: "('kv, 'c) shared_kv_ops \<Rightarrow> (('i, 'kv, 'fs) world, 'c) shared_kv_ops" where
  "world_kv K =
     \<lparr>sk_Close = (\<lambda>w. let (r, kv) = sk_Close K (w_kv w) in (r, w\<lparr>w_kv := kv\<rparr>)),
       sk_Get = (\<lambda>k w. sk_Get K k (w_kv w)),
       sk_Set = (\<lambda>k v w. let (r, kv) = sk_Set K k v (w_kv w) in (r, w\<lparr>w_kv := kv\<rparr>)),
       sk_Incr = (\<lambda>k d w. let (r, kv) = sk_Incr K k d (w_kv w) in (r, w\<lparr>w_kv := kv\<rparr>)),
       sk_Decr = (\<lambda>k d w. let (r, kv) = sk_Decr K k d (w_kv w) in (r, w\<lparr>w_kv := kv\<rparr>)),
       sk_GetCounter = (\<lambda>k w. sk_GetCounter K k (w_kv w)),
       sk_Delete = (\<lambda>k w. let (r, kv) = sk_Delete K k (w_kv w) in (r, w\<lparr>w_kv := kv\<rparr>)),
       sk_DropPrefix = (\<lambda>p w. let (r, kv) = sk_DropPrefix K p (w_kv w) in (r, w\<lparr>w_kv := kv\<rparr>)),
       sk_Iterate = (\<lambda>f w. sk_Iterate K f (w_kv w)),
       sk_IteratePrefix = (\<lambda>p f w. sk_IteratePrefix K p f (w_kv w))\<rparr>"

text \<open>The objects of a bucket, its path, and that it is in order with at most \<open>n\<close> objects.\<close>

definition core_ok :: "('i \<Rightarrow> (bytes \<rightharpoonup> 'b Metadata)) \<Rightarrow> ('i \<Rightarrow> bool) \<Rightarrow> ('kv \<Rightarrow> (bytes \<rightharpoonup> bytes)) \<Rightarrow> ('fs \<Rightarrow> (string \<rightharpoonup> bytes)) \<Rightarrow>
    nat \<Rightarrow> ('i, 'kv, 'fs, 'z) bucket_core_scheme \<Rightarrow> bool" where
  "core_ok objs ok content files n b \<longleftrightarrow>
     bucket_ok objs ok content files b \<and> card (dom (objs (bc_indexdb b))) \<le> n"

primrec obj_objs :: "('i \<Rightarrow> (bytes \<rightharpoonup> 'b Metadata)) \<Rightarrow> ('i, 'kv, 'fs) bucket_obj \<Rightarrow> (bytes \<rightharpoonup> 'b Metadata)" where
  "obj_objs objs (DiskB b) = objs (bc_indexdb b)"
| "obj_objs objs (MemB b) = objs (bc_indexdb b)"
| "obj_objs objs (EmptyB e) = Map.empty"

primrec obj_path :: "('i, 'kv, 'fs) bucket_obj \<Rightarrow> string" where
  "obj_path (DiskB b) = bc_path b"
| "obj_path (MemB b) = bc_path b"
| "obj_path (EmptyB e) = eb_path e"

primrec obj_ok :: "('i \<Rightarrow> (bytes \<rightharpoonup> 'b Metadata)) \<Rightarrow> ('i \<Rightarrow> bool) \<Rightarrow> ('kv \<Rightarrow> (bytes \<rightharpoonup> bytes)) \<Rightarrow> ('fs \<Rightarrow> (string \<rightharpoonup> bytes)) \<Rightarrow>
    nat \<Rightarrow> 'kv \<Rightarrow> ('i, 'kv, 'fs) bucket_obj \<Rightarrow> bool" where
  "obj_ok objs ok content files n kv (DiskB b) = core_ok objs ok content files n (b\<lparr>bc_sharedkv := kv\<rparr>)"
| "obj_ok objs ok content files n kv (MemB b) = core_ok objs ok content files n (b\<lparr>bc_sharedkv := kv\<rparr>)"
| "obj_ok objs ok content files n kv (EmptyB e) = False"

text \<open>Every bucket of \<open>D\<close> is in order, and no path of one lies below that of another.\<close>

definition world_ok :: "('i \<Rightarrow> (bytes \<rightharpoonup> 'b Metadata)) \<Rightarrow> ('i \<Rightarrow> bool) \<Rightarrow> ('kv \<Rightarrow> (bytes \<rightharpoonup> bytes)) \<Rightarrow> ('fs \<Rightarrow> (string \<rightharpoonup> bytes)) \<Rightarrow>
    nat \<Rightarrow> nat set \<Rightarrow> ('i, 'kv, 'fs) world \<Rightarrow> bool" where
  "world_ok objs ok content files n D w \<longleftrightarrow>
     (\<forall>d\<in>D. obj_ok objs ok content files n (w_kv w) (w_heap w d)) \<and>
     (\<forall>d\<in>D. \<forall>d'\<in>D. d \<noteq> d' \<longrightarrow> \<not> HasPrefix (obj_path (w_heap w d) @ ''/'') (obj_path (w_heap w d') @ ''/''))"

definition w_objs :: "('i \<Rightarrow> (bytes \<rightharpoonup> 'b Metadata)) \<Rightarrow> ('i, 'kv, 'fs) world \<Rightarrow> nat \<Rightarrow> (bytes \<rightharpoonup> 'b Metadata)" where
  "w_objs objs w d = obj_objs objs (w_heap w d)"

lemma append_comparable: "p @ a = q @ b \<Longrightarrow> HasPrefix p q \<or> HasPrefix q p"
  using HasPrefix_append [of p] HasPrefix_append [of q] by (auto simp: append_eq_append_conv2)

lemma ix_key_apart:
  assumes "\<not> HasPrefix (p @ ''/'') (q @ ''/'')" "\<not> HasPrefix (q @ ''/'') (p @ ''/'')"
  shows "ix_key p a \<noteq> ix_key q b"
  using append_comparable [of "p @ ''/''" a "q @ ''/''" b] assms by (auto simp: ix_key_def)

lemma no_domains_ix [simp]: "no_domains m (ix_key p a) = m (ix_key p a)"
  by (simp add: no_domains_def HasPrefix_def ix_key_def)

lemma obj_ok_kv:
  assumes "\<And>k md. obj_objs objs X k = Some md \<Longrightarrow>
    content kv' (ix_key (obj_path X) (ID_Key (md_ID md))) = content kv (ix_key (obj_path X) (ID_Key (md_ID md)))"
  shows "obj_ok objs ok content files n kv' X = obj_ok objs ok content files n kv X"
  using assms by (cases X) (simp_all add: core_ok_def bucket_ok_def view_ok_def bucket_view_def)

lemma obj_ok_indexed:
  assumes "obj_ok objs ok content files n kv X" "obj_objs objs X k = Some md"
  shows "content kv (ix_key (obj_path X) (ID_Key (md_ID md))) = Some k \<and> length k = 20"
proof -
  have "content kv (ix_key (obj_path X) (ID_Key (md_ID md))) = Some k \<and> k = sha1_Sum (ID_Key (md_ID md))"
    using assms by (cases X) (simp_all add: core_ok_def bucket_ok_def view_ok_def bucket_view_def)
  then show ?thesis using length_sha1_Sum by metis
qed

lemma world_ok_apart:
  assumes "world_ok objs ok content files n D w" "d \<in> D" "d' \<in> D" "d' \<noteq> d"
  shows "ix_key (obj_path (w_heap w d')) a \<noteq> ix_key (obj_path (w_heap w d)) b"
  using assms by (intro ix_key_apart) (auto simp: world_ok_def)

context bucket_laws
begin

lemma core_discard:
  assumes "core_ok objs ok content files n b" "objs (bc_indexdb b) k = Some md"
  shows "\<exists>b' S. stack (bc_DiscardWithHash E n k) b = (None, b') \<and> core_ok objs ok content files n b' \<and> k \<in> S \<and>
    objs (bc_indexdb b') = (\<lambda>j. if j \<in> S then None else objs (bc_indexdb b) j) \<and> bc_path b' = bc_path b \<and>
    (\<forall>p a. (\<forall>a'. ix_key p a \<noteq> ix_key (bc_path b) a') \<longrightarrow>
       content (bc_sharedkv b') (ix_key p a) = content (bc_sharedkv b) (ix_key p a))"
proof -
  have b: "bok b" "card (dom (objs (bc_indexdb b))) \<le> n" using assms(1) by (simp_all add: core_ok_def)
  obtain b' S where b': "bc_DiscardWithHash E n k b = Some (None, b')" "discarded S b b'" "bok b'" "k \<in> S"
    using DiscardWithHash_found [OF b(1) assms(2) b(2)] by blast
  have "card (dom (objs (bc_indexdb b'))) \<le> n"
    using discarded_card [OF _ b'(2)] b by (simp add: bucket_ok_def)
  moreover have "content (bc_sharedkv b') (ix_key p a) = content (bc_sharedkv b) (ix_key p a)"
    if "\<forall>a'. ix_key p a \<noteq> ix_key (bc_path b) a'" for p a
  proof -
    have "v_kv (vw b') (ix_key p a) = v_kv (vw b) (ix_key p a)"
      using b'(2) that by (simp add: discarded_def remove_objs_def)
    then show ?thesis by (simp add: bucket_view_def)
  qed
  moreover have "objs (bc_indexdb b') = (\<lambda>j. if j \<in> S then None else objs (bc_indexdb b) j)"
    using discarded_objs [OF b'(2)] by (simp add: fun_eq_iff)
  moreover have "bc_path b' = bc_path b" using b'(2) same_bucket_path by (auto simp: discarded_def)
  ultimately show ?thesis using b'(1,3,4) by (auto simp: stack_def core_ok_def)
qed

lemma core_discard_missing:
  assumes "core_ok objs ok content files n b" "objs (bc_indexdb b) k = None"
  shows "stack (bc_DiscardWithHash E n k) b = (Some (StKV ErrKeyNotFound), b)"
  using assms idx.get [of "bc_indexdb b" k] by (simp add: stack_def core_ok_def bucket_ok_def bc_DiscardWithHash_def)

end

text \<open>The bucket at \<open>d\<close> discards an object: the others are left in order.\<close>

lemma world_discard:
  assumes laws: "bucket_laws E objs good ok content files dirs opened"
    and w: "world_ok objs ok content files n D w" "d \<in> D" "w_objs objs w d k = Some md"
  shows "\<exists>w' S. bk_DiscardWithHash (world_ops E n now stamp d) k w = (None, w') \<and> world_ok objs ok content files n D w' \<and> k \<in> S \<and>
    w_objs objs w' d = (\<lambda>j. if j \<in> S then None else w_objs objs w d j) \<and>
    (\<forall>m\<in>D. m \<noteq> d \<longrightarrow> w_objs objs w' m = w_objs objs w m) \<and> (\<forall>m. obj_path (w_heap w' m) = obj_path (w_heap w m))"
proof -
  let ?f = "bk_DiscardWithHash (world_ops E n now stamp d) k"
  obtain X kv S where X: "?f w = (None, w\<lparr>w_kv := kv, w_heap := (w_heap w)(d := X)\<rparr>)"
      "obj_ok objs ok content files n kv X" "k \<in> S" "obj_path X = obj_path (w_heap w d)"
      "obj_objs objs X = (\<lambda>j. if j \<in> S then None else obj_objs objs (w_heap w d) j)"
      "\<forall>p a. (\<forall>a'. ix_key p a \<noteq> ix_key (obj_path (w_heap w d)) a') \<longrightarrow> content kv (ix_key p a) = content (w_kv w) (ix_key p a)"
  proof (cases "w_heap w d")
    case (DiskB b)
    let ?b = "b\<lparr>bc_sharedkv := w_kv w\<rparr>"
    have "core_ok objs ok content files n ?b" "objs (bc_indexdb ?b) k = Some md"
      using w DiskB by (auto simp: world_ok_def w_objs_def)
    then obtain b' S where "stack (bc_DiscardWithHash E n k) ?b = (None, b')" "core_ok objs ok content files n b'" "k \<in> S"
        "objs (bc_indexdb b') = (\<lambda>j. if j \<in> S then None else objs (bc_indexdb b) j)" "bc_path b' = bc_path b"
        "\<forall>p a. (\<forall>a'. ix_key p a \<noteq> ix_key (bc_path b) a') \<longrightarrow>
          content (bc_sharedkv b') (ix_key p a) = content (w_kv w) (ix_key p a)"
      using bucket_laws.core_discard [OF laws, of n ?b k md] by (auto cong del: if_weak_cong)
    then show ?thesis using that [of "DiskB b'" "bc_sharedkv b'" S] DiskB by (simp add: world_ops_def call_def cong del: if_weak_cong)
  next
    case (MemB b)
    let ?b = "b\<lparr>bc_sharedkv := w_kv w\<rparr>"
    have "core_ok objs ok content files n ?b" "objs (bc_indexdb ?b) k = Some md"
      using w MemB by (auto simp: world_ok_def w_objs_def)
    then obtain b' S where "stack (bc_DiscardWithHash E n k) ?b = (None, b')" "core_ok objs ok content files n b'" "k \<in> S"
        "objs (bc_indexdb b') = (\<lambda>j. if j \<in> S then None else objs (bc_indexdb b) j)" "bc_path b' = bc_path b"
        "\<forall>p a. (\<forall>a'. ix_key p a \<noteq> ix_key (bc_path b) a') \<longrightarrow>
          content (bc_sharedkv b') (ix_key p a) = content (w_kv w) (ix_key p a)"
      using bucket_laws.core_discard [OF laws, of n ?b k md] by (auto cong del: if_weak_cong)
    then show ?thesis using that [of "MemB b'" "bc_sharedkv b'" S] MemB by (simp add: world_ops_def call_def mem_DiscardWithHash_def cong del: if_weak_cong)
  qed (use w in \<open>auto simp: world_ok_def\<close>)
  have "obj_ok objs ok content files n kv (w_heap w m)" if m: "m \<in> D" "m \<noteq> d" for m
  proof -
    have "content kv (ix_key (obj_path (w_heap w m)) a) = content (w_kv w) (ix_key (obj_path (w_heap w m)) a)" for a
      using X(6) world_ok_apart [OF w(1,2) m] by blast
    then show ?thesis using w(1) m(1) obj_ok_kv [of objs "w_heap w m" content kv "w_kv w"] by (simp add: world_ok_def)
  qed
  then have "world_ok objs ok content files n D (w\<lparr>w_kv := kv, w_heap := (w_heap w)(d := X)\<rparr>)"
    using w(1) X(2,4) unfolding world_ok_def by simp
  then show ?thesis
    using X by (intro exI [of _ "w\<lparr>w_kv := kv, w_heap := (w_heap w)(d := X)\<rparr>"] exI [of _ S])
      (simp add: w_objs_def cong del: if_weak_cong)
qed

lemma world_discard_missing:
  assumes laws: "bucket_laws E objs good ok content files dirs opened"
    and w: "world_ok objs ok content files n D w" "d \<in> D" "w_objs objs w d k = None"
  shows "\<exists>w' e. bk_DiscardWithHash (world_ops E n now stamp d) k w = (Some e, w') \<and> world_ok objs ok content files n D w' \<and>
    (\<forall>m. w_objs objs w' m = w_objs objs w m \<and> obj_path (w_heap w' m) = obj_path (w_heap w m))"
proof -
  have d: "obj_ok objs ok content files n (w_kv w) (w_heap w d)" using w by (simp add: world_ok_def)
  obtain X where X: "bk_DiscardWithHash (world_ops E n now stamp d) k w =
        (Some (StKV ErrKeyNotFound), w\<lparr>w_heap := (w_heap w)(d := X)\<rparr>)"
      "obj_ok objs ok content files n (w_kv w) X" "obj_objs objs X = obj_objs objs (w_heap w d)" "obj_path X = obj_path (w_heap w d)"
  proof (cases "w_heap w d")
    case (DiskB b)
    then show ?thesis
      using that [of "DiskB (b\<lparr>bc_sharedkv := w_kv w\<rparr>)"] d w(3) bucket_laws.core_discard_missing [OF laws, of n "b\<lparr>bc_sharedkv := w_kv w\<rparr>" k]
      by (simp add: world_ops_def call_def w_objs_def)
  next
    case (MemB b)
    then show ?thesis
      using that [of "MemB (b\<lparr>bc_sharedkv := w_kv w\<rparr>)"] d w(3) bucket_laws.core_discard_missing [OF laws, of n "b\<lparr>bc_sharedkv := w_kv w\<rparr>" k]
      by (simp add: world_ops_def call_def w_objs_def mem_DiscardWithHash_def)
  qed (use d in simp)
  have "world_ok objs ok content files n D (w\<lparr>w_heap := (w_heap w)(d := X)\<rparr>)"
    using w(1) X(2,4) unfolding world_ok_def by simp
  then show ?thesis using X by (simp add: w_objs_def)
qed

lemma world_scan:
  assumes laws: "bucket_laws E objs good ok content files dirs opened"
    and w: "world_ok objs ok content files n D w" "d \<in> D"
  shows "\<exists>es. bk_Iterate (world_ops E n now stamp d) g w c = (None, fold (\<lambda>md c. snd (g md c)) es c) \<and>
    (\<forall>md\<in>set es. \<exists>k. w_objs objs w d k = Some md)"
proof -
  have idx: "index_db (env_index E) objs good ok" using laws by (simp add: bucket_laws_def)
  have "obj_ok objs ok content files n (w_kv w) (w_heap w d)" using w by (simp add: world_ok_def)
  then obtain i where i: "ok i" "w_objs objs w d = objs i"
      "bk_Iterate (world_ops E n now stamp d) g w c =
        ix_Iterate (env_index E) None (\<lambda>key val c. let (err, c) = g val c in (err = None, c)) i c"
    by (cases "w_heap w d") (auto simp: world_ops_def ask_def call_def bc_Iterate_def w_objs_def core_ok_def bucket_ok_def)
  obtain es where es: "bk_Iterate (world_ops E n now stamp d) g w c = (None, fold (\<lambda>(k, md) c. snd (g md c)) es c)"
      "\<forall>k md. (k, md) \<in> set es \<longleftrightarrow> objs i k = Some md"
    using index_db.iterate [OF idx i(1), of None "\<lambda>key val c. let (err, c) = g val c in (err = None, c)" c] i(3)
    by (auto simp: case_prod_unfold Let_def)
  have "fold (\<lambda>(k, md) c. snd (g md c)) es = fold (\<lambda>md c. snd (g md c)) (map snd es)"
    by (simp add: fold_map comp_def case_prod_unfold)
  then show ?thesis using es i(2) by (intro exI [of _ "map snd es"]) auto
qed

lemma world_purgeable:
  assumes laws: "bucket_laws E objs good ok content files dirs opened" and kv: "shared_kv K content"
  shows "purgeable (world_kv K) (world_ops E n now stamp) D (world_ok objs ok content files n D) (w_objs objs) (content \<circ> w_kv)"
proof -
  have path: "bk_ID (world_ops E n now stamp d) w = obj_path (w_heap w d)"
    if "world_ok objs ok content files n D w" "d \<in> D" for w d
    using that by (cases "w_heap w d") (auto simp: world_ops_def ask_def call_def world_ok_def)
  show ?thesis
  proof (unfold_locales, goal_cases)
    case (1 w d k md)
    obtain w' S where "bk_DiscardWithHash (world_ops E n now stamp d) k w = (None, w')" "world_ok objs ok content files n D w'" "k \<in> S"
        "w_objs objs w' d = (\<lambda>j. if j \<in> S then None else w_objs objs w d j)"
        "\<forall>m\<in>D. m \<noteq> d \<longrightarrow> w_objs objs w' m = w_objs objs w m" "\<forall>m. obj_path (w_heap w' m) = obj_path (w_heap w m)"
      using world_discard [OF laws 1(1-3), of now stamp] by blast
    moreover from this have "\<forall>m\<in>D. bk_ID (world_ops E n now stamp m) w' = bk_ID (world_ops E n now stamp m) w"
      using path 1(1) by simp
    ultimately show ?case by blast
  next
    case (2 w d k)
    obtain w' e where "bk_DiscardWithHash (world_ops E n now stamp d) k w = (Some e, w')" "world_ok objs ok content files n D w'"
        "\<forall>m. w_objs objs w' m = w_objs objs w m \<and> obj_path (w_heap w' m) = obj_path (w_heap w m)"
      using world_discard_missing [OF laws 2, of now stamp] by blast
    moreover from this have "\<forall>m\<in>D. bk_ID (world_ops E n now stamp m) w' = bk_ID (world_ops E n now stamp m) w"
      using path 2(1) by simp
    ultimately show ?case by blast
  next
    case (3 w d k md)
    then show ?case using obj_ok_indexed [of objs ok content files n "w_kv w" "w_heap w d" k md] path
      by (auto simp: world_ok_def w_objs_def)
  next
    case (4 w p f c)
    show ?case using shared_kv.kv_prefix [OF kv, of p f "w_kv w" c] by (auto simp: world_kv_def)
  next
    case (5 w key)
    obtain kv' where kv': "sk_Delete K key (w_kv w) = (None, kv')" "content kv' = (content (w_kv w))(key := None)"
      using shared_kv.kv_delete [OF kv] by blast
    have "obj_ok objs ok content files n kv' (w_heap w d)" if "d \<in> D" for d
      using obj_ok_kv [of objs "w_heap w d" content kv' "w_kv w"] 5 that path kv'(2)
      by (simp add: world_ok_def w_objs_def)
    then have "world_ok objs ok content files n D (w\<lparr>w_kv := kv'\<rparr>)" using 5(1) by (simp add: world_ok_def)
    then show ?case using kv' path 5(1) by (auto simp: world_kv_def w_objs_def)
  next
    case (6 w d m a b)
    then show ?case using world_ok_apart [OF 6] path by simp
  next
    case (7 w d g c)
    show ?case using world_scan [OF laws 7] .
  qed
qed

lemma pebble_purgeable:
  assumes "pebble P cont" "pebble Q kcont" "file_system F files dirs opened" "bitmap_laws bm"
  shows "purgeable (world_kv (none_kv Q)) (world_ops (pebble_env P Q F bm host time) n now stamp) D
    (world_ok (px_objs cont) (px_ok cont codec) (kv_content kcont) files n D) (w_objs (px_objs cont)) (kv_content kcont \<circ> w_kv)"
proof -
  have "shared_kv (none_kv Q) (kv_content kcont)"
    using none_kv_shared [OF assms(2)] by (simp add: kv_content_def [abs_def])
  then show ?thesis by (rule world_purgeable [OF pebble_bucket_laws [OF assms]])
qed

interpretation list_world: purgeable "world_kv (none_kv list_pebble)"
    "world_ops (pebble_env list_pebble list_pebble list_fs_ops list_bitmap host time) n now stamp" D
    "world_ok (px_objs map_of) (px_ok map_of codec) (kv_content map_of) (\<lambda>fs. map_of (lf_files fs)) n D"
    "w_objs (px_objs map_of)" "kv_content map_of \<circ> w_kv"
  for host time n now stamp D codec
  by (rule pebble_purgeable) (rule list_db.pebble_axioms list_fs.file_system_axioms list_bitmap_laws)+

subsection \<open>Properties\<close>

text \<open>A directory is purged from the buckets \<open>ns\<close>: no object is left whose key starts with the URL, no other object has come
  into being, and the answer is a success or, where no bucket had such an object, that the key was not found.\<close>

definition dir_purged :: "('i \<Rightarrow> (bytes \<rightharpoonup> 'b Metadata)) \<Rightarrow> nat set \<Rightarrow> nat list \<Rightarrow> string \<Rightarrow> ('i, 'kv, 'fs) world \<Rightarrow>
    st_err option \<times> ('i, 'kv, 'fs) world \<Rightarrow> bool" where
  "dir_purged objs D ns storeUrl w r \<longleftrightarrow>
     (\<forall>d\<in>set ns. \<forall>k md. w_objs objs (snd r) d k = Some md \<longrightarrow> \<not> HasPrefix (ID_Key (md_ID md)) storeUrl) \<and>
     (\<forall>d\<in>D. w_objs objs (snd r) d \<subseteq>\<^sub>m w_objs objs w d) \<and>
     (fst r = None \<or> fst r = Some (StKV ErrKeyNotFound) \<and> (\<forall>d\<in>D. w_objs objs (snd r) d = w_objs objs w d))"

lemma pebble_purge_dir:
  assumes "pebble P cont" "pebble Q kcont" "file_system F files dirs opened" "bitmap_laws bm"
    "E = pebble_env P Q F bm host time"
    "world_ok (px_objs cont) (px_ok cont codec) (kv_content kcont) files n D w" "set ns \<subseteq> D" "\<not> MarkExpired typ"
  shows "\<exists>err w'. purge_dir (world_kv (none_kv Q)) (world_ops E n now stamp) now' ns storeUrl typ w = (err, w') \<and>
    dir_purged (px_objs cont) D ns storeUrl w (err, w') \<and>
    world_ok (px_objs cont) (px_ok cont codec) (kv_content kcont) files n D w'"
proof -
  obtain err w' where "purge_dir (world_kv (none_kv Q)) (world_ops E n now stamp) now' ns storeUrl typ w = (err, w')"
      "world_ok (px_objs cont) (px_ok cont codec) (kv_content kcont) files n D w'"
      "\<forall>d\<in>set ns. \<forall>k md. w_objs (px_objs cont) w' d k = Some md \<longrightarrow> \<not> HasPrefix (ID_Key (md_ID md)) storeUrl"
      "\<forall>d\<in>D. w_objs (px_objs cont) w' d \<subseteq>\<^sub>m w_objs (px_objs cont) w d"
      "err = None \<or> err = Some (StKV ErrKeyNotFound) \<and> (\<forall>d\<in>D. w_objs (px_objs cont) w' d = w_objs (px_objs cont) w d)"
    using purgeable.purge_dir_spec [OF pebble_purgeable [OF assms(1-4)] assms(6-8)] unfolding assms(5) by blast
  then show ?thesis by (simp add: dir_purged_def)
qed

text \<open>C9: A purge of a directory on the plain storage reaches its goal.  Over buckets on disk and in memory that are in order, with paths
  that do not contain one another, \<^verbatim>\<open>PURGE\<close> of a directory without the mark-expired flag returns success or the not-found error;
  afterwards no bucket of the storage holds an object whose key starts with the URL, nothing was added anywhere, the
  buckets are in order again, and after a not-found answer the objects are those from before.\<close>
theorem native_PURGE_dir:
  assumes "pebble P cont" "pebble Q kcont" "file_system F files dirs opened" "bitmap_laws bm"
    "E = pebble_env P Q F bm host time"
    "world_ok (px_objs cont) (px_ok cont codec) (kv_content kcont) files n D w"
    "set (native_Buckets s) \<subseteq> D" "Dir typ" "\<not> MarkExpired typ"
  shows "\<exists>err w'. native_PURGE (world_kv (none_kv Q)) (world_ops E n now stamp) sel now' storeUrl typ s w = (err, w') \<and>
    dir_purged (px_objs cont) D (native_Buckets s) storeUrl w (err, w') \<and>
    world_ok (px_objs cont) (px_ok cont codec) (kv_content kcont) files n D w'"
  using pebble_purge_dir [OF assms(1-7,9), of now stamp now' storeUrl] assms(8) by (simp add: native_PURGE_def)

text \<open>The storage with hot, warm and cold layers purges a directory from all its layers in the same way.\<close>
theorem migrator_PURGE_dir:
  assumes "pebble P cont" "pebble Q kcont" "file_system F files dirs opened" "bitmap_laws bm"
    "E = pebble_env P Q F bm host time"
    "world_ok (px_objs cont) (px_ok cont codec) (kv_content kcont) files n D w"
    "set (migrator_Buckets s) \<subseteq> D" "Dir typ" "\<not> MarkExpired typ"
  shows "\<exists>err w'. migrator_PURGE (world_kv (none_kv Q)) (world_ops E n now stamp) sel now' storeUrl typ s w = (err, w') \<and>
    dir_purged (px_objs cont) D (migrator_Buckets s) storeUrl w (err, w') \<and>
    world_ok (px_objs cont) (px_ok cont codec) (kv_content kcont) files n D w'"
  using pebble_purge_dir [OF assms(1-7,9), of now stamp now' storeUrl] assms(8) by (simp add: migrator_PURGE_def)

definition sample_world :: "(((bytes \<times> bytes) list, u32_list) PebbleDB, (bytes \<times> bytes) list noneSharedKV, list_fs) world" where
  "sample_world = \<lparr>w_kv = bc_sharedkv sample_memory, w_heap = (\<lambda>_. MemB sample_memory)\<rparr>"

definition world_env :: "(((bytes \<times> bytes) list, u32_list) PebbleDB, u32_list,
    (((bytes \<times> bytes) list, u32_list) PebbleDB, (bytes \<times> bytes) list noneSharedKV, list_fs) world \<times> int,
    (bytes \<times> bytes) list noneSharedKV, unit, list_fs, nat) bucket_env" where
  "world_env = pebble_env list_pebble list_pebble list_fs_ops list_bitmap (\<lambda>_. Some ''h'') (\<lambda>_. [])"

lemma sample_world_ok:
  "world_ok (px_objs map_of) (px_ok map_of (one_codec sample_md)) (kv_content map_of) (\<lambda>fs. map_of (lf_files fs)) 1 {0} sample_world"
  "w_objs (px_objs map_of) sample_world 0 = [id_hash (NewID ''a'') \<mapsto> sample_md]"
  using sample_memory_ok sample_memory_objs
  by (simp_all add: world_ok_def sample_world_def core_ok_def w_objs_def del: fun_upd_apply)

lemma dir_purged_sample:
  assumes "dir_purged (px_objs map_of) {0} [0] ''a'' sample_world (err, w')"
  shows "err = None \<and> w_objs (px_objs map_of) w' 0 = Map.empty"
proof -
  let ?m = "w_objs (px_objs map_of) w' 0"
  have "HasPrefix (ID_Key (md_ID sample_md)) ''a''" by (simp add: sample_md_def NewID_def ID_Key_def Let_def)
  moreover have "\<forall>k md. ?m k = Some md \<longrightarrow> \<not> HasPrefix (ID_Key (md_ID md)) ''a''"
    using assms by (simp add: dir_purged_def)
  ultimately have "?m k \<noteq> Some sample_md" for k by blast
  moreover have "?m \<subseteq>\<^sub>m [id_hash (NewID ''a'') \<mapsto> sample_md]"
    using assms by (simp add: dir_purged_def sample_world_ok(2) del: fun_upd_apply)
  ultimately have "?m k = None" for k
    by (cases "k = id_hash (NewID ''a'')"; cases "?m k") (auto simp: map_le_def dom_def split: if_splits)
  then have empty: "?m = Map.empty" by blast
  moreover have "Map.empty \<noteq> [id_hash (NewID ''a'') \<mapsto> sample_md]" by (metis map_upd_nonempty)
  ultimately show ?thesis
    using assms by (auto simp: dir_purged_def sample_world_ok(2) simp del: fun_upd_apply)
qed

theorem native_PURGE_dir_witness:
  "\<exists>w'. native_PURGE (world_kv (none_kv list_pebble)) (world_ops world_env 1 0 []) (\<lambda>_ _ _. None) 0 ''a''
      \<lparr>Hard = True, Dir = True, MarkExpired = False\<rparr>
      \<lparr>ns_closed = False, ns_selector = (), ns_memoryBucket = None, ns_hotBucket = [], ns_warmlBucket = [0]\<rparr> sample_world = (None, w') \<and>
    w_objs (px_objs map_of) w' 0 = Map.empty"
  using native_PURGE_dir [OF sample_laws(1-4) world_env_def sample_world_ok(1), of
      "\<lparr>ns_closed = False, ns_selector = (), ns_memoryBucket = None, ns_hotBucket = [], ns_warmlBucket = [0]\<rparr>"
      "\<lparr>Hard = True, Dir = True, MarkExpired = False\<rparr>" 0 "[]" "\<lambda>_ _ _. None" 0 "''a''"] dir_purged_sample
  by (fastforce simp: native_Buckets_def)

theorem migrator_PURGE_dir_witness:
  "\<exists>w'. migrator_PURGE (world_kv (none_kv list_pebble)) (world_ops world_env 1 0 []) (\<lambda>_ _ _. None) 0 ''a''
      \<lparr>Hard = True, Dir = True, MarkExpired = False\<rparr>
      \<lparr>mg_warmSelector = Some (), mg_hotSelector = None, mg_coldSelector = None, mg_memoryBucket = None,
        mg_hotBucket = [], mg_warmBucket = [0], mg_coldBucket = []\<rparr> sample_world = (None, w') \<and>
    w_objs (px_objs map_of) w' 0 = Map.empty"
  using migrator_PURGE_dir [OF sample_laws(1-4) world_env_def sample_world_ok(1), of
      "\<lparr>mg_warmSelector = Some (), mg_hotSelector = None, mg_coldSelector = None, mg_memoryBucket = None,
        mg_hotBucket = [], mg_warmBucket = [0], mg_coldBucket = []\<rparr>"
      "\<lparr>Hard = True, Dir = True, MarkExpired = False\<rparr>" 0 "[]" "\<lambda>_ _ _. None" 0 "''a''"] dir_purged_sample
  by (fastforce simp: migrator_Buckets_def)

end
