(* ===== verification/Evict_Loop.thy ===== *)
theory Evict_Loop
  imports Native_Storage
begin

text \<open>
  The goroutines of a bucket on disk, \<^verbatim>\<open>src/storage/bucket/disk/disk.go\<close>: one round of the loop that waits for evictions of
  the cache, and one of the goroutines that \<^verbatim>\<open>touch\<close> starts to promote an object.  Both work on the buckets of a storage
  with layers.
\<close>

definition disk_demote :: "('i, 'b, ('i, 'kv, 'fs) world \<times> int, 'kv, 'k, 'fs, 'h) bucket_env \<Rightarrow> nat \<Rightarrow> int \<Rightarrow> string \<Rightarrow>
    ('sel \<Rightarrow> ID \<Rightarrow> ('i, 'kv, 'fs) world \<Rightarrow> nat option) \<Rightarrow> (nat, 'sel) migratorStorage \<Rightarrow> bytes \<Rightarrow> nat \<Rightarrow>
    ('i, 'kv, 'fs) world \<Rightarrow> st_err option \<times> ('i, 'kv, 'fs) world" where
  "disk_demote E n now stamp sel m key d w =
     (case w_Get E key d w of
        (_, Some err) \<Rightarrow> (Some err, w)
      | (None, None) \<Rightarrow> (Some (StMsg ''metadata not found for demotion''), w)
      | (Some md, None) \<Rightarrow> Demote sel (world_ops E n now stamp) m (md_ID md) d w)"

text \<open>One round: the state is as before when no eviction waits.\<close>

definition disk_evict :: "('i, 'b, ('i, 'kv, 'fs) world \<times> int, 'kv, 'k, 'fs, 'h) bucket_env \<Rightarrow> nat \<Rightarrow> int \<Rightarrow> string \<Rightarrow>
    ('sel \<Rightarrow> ID \<Rightarrow> ('i, 'kv, 'fs) world \<Rightarrow> nat option) \<Rightarrow> (nat, 'sel) migratorStorage \<Rightarrow> nat \<Rightarrow>
    ('i, 'kv, 'fs) world \<Rightarrow> ('i, 'kv, 'fs) world" where
  "disk_evict E n now stamp sel m d w =
     (case w_heap w d of
        DiskB b \<Rightarrow>
          (case next_eviction b of
             None \<Rightarrow> w
           | Some ((key, _), b) \<Rightarrow>
               let w = w\<lparr>w_heap := (w_heap w)(d := DiskB b)\<rparr>;
                   discard = (\<lambda>w. snd (bk_DiscardWithHash (world_ops E n now stamp d) key w))
               in if bc_migration b then
                    let (err, w) = disk_demote E n now stamp sel m key d w in if err \<noteq> None then discard w else w
                  else discard w)
      | _ \<Rightarrow> w)"

definition disk_promote :: "('i, 'b, ('i, 'kv, 'fs) world \<times> int, 'kv, 'k, 'fs, 'h) bucket_env \<Rightarrow> nat \<Rightarrow> int \<Rightarrow> string \<Rightarrow>
    ('sel \<Rightarrow> ID \<Rightarrow> ('i, 'kv, 'fs) world \<Rightarrow> nat option) \<Rightarrow> (nat, 'sel) migratorStorage \<Rightarrow> nat \<Rightarrow>
    ('i, 'kv, 'fs) world \<Rightarrow> ('i, 'kv, 'fs) world" where
  "disk_promote E n now stamp sel m d w =
     (case w_heap w d of
        DiskB b \<Rightarrow>
          (case dk_promotions b of
             [] \<Rightarrow> w
           | oid # ps \<Rightarrow>
               let b = b\<lparr>dk_promotions := ps\<rparr>;
                   w = w\<lparr>w_heap := (w_heap w)(d := DiskB b)\<rparr>
               in if bc_migration b then snd (Promote sel (world_ops E n now stamp) m oid d w) else w)
      | _ \<Rightarrow> w)"

subsection \<open>Taking an eviction\<close>

lemma next_eviction_keeps:
  assumes "next_eviction b = Some (e, b')"
  shows "bc_path b' = bc_path b \<and> bc_indexdb b' = bc_indexdb b \<and> bc_fs b' = bc_fs b \<and> bc_migration b' = bc_migration b \<and>
    bc_storeType b' = bc_storeType b"
  using assms by (auto simp: next_eviction_def split: option.splits list.splits)

lemma world_ok_next:
  assumes "world_ok objs ok content files n D w" "w_heap w d = DiskB b" "next_eviction b = Some (e, b')"
  defines "w' \<equiv> w\<lparr>w_heap := (w_heap w)(d := DiskB b')\<rparr>"
  shows "world_ok objs ok content files n D w'" "w_objs objs w' = w_objs objs w"
proof -
  have "obj_ok objs ok content files n kv (DiskB b') = obj_ok objs ok content files n kv (DiskB b)" for kv
    using next_eviction_keeps [OF assms(3)] by (simp add: core_ok_def bucket_ok_def bucket_view_def)
  then have "obj_ok objs ok content files n (w_kv w') (w_heap w' m) = obj_ok objs ok content files n (w_kv w) (w_heap w m)"
      "obj_path (w_heap w' m) = obj_path (w_heap w m)" for m
    using next_eviction_keeps [OF assms(3)] assms(2) by (simp_all add: w'_def)
  then show "world_ok objs ok content files n D w'" using assms(1) by (simp add: world_ok_def)
  show "w_objs objs w' = w_objs objs w"
    using next_eviction_keeps [OF assms(3)] assms(2) by (simp add: fun_eq_iff w'_def w_objs_def)
qed

subsection \<open>Properties\<close>

text \<open>C13: Without layers the evicting goroutine frees what the cache drops: when an eviction waits and no migration is set, one round
  takes it from the channel and its object is gone from the index of the bucket; no other object appears, the other
  buckets keep theirs, and all are in order again.\<close>
theorem disk_evict_frees:
  assumes "pebble P cont" "pebble Q kcont" "file_system F files dirs opened" "bitmap_laws bm"
    "E = pebble_env P Q F bm host time"
    "world_ok (px_objs cont) (px_ok cont codec) (kv_content kcont) files n D w" "d \<in> D"
    "w_heap w d = DiskB b" "next_eviction b = Some ((key, mark), b')" "\<not> bc_migration b"
  shows "world_ok (px_objs cont) (px_ok cont codec) (kv_content kcont) files n D (disk_evict E n now stamp sel m d w) \<and>
    w_objs (px_objs cont) (disk_evict E n now stamp sel m d w) d key = None \<and>
    w_objs (px_objs cont) (disk_evict E n now stamp sel m d w) d \<subseteq>\<^sub>m w_objs (px_objs cont) w d \<and>
    (\<forall>d'\<in>D. d' \<noteq> d \<longrightarrow> w_objs (px_objs cont) (disk_evict E n now stamp sel m d w) d' = w_objs (px_objs cont) w d')"
proof -
  let ?objs = "px_objs cont" and ?ok = "world_ok (px_objs cont) (px_ok cont codec) (kv_content kcont) files n D"
  let ?w = "w\<lparr>w_heap := (w_heap w)(d := DiskB b')\<rparr>" and ?f = "bk_DiscardWithHash (world_ops E n now stamp d) key"
  have laws: "bucket_laws E ?objs (codec_good codec) (px_ok cont codec) (kv_content kcont) files dirs opened"
    unfolding assms(5) by (rule pebble_bucket_laws [OF assms(1-4)])
  have step: "disk_evict E n now stamp sel m d w = snd (?f ?w)"
    using assms(8-10) next_eviction_keeps [OF assms(9)] by (simp add: disk_evict_def)
  have w: "?ok ?w" "w_objs ?objs ?w = w_objs ?objs w" using world_ok_next [OF assms(6,8,9)] by blast+
  show ?thesis
  proof (cases "w_objs ?objs ?w d key")
    case None
    then obtain w' e where "?f ?w = (Some e, w')" "?ok w'" "\<forall>m. w_objs ?objs w' m = w_objs ?objs ?w m"
      using world_discard_missing [OF laws w(1) assms(7), of key now stamp] by blast
    then show ?thesis using None w(2) by (simp add: step)
  next
    case (Some md)
    then obtain w' S where w': "?f ?w = (None, w')" "?ok w'" "key \<in> S"
        "w_objs ?objs w' d = (\<lambda>j. if j \<in> S then None else w_objs ?objs ?w d j)"
        "\<forall>m\<in>D. m \<noteq> d \<longrightarrow> w_objs ?objs w' m = w_objs ?objs ?w m"
      using world_discard [OF laws w(1) assms(7), of key md now stamp] by blast
    then have "w_objs ?objs w' d \<subseteq>\<^sub>m w_objs ?objs w d" using w(2) by (auto simp: map_le_def split: if_splits)
    then show ?thesis using w' w(2) by (simp add: step)
  qed
qed

text \<open>C14: With layers, what a bucket that is neither hot nor warm evicts is never freed.  \<^verbatim>\<open>Demote\<close> answers nil for such a
  bucket and does nothing, the goroutine takes this for a demotion and goes on: the round only takes the eviction from the
  channel, and the object stays in the index although the cache no longer knows it.\<close>
theorem disk_evict_cold_leaks:
  assumes "pebble P cont" "px_ok cont codec (bc_indexdb b)" "E = pebble_env P Q F bm host time"
    "w_heap w d = DiskB b" "next_eviction b = Some ((key, mark), b')" "bc_migration b"
    "bc_storeType b \<noteq> ''hot''" "bc_storeType b \<noteq> ''warm''" "px_objs cont (bc_indexdb b) key = Some md"
  shows "w_objs (px_objs cont) (disk_evict E n now stamp sel m d w) d key = Some md \<and>
    disk_evict E n now stamp sel m d w = w\<lparr>w_heap := (w_heap w)(d := DiskB b')\<rparr>"
proof -
  let ?w = "w\<lparr>w_heap := (w_heap w)(d := DiskB b')\<rparr>"
  note keeps = next_eviction_keeps [OF assms(5)]
  have "ix_Get (env_index E) key (bc_indexdb b) = (Some md, None)"
    using index_db.get [OF pebble_index_db [OF assms(1)] assms(2), of key] assms(9) by (simp add: assms(3) pebble_env_def)
  then have "w_Get E key d ?w = (Some md, None)" using keeps by (simp add: w_Get_def ask_def call_def)
  moreover have "bk_StoreType (world_ops E n now stamp d) ?w = bc_storeType b"
    using keeps by (simp add: world_ops_def ask_def call_def)
  ultimately have "disk_demote E n now stamp sel m key d ?w = (None, ?w)"
    using assms(7,8) by (simp add: disk_demote_def Demote_def)
  then have "disk_evict E n now stamp sel m d w = ?w" using assms(4-6) keeps by (simp add: disk_evict_def)
  then show ?thesis using assms(9) keeps by (simp add: w_objs_def)
qed

text \<open>A bucket with one object, which its cache has just evicted, for the examples.\<close>

definition evict_disk :: "bool \<Rightarrow> string \<Rightarrow>
    (((bytes \<times> bytes) list, u32_list) PebbleDB, (bytes \<times> bytes) list noneSharedKV, list_fs) diskBucket" where
  "evict_disk migration storeType =
     (sample_disk sample_md)\<lparr>bc_path := ''/'', bc_storeType := storeType, bc_migration := migration,
        bc_sharedkv := bc_sharedkv sample_memory, bc_indexdb := bc_indexdb sample_memory,
        bc_cache := (lfu_New 10)\<lparr>EvictionChannel := Some (100, [(id_hash (NewID ''a''), 0)])\<rparr>\<rparr>"

definition evict_world :: "bool \<Rightarrow> string \<Rightarrow>
    (((bytes \<times> bytes) list, u32_list) PebbleDB, (bytes \<times> bytes) list noneSharedKV, list_fs) world" where
  "evict_world migration storeType =
     \<lparr>w_kv = bc_sharedkv sample_memory, w_heap = (\<lambda>_. DiskB (evict_disk migration storeType))\<rparr>"

lemma evict_world_ok:
  "world_ok (px_objs map_of) (px_ok map_of (one_codec sample_md)) (kv_content map_of) (\<lambda>fs. map_of (lf_files fs)) 1 {0}
     (evict_world migration storeType)"
proof -
  have "bucket_ok (px_objs map_of) (px_ok map_of (one_codec sample_md)) (kv_content map_of) (\<lambda>fs. map_of (lf_files fs))
      ((evict_disk migration storeType)\<lparr>bc_sharedkv := bc_sharedkv sample_memory\<rparr>)"
    using sample_memory_ok by (simp add: bucket_ok_def bucket_view_def view_ok_def evict_disk_def sample_memory_def)
  moreover have "card (dom (px_objs map_of (bc_indexdb (evict_disk migration storeType)))) = 1"
    using sample_memory_objs by (simp add: evict_disk_def)
  ultimately show ?thesis by (simp add: world_ok_def evict_world_def core_ok_def)
qed

lemma evict_disk_next:
  "next_eviction (evict_disk migration storeType) =
     Some ((id_hash (NewID ''a''), 0), (evict_disk migration storeType)\<lparr>bc_cache := (lfu_New 10)\<lparr>EvictionChannel := Some (100, [])\<rparr>\<rparr>)"
  by (simp add: next_eviction_def evict_disk_def)

definition no_layers :: "(nat, unit) migratorStorage" where
  "no_layers = \<lparr>mg_warmSelector = None, mg_hotSelector = None, mg_coldSelector = None, mg_memoryBucket = None,
     mg_hotBucket = [], mg_warmBucket = [], mg_coldBucket = []\<rparr>"

lemma disk_evict_frees_witness:
  "w_objs (px_objs map_of) (disk_evict world_env 1 0 [] (\<lambda>_ _ _. None) no_layers 0 (evict_world False ''cold'')) 0
     (id_hash (NewID ''a'')) = None"
  using disk_evict_frees [OF sample_laws(1-4) world_env_def evict_world_ok _ _ evict_disk_next, of 0 False "''cold''" False "''cold''"
      0 "[]" "\<lambda>_ _ _. None" no_layers]
  by (simp add: evict_world_def) (simp add: evict_disk_def)

lemma disk_evict_cold_leaks_witness:
  "w_objs (px_objs map_of) (disk_evict world_env 1 0 [] (\<lambda>_ _ _. None) no_layers 0 (evict_world True ''cold'')) 0
     (id_hash (NewID ''a'')) = Some sample_md"
proof -
  have "px_ok map_of (one_codec sample_md) (bc_indexdb (evict_disk True ''cold''))"
    using sample_memory_ok by (simp add: bucket_ok_def evict_disk_def)
  moreover have "w_heap (evict_world True ''cold'') 0 = DiskB (evict_disk True ''cold'')" by (simp add: evict_world_def)
  moreover have "bc_migration (evict_disk True ''cold'')" "bc_storeType (evict_disk True ''cold'') \<noteq> ''hot''"
      "bc_storeType (evict_disk True ''cold'') \<noteq> ''warm''"
      "px_objs map_of (bc_indexdb (evict_disk True ''cold'')) (id_hash (NewID ''a'')) = Some sample_md"
    by (simp_all add: evict_disk_def sample_memory_objs)
  ultimately show ?thesis
    using disk_evict_cold_leaks [OF list_db.pebble_axioms _ world_env_def _ evict_disk_next] by blast
qed

end
