(* ===== verification/Spec2Isabelle.thy ===== *)
theory Spec2Isabelle
  imports Range_Parse Range_Control Cache_Control Vary_Control Savepart Block_File Lfu_Cache
    Hash_Ring Heavy_Keeper Diraware Evict_Loop
begin

text \<open>
  \<^bold>\<open>Tavern, an HTTP caching proxy.\<close>  A request runs through the middleware of \<^verbatim>\<open>src/server\<close>, which looks the object up
  in a storage, answers from the chunk files it finds there and fetches the rest from the origin.  The storage
  (\<^verbatim>\<open>src/storage\<close>) selects a bucket for an object by consistent hashing; a bucket keeps metadata in an index database, chunks in
  files, access marks in a cache that evicts, and an inverted index of its keys in a key-value store that all buckets share.
  Purges remove objects, singly or by directory; a wrapper remembers directory purges and hands older objects
  out as expired.  Readers of \<^verbatim>\<open>src/pkg/iobuf\<close> cut bodies to ranges, join chunks and write what passes through to the cache.

  \<^bold>\<open>Conventions.\<close>  Go's integers are \<^typ>\<open>int\<close> with the wrap-around of their width written out
  (\<open>u32\<close>, \<open>u64\<close>, \<open>i64\<close> of \<^verbatim>\<open>Tavern_Prelude\<close>), or words where the code works on bits; strings and byte slices are
  character lists.  A panic is a value: \<open>None\<close> of an operation, \<open>StPanic\<close> of a method of a bucket.  Errors are the sum type
  of the results or the optional error of a pair, as in Go.  The time of a call, the visiting order of a Go map and the coins of a random
  number generator are arguments, and the theorems hold for all of them.  A mutex is the atomicity of an operation; goroutines
  are steps between the operations.

  \<^bold>\<open>The library of Go.\<close>  \<^verbatim>\<open>Go_Std\<close> (strings, strconv, unicode, sort.Search), \<^verbatim>\<open>Go_Binary\<close> (encoding/binary) and
  \<^verbatim>\<open>Go_Crypto\<close> (sha1, hex, filepath) define the functions the source calls, as they compute, with the lemmas about
  them that the components share.

  \<^bold>\<open>Headers.\<close>
  \<^item> \<^verbatim>\<open>Http_Header\<close>: \<^verbatim>\<open>pkg/x/http/header.go\<close> and \<^verbatim>\<open>request.go\<close>.  Exactly the hop-by-hop fields and those that
    \<^verbatim>\<open>Connection\<close> names are removed.
  \<^item> \<^verbatim>\<open>Cache_Control\<close>: \<^verbatim>\<open>cachecontrol.go\<close> and \<open>ParseCacheTime\<close>.  The freshness of every well-formed list of directives.
  \<^item> \<^verbatim>\<open>Vary_Control\<close>: \<^verbatim>\<open>vary.go\<close>.  The string of a variant does not depend on the order of names and values, and
    is not injective.
  \<^item> \<^verbatim>\<open>Range_Parse\<close>, \<^verbatim>\<open>Range_Control\<close>: \<^verbatim>\<open>range.go\<close> and \<^verbatim>\<open>rangecontrol\<close>.  Parsing never panics, accepted
    ranges lie inside the object, and what every form of range parses to; sorting and merging keep the requested bytes and leave disjoint
    ranges; printed headers are read back.

  \<^bold>\<open>Bodies.\<close>
  \<^item> \<^verbatim>\<open>Io_Readers\<close>: the readers of \<^verbatim>\<open>pkg/iobuf\<close>.  An \<^verbatim>\<open>io.Reader\<close> is a coinductive object; the locale \<open>reader_impl\<close>
    is what an implementation owes.  For every size of buffer the readers deliver the window, or the parts joined together.
  \<^item> \<^verbatim>\<open>Savepart\<close>: \<^verbatim>\<open>savepart_reader.go\<close> and \<^verbatim>\<open>savepart_async_reader.go\<close>.  The body passes unchanged and the cache is given
    exactly the aligned blocks; the asynchronous reader does so under every interleaving with its writer.
  \<^item> \<^verbatim>\<open>Block_File\<close>: \<^verbatim>\<open>blockfile.go\<close> and \<^verbatim>\<open>ioindexes.go\<close>.  Blocks of a byte range, and the runs of present and missing chunks.

  \<^bold>\<open>Data structures.\<close>
  \<^item> \<^verbatim>\<open>Ring_List\<close>: \<^verbatim>\<open>contrib/container/list\<close> on a heap of elements, refined to plain lists.
  \<^item> \<^verbatim>\<open>Lfu_Cache\<close>: \<^verbatim>\<open>pkg/algorithm/lru\<close> over these lists, refined to a least-frequently-used cache; the bound on its size.
  \<^item> \<^verbatim>\<open>Heavy_Keeper\<close>: the counting sketch.  It never over-estimates, whatever the coins.
  \<^item> \<^verbatim>\<open>Path_Trie\<close>: \<^verbatim>\<open>pkg/pathtrie\<close>.  A search finds the best matching pattern and never panics.
  \<^item> \<^verbatim>\<open>Hash_Ring\<close>: \<^verbatim>\<open>storage/selector/hashring\<close>.  Lookup is the clockwise successor, a new node only attracts
    names, the walk for several nodes ends when there are enough, and need not end otherwise.

  \<^bold>\<open>Storage.\<close>
  \<^item> \<^verbatim>\<open>Storage_Object\<close>, \<^verbatim>\<open>Storage_Iface\<close>: the types of \<^verbatim>\<open>src/api/defined/v1/storage\<close>; the interfaces \<^verbatim>\<open>Bucket\<close> and \<^verbatim>\<open>Storage\<close>
    are the records \<open>bucket_ops\<close> and \<open>storage_ops\<close>.  Marks are packed fields, file paths of chunks are distinct,
    identifiers survive their codecs.
  \<^item> \<^verbatim>\<open>Shared_KV\<close>: \<^verbatim>\<open>src/storage/sharedkv\<close> over Pebble.  The locale \<open>pebble\<close> states the documented behaviour of a healthy
    database; the locale \<open>shared_kv\<close> is the contract of the store and a sublocale gives it from Pebble.
  \<^item> \<^verbatim>\<open>Index_DB\<close>: \<^verbatim>\<open>indexdb/pebble/pebble.go\<close> and the contract \<open>index_db\<close> of an index, which Pebble with a codec meets.
  \<^item> \<^verbatim>\<open>File_System\<close>: the operations on files as the locale \<open>file_system\<close>, the chunk writer and the file wrapper over them.
  \<^item> \<^verbatim>\<open>Bucket_Core\<close>: what the buckets on disk and in memory share, written once for the record both extend.  The abstract
    state \<open>bview\<close> of a bucket has its objects, its entries of the shared store and its files; in the
    locale \<open>bucket_laws\<close>, the union of the contracts above, \<open>discard\<close> is the removal \<open>remove_objs\<close> on it.
  \<^item> \<^verbatim>\<open>Disk_Bucket\<close>: \<^verbatim>\<open>bucket/disk/disk.go\<close>.  Store and lookup, complete removal, an invariant of all sequences of operations
    (the relation \<open>disk_step\<close>), the round trip of a chunk file, and the state after a restart.
  \<^item> \<^verbatim>\<open>Memory_Bucket\<close>: \<^verbatim>\<open>bucket/memory/memory.go\<close> and \<^verbatim>\<open>bucket/empty/empty.go\<close>.  Its \<^verbatim>\<open>Exist\<close> does not notice a discard.
  \<^item> \<^verbatim>\<open>Bucket_World\<close>: the buckets side by side in a heap with one shared store, the dispatch of the interface
    on the kind of a bucket, and \<^verbatim>\<open>Migrate\<close> from one bucket to another.
  \<^item> \<^verbatim>\<open>Native_Storage\<close>: \<^verbatim>\<open>builder.go\<close>, \<^verbatim>\<open>storage.go\<close> and \<^verbatim>\<open>migrator.go\<close>.  The locale \<open>purgeable\<close> is what a purge of a directory needs of
    the buckets; disk and memory buckets meet it, so that such a purge leaves no object below the URL in any of them.
  \<^item> \<^verbatim>\<open>Evict_Loop\<close>: the goroutines of a bucket on disk.  Evicted objects are freed without layers, and stay for ever
    in a cold bucket with layers.
  \<^item> \<^verbatim>\<open>Diraware\<close>: \<^verbatim>\<open>src/storage/diraware\<close>.  A lookup is expired exactly when the best matching purge is not older
    than the object, purges survive a restart, and an older purge further down hides a newer one above it.

  \<^bold>\<open>Parameters.\<close>  Third-party code is an argument of the definitions: the bitmap package (\<open>bitmap_laws\<close>), Pebble, the file
  system, the codecs, the compiler of regular expressions and the URL parser.  The contracts are interpreted on concrete
  implementations over lists (\<open>list_bitmap\<close>, \<open>list_pebble\<close>, \<open>list_fs_ops\<close>), which the witnesses of the theorems compute with.

  \<^bold>\<open>Loops and recursion.\<close>  Loops that may not end are partial functions into \<^typ>\<open>'a option\<close>: the walk of the ring, the
  discarding and copying readers, the eviction loop of the cache and the tests for blocks; where the code means them to
  return this is proved.  The recursion of \<open>discard\<close> over variants takes the depth of the call stack as an argument, \<open>None\<close> being its
  overflow; a depth of the number of objects of the bucket is enough, since every level removes one first, and the theorems
  about buckets assume no more than this.  All other recursion is total.

  \<^bold>\<open>Not modelled.\<close>  The caching and multi-range middleware, the proxy, the plugins and the server run on \<^verbatim>\<open>net/http\<close> requests, connections
  and goroutines that wait for each other; what they compute with (ranges, freshness, variants, readers, blocks, storage) is
  modelled above.  The constructors of the storages open databases and read process-wide variables; what they build is
  modelled from \<^verbatim>\<open>reinit\<close> on.  The NutsDB index, rate limits, events, metrics, traces, logging, configuration files, generated
  constants and the commands are input and output or adapters of other packages.
\<close>

end
